(* ===== verification/Prelude.thy ===== *)
theory Prelude
  imports Main "HOL-Library.Word" "HOL-Library.List_Lexorder" "HOL-Library.Char_ord"
    "HOL-Library.Product_Lexorder" "HOL-Library.Sublist"
begin

text \<open>
  Shared vocabulary of the development: machine integers at their width, bytes,
  the ordered containers of the Rust standard library (\<open>BTreeMap\<close> and \<open>BTreeSet\<close>
  as lists sorted by key, the order in which the code iterates over them), decimal
  text as Rust prints and parses it, and the big-endian integer codecs that the
  wire formats use.  The collections \<open>btree_simps\<close> and \<open>codec_simps\<close> carry
  the facts that the component proofs share.
\<close>

named_theorems btree_simps
named_theorems codec_simps

type_synonym u8 = "8 word"
type_synonym u32 = "32 word"
type_synonym u64 = "64 word"
type_synonym bytes = "u8 list"
type_synonym etag = string
type_synonym ('k, 'v) btmap = "('k \<times> 'v) list"
type_synonym 'a btset = "'a list"

subsection \<open>Ordered maps\<close>

abbreviation bt_get :: "('k, 'v) btmap \<Rightarrow> 'k \<Rightarrow> 'v option" where
  "bt_get \<equiv> map_of"

definition bt_wf :: "('k::linorder, 'v) btmap \<Rightarrow> bool" where
  "bt_wf m \<longleftrightarrow> sorted_wrt (<) (map fst m)"

fun bt_insert :: "'k::linorder \<Rightarrow> 'v \<Rightarrow> ('k, 'v) btmap \<Rightarrow> ('k, 'v) btmap" where
  "bt_insert k v [] = [(k, v)]"
| "bt_insert k v ((a, b) # m) =
     (if k < a then (k, v) # (a, b) # m
      else if k = a then (k, v) # m
      else (a, b) # bt_insert k v m)"

fun bt_remove :: "'k \<Rightarrow> ('k, 'v) btmap \<Rightarrow> ('k, 'v) btmap" where
  "bt_remove k m = filter (\<lambda>(a, b). a \<noteq> k) m"

definition bt_keys :: "('k, 'v) btmap \<Rightarrow> 'k list" where
  "bt_keys m = map fst m"

definition bt_retain :: "('k \<Rightarrow> 'v \<Rightarrow> bool) \<Rightarrow> ('k, 'v) btmap \<Rightarrow> ('k, 'v) btmap" where
  "bt_retain p m = filter (\<lambda>(k, v). p k v) m"

lemma bt_wf_Nil [simp]: "bt_wf []"
  by (simp add: bt_wf_def)

lemma bt_get_insert [simp, btree_simps]: "bt_get (bt_insert k v m) = (bt_get m)(k \<mapsto> v)"
  by (induction m) auto

lemma bt_insert_fst [simp]: "fst ` set (bt_insert k v m) = insert k (fst ` set m)"
  by (simp flip: dom_map_of_conv_image_fst)

lemma bt_wf_Cons [simp]: "bt_wf (x # m) \<longleftrightarrow> (\<forall>c \<in> fst ` set m. fst x < c) \<and> bt_wf m"
  by (auto simp: bt_wf_def)

lemma bt_wf_insert [simp, btree_simps]: "bt_wf m \<Longrightarrow> bt_wf (bt_insert k v m)"
proof (induction m)
  case (Cons x m)
  obtain a b where x: "x = (a, b)" by (cases x)
  show ?case
    using Cons by (cases k a rule: linorder_cases) (force simp: x)+
qed simp

lemma bt_wf_distinct: "bt_wf m \<Longrightarrow> distinct (map fst m)"
  by (simp add: bt_wf_def strict_sorted_iff)

lemma bt_get_mem: "bt_wf m \<Longrightarrow> (k, v) \<in> set m \<longleftrightarrow> bt_get m k = Some v"
  using bt_wf_distinct [of m] by (auto simp: map_of_eq_Some_iff)

lemma bt_wf_filter: "bt_wf m \<Longrightarrow> bt_wf (filter p m)"
  by (induction m) (auto simp: bt_wf_def)

lemma bt_wf_remove [simp, btree_simps]: "bt_wf m \<Longrightarrow> bt_wf (bt_remove k m)"
  by (simp add: bt_wf_filter)

lemma bt_wf_retain [simp, btree_simps]: "bt_wf m \<Longrightarrow> bt_wf (bt_retain p m)"
  by (simp add: bt_wf_filter bt_retain_def)

lemma bt_get_remove [simp, btree_simps]: "bt_get (bt_remove k m) = (bt_get m)(k := None)"
  by (induction m) auto

lemma bt_get_retain [btree_simps]:
  "bt_wf m \<Longrightarrow> bt_get (bt_retain p m) k =
     (case bt_get m k of None \<Rightarrow> None | Some v \<Rightarrow> if p k v then Some v else None)"
proof (induction m)
  case (Cons x m)
  obtain a b where x: "x = (a, b)" by (cases x)
  have wf: "bt_wf m" and lt: "\<forall>c \<in> fst ` set m. a < c"
    using Cons.prems by (auto simp: x bt_wf_def)
  have "bt_get m a = None" using lt by (auto simp: map_of_eq_None_iff)
  then show ?case using Cons.IH [OF wf] by (auto simp: x bt_retain_def)
qed (simp add: bt_retain_def)

declare bt_remove.simps [simp del]

text \<open>Two ordered maps with the same lookups are the same list.\<close>

lemma bt_wf_set_eq: "bt_wf m \<Longrightarrow> set m = {(k, v). bt_get m k = Some v}"
  by (auto simp: bt_get_mem)

lemma bt_ext:
  assumes "bt_wf m" "bt_wf n" "bt_get m = bt_get n"
  shows "m = n"
proof -
  have set: "set m = set n" using assms by (simp add: bt_wf_set_eq)
  have inj: "inj_on fst (set m \<union> set n)"
    using set bt_wf_distinct [OF assms(1)] by (simp add: distinct_map)
  have "map fst m = map fst n"
    using assms(1,2) set by (intro sorted_distinct_set_unique) (auto simp: bt_wf_def strict_sorted_iff)
  then show ?thesis using inj by (rule map_inj_on)
qed


subsection \<open>Ordered sets\<close>

definition bs_wf :: "'a::linorder btset \<Rightarrow> bool" where
  "bs_wf s \<longleftrightarrow> sorted_wrt (<) s"

fun bs_insert :: "'a::linorder \<Rightarrow> 'a btset \<Rightarrow> 'a btset" where
  "bs_insert x [] = [x]"
| "bs_insert x (a # s) =
     (if x < a then x # a # s else if x = a then a # s else a # bs_insert x s)"

definition bs_remove :: "'a \<Rightarrow> 'a btset \<Rightarrow> 'a btset" where
  "bs_remove x s = filter (\<lambda>a. a \<noteq> x) s"

lemma bs_wf_Nil [simp]: "bs_wf []"
  by (simp add: bs_wf_def)

lemma bs_wf_Cons [simp]: "bs_wf (x # s) \<longleftrightarrow> (\<forall>c \<in> set s. x < c) \<and> bs_wf s"
  by (simp add: bs_wf_def)

lemma set_bs_insert [simp, btree_simps]: "set (bs_insert x s) = insert x (set s)"
  by (induction s) auto

lemma set_bs_remove [simp, btree_simps]: "set (bs_remove x s) = set s - {x}"
  by (auto simp: bs_remove_def)

lemma bs_wf_insert [simp, btree_simps]: "bs_wf s \<Longrightarrow> bs_wf (bs_insert x s)"
proof (induction s)
  case (Cons a s)
  then show ?case by (cases x a rule: linorder_cases) force+
qed simp

lemma bs_wf_filter [simp, btree_simps]: "bs_wf s \<Longrightarrow> bs_wf (filter p s)"
  by (induction s) auto

lemma bs_wf_remove [simp, btree_simps]: "bs_wf s \<Longrightarrow> bs_wf (bs_remove x s)"
  by (simp add: bs_remove_def)

lemma bs_wf_distinct: "bs_wf s \<Longrightarrow> distinct s"
  by (simp add: bs_wf_def strict_sorted_iff)

lemma bs_ext: "bs_wf s \<Longrightarrow> bs_wf t \<Longrightarrow> set s = set t \<Longrightarrow> s = t"
  by (simp add: bs_wf_def strict_sorted_iff sorted_distinct_set_unique)

text \<open>\<open>Vec::sort\<close> followed by \<open>Vec::dedup\<close> leaves the elements in strict order.\<close>

lemma distinct_remdups_adj: "sorted xs \<Longrightarrow> distinct (remdups_adj xs)"
  by (induction xs rule: remdups_adj.induct) (auto simp: less_le_not_le)

lemma sort_dedup: "remdups_adj (sort xs) = sorted_list_of_set (set xs)"
  by (rule sorted_distinct_set_unique) (simp_all add: distinct_remdups_adj sorted_remdups_adj)

text \<open>Collecting a list into an ordered set, as \<open>collect::<BTreeSet<_>>\<close> does.\<close>

definition bs_of_list :: "'a::linorder list \<Rightarrow> 'a btset" where
  "bs_of_list xs = foldl (\<lambda>s x. bs_insert x s) [] xs"

lemma bs_of_list_aux:
  "bs_wf s \<Longrightarrow> bs_wf (foldl (\<lambda>s x. bs_insert x s) s xs) \<and>
     set (foldl (\<lambda>s x. bs_insert x s) s xs) = set s \<union> set xs"
  by (induction xs arbitrary: s) auto

lemma bs_of_list [simp, btree_simps]: "bs_wf (bs_of_list xs)" "set (bs_of_list xs) = set xs"
  using bs_of_list_aux [of "[]" xs] by (simp_all add: bs_of_list_def)

lemma unat_u32_less [simp]: "unat (w :: u32) < 2 ^ 32"
  using unsigned_less [of w] by simp

lemma unat_u64_less [simp]: "unat (w :: u64) < 2 ^ 64"
  using unsigned_less [of w] by simp

subsection \<open>Decimal text\<close>

text \<open>How Rust prints an unsigned integer, and how \<open>str::parse::<u64>\<close> reads one:
  an optional leading plus sign, at least one ASCII digit, no overflow.\<close>

definition digit_char :: "nat \<Rightarrow> char" where
  "digit_char d = char_of (48 + d)"

fun nat_to_dec :: "nat \<Rightarrow> string" where
  "nat_to_dec n =
     (if n < 10 then [digit_char n] else nat_to_dec (n div 10) @ [digit_char (n mod 10)])"

declare nat_to_dec.simps [simp del]

definition is_ascii_digit :: "char \<Rightarrow> bool" where
  "is_ascii_digit c \<longleftrightarrow> 48 \<le> (of_char c :: nat) \<and> (of_char c :: nat) \<le> 57"

definition digit_val :: "char \<Rightarrow> nat" where
  "digit_val c = of_char c - 48"

definition dec_value :: "string \<Rightarrow> nat" where
  "dec_value s = foldl (\<lambda>acc c. acc * 10 + digit_val c) 0 s"

definition parse_u64 :: "string \<Rightarrow> u64 option" where
  "parse_u64 s =
     (let ds = (case s of [] \<Rightarrow> [] | c # r \<Rightarrow> if c = CHR ''+'' then r else s)
      in if ds \<noteq> [] \<and> list_all is_ascii_digit ds \<and> dec_value ds < 2 ^ 64
         then Some (of_nat (dec_value ds)) else None)"

lemma digit_char_of [simp, codec_simps]:
  "d < 10 \<Longrightarrow> is_ascii_digit (digit_char d)" "d < 10 \<Longrightarrow> digit_val (digit_char d) = d"
  by (simp_all add: is_ascii_digit_def digit_val_def digit_char_def)

lemma nat_to_dec_digits [simp, codec_simps]: "list_all is_ascii_digit (nat_to_dec n)"
proof (induction n rule: nat_to_dec.induct)
  case (1 n)
  then show ?case by (subst nat_to_dec.simps) auto
qed

lemma nat_to_dec_nonempty [simp, codec_simps]: "nat_to_dec n \<noteq> []"
  by (subst nat_to_dec.simps) simp

lemma dec_value_nat_to_dec [simp, codec_simps]: "dec_value (nat_to_dec n) = n"
proof (induction n rule: nat_to_dec.induct)
  case (1 n)
  show ?case
  proof (cases "n < 10")
    case True
    then show ?thesis by (subst nat_to_dec.simps) (simp add: dec_value_def)
  next
    case False
    then have "dec_value (nat_to_dec (n div 10)) = n div 10" using 1 by simp
    with False show ?thesis by (subst nat_to_dec.simps) (simp add: dec_value_def)
  qed
qed

lemma hd_nat_to_dec_digit: "is_ascii_digit (hd (nat_to_dec n))"
  using nat_to_dec_digits [of n] nat_to_dec_nonempty [of n]
  by (cases "nat_to_dec n") auto

lemma parse_u64_nat_to_dec [simp, codec_simps]: "parse_u64 (nat_to_dec (unat w)) = Some w"
proof -
  obtain c r where cr: "nat_to_dec (unat w) = c # r"
    using nat_to_dec_nonempty by (cases "nat_to_dec (unat w)") auto
  have "is_ascii_digit c" using hd_nat_to_dec_digit [of "unat w"] cr by simp
  then have plus: "c \<noteq> CHR ''+''" by (auto simp: is_ascii_digit_def)
  have lt: "unat w < 2 ^ 64" by (rule unat_u64_less)
  have "dec_value (c # r) = unat w" "list_all is_ascii_digit (c # r)"
    using dec_value_nat_to_dec [of "unat w"] nat_to_dec_digits [of "unat w"] by (simp_all only: cr)
  then show ?thesis using plus lt by (simp add: parse_u64_def cr Let_def)
qed

lemma digit_not_slash: "is_ascii_digit c \<Longrightarrow> c \<noteq> CHR ''/''"
  by (auto simp: is_ascii_digit_def)

lemma slash_notin_dec [simp, codec_simps]: "CHR ''/'' \<notin> set (nat_to_dec n)"
  using nat_to_dec_digits [of n] by (auto simp: list_all_iff dest: digit_not_slash)

subsection \<open>Big-endian integers\<close>

fun nat_be :: "nat \<Rightarrow> nat \<Rightarrow> bytes" where
  "nat_be 0 n = []"
| "nat_be (Suc k) n = nat_be k (n div 256) @ [of_nat n]"

definition nat_of_be :: "bytes \<Rightarrow> nat" where
  "nat_of_be bs = foldl (\<lambda>acc b. acc * 256 + unat b) 0 bs"

definition u32_be :: "u32 \<Rightarrow> bytes" where
  "u32_be w = nat_be 4 (unat w)"

definition u64_be :: "u64 \<Rightarrow> bytes" where
  "u64_be w = nat_be 8 (unat w)"

lemma length_nat_be [simp, codec_simps]: "length (nat_be k n) = k"
  by (induction k arbitrary: n) auto

lemma length_u32_be [simp, codec_simps]: "length (u32_be w) = 4"
  by (simp add: u32_be_def)

lemma length_u64_be [simp, codec_simps]: "length (u64_be w) = 8"
  by (simp add: u64_be_def)

lemma nat_of_be_append1 [codec_simps]: "nat_of_be (xs @ [b]) = nat_of_be xs * 256 + unat b"
  by (simp add: nat_of_be_def)

lemma nat_of_be_nat_be [codec_simps]: "nat_of_be (nat_be k n) = n mod 256 ^ k"
proof (induction k arbitrary: n)
  case (Suc k)
  have "nat_of_be (nat_be (Suc k) n) = (n div 256) mod 256 ^ k * 256 + n mod 256"
    using Suc by (simp add: nat_of_be_append1 unat_of_nat)
  also have "\<dots> = n mod (256 * 256 ^ k)"
    by (simp add: mod_mult2_eq)
  finally show ?case by simp
qed (simp add: nat_of_be_def)

lemma nat_of_u32_be [simp, codec_simps]: "nat_of_be (u32_be w) = unat w"
  using unat_u32_less [of w] by (simp add: u32_be_def nat_of_be_nat_be)

lemma nat_of_u64_be [simp, codec_simps]: "nat_of_be (u64_be w) = unat w"
  using unat_u64_less [of w] by (simp add: u64_be_def nat_of_be_nat_be)

lemma u32_be_inj [simp]: "u32_be v = u32_be w \<longleftrightarrow> v = w"
  by (metis nat_of_u32_be word_unat_eq_iff)

text \<open>\<open>u32::try_from(len).unwrap_or(u32::MAX)\<close>: a saturating length prefix.\<close>

definition sat_u32 :: "nat \<Rightarrow> u32" where
  "sat_u32 n = (if n < 2 ^ 32 then of_nat n else - 1)"

lemma unat_sat_u32 [simp, codec_simps]: "n < 2 ^ 32 \<Longrightarrow> unat (sat_u32 n) = n"
  by (simp add: sat_u32_def unat_of_nat)

lemma sat_u32_inj: "m < 2 ^ 32 \<Longrightarrow> n < 2 ^ 32 \<Longrightarrow> sat_u32 m = sat_u32 n \<longleftrightarrow> m = n"
  by (metis unat_sat_u32)

subsection \<open>Text and bytes\<close>

definition string_bytes :: "string \<Rightarrow> bytes" where
  "string_bytes s = map (\<lambda>c. of_nat (of_char c)) s"

definition bytes_string :: "bytes \<Rightarrow> string" where
  "bytes_string b = map (\<lambda>w. char_of (unat w)) b"

definition cont :: "u8 \<Rightarrow> bool" where
  "cont b \<longleftrightarrow> 0x80 \<le> b \<and> b \<le> 0xBF"

fun utf8_valid :: "bytes \<Rightarrow> bool" where
  "utf8_valid [] = True"
| "utf8_valid (a # r) =
     (if a \<le> 0x7F then utf8_valid r
      else case r of
        [] \<Rightarrow> False
      | b # r2 \<Rightarrow>
          if 0xC2 \<le> a \<and> a \<le> 0xDF then cont b \<and> utf8_valid r2
          else case r2 of
            [] \<Rightarrow> False
          | c # r3 \<Rightarrow>
              if 0xE0 \<le> a \<and> a \<le> 0xEF then
                (if a = 0xE0 then 0xA0 \<le> b \<and> b \<le> 0xBF
                 else if a = 0xED then 0x80 \<le> b \<and> b \<le> 0x9F else cont b) \<and>
                cont c \<and> utf8_valid r3
              else case r3 of
                [] \<Rightarrow> False
              | d # r4 \<Rightarrow>
                  0xF0 \<le> a \<and> a \<le> 0xF4 \<and>
                  (if a = 0xF0 then 0x90 \<le> b \<and> b \<le> 0xBF
                   else if a = 0xF4 then 0x80 \<le> b \<and> b \<le> 0x8F else cont b) \<and>
                  cont c \<and> cont d \<and> utf8_valid r4)"

definition from_utf8 :: "bytes \<Rightarrow> string option" where
  "from_utf8 b = (if utf8_valid b then Some (bytes_string b) else None)"

text \<open>A string the code can hold at all.\<close>

definition is_str :: "string \<Rightarrow> bool" where
  "is_str s \<longleftrightarrow> utf8_valid (string_bytes s)"

lemma bytes_string_bytes [simp, codec_simps]: "bytes_string (string_bytes s) = s"
proof -
  have "char_of (unat (of_nat (of_char c) :: u8)) = c" for c :: char
    by (simp add: unat_of_nat)
  then show ?thesis by (simp add: bytes_string_def string_bytes_def comp_def)
qed

lemma string_bytes_inj [simp]: "string_bytes s = string_bytes t \<longleftrightarrow> s = t"
  by (metis bytes_string_bytes)

lemma from_utf8_string_bytes [simp, codec_simps]: "is_str s \<Longrightarrow> from_utf8 (string_bytes s) = Some s"
  by (simp add: from_utf8_def is_str_def)

lemma length_string_bytes [simp, codec_simps]: "length (string_bytes s) = length s"
  by (simp add: string_bytes_def)

lemma string_bytes_append: "string_bytes (s @ t) = string_bytes s @ string_bytes t"
  by (simp add: string_bytes_def)

lemma utf8_valid_ascii: "list_all (\<lambda>b. b \<le> 0x7F) bs \<Longrightarrow> utf8_valid bs"
  by (induction bs rule: utf8_valid.induct) auto

lemma digits_str: "list_all is_ascii_digit s \<Longrightarrow> is_str s"
proof -
  assume "list_all is_ascii_digit s"
  then have "list_all (\<lambda>b. b \<le> 0x7F) (string_bytes s)"
    by (auto simp: list_all_iff string_bytes_def is_ascii_digit_def word_le_nat_alt unat_of_nat)
  then show ?thesis unfolding is_str_def by (rule utf8_valid_ascii)
qed

definition strip_prefix :: "string \<Rightarrow> string \<Rightarrow> string option" where
  "strip_prefix p s = (if prefix p s then Some (drop (length p) s) else None)"

fun split_once :: "char \<Rightarrow> string \<Rightarrow> (string \<times> string) option" where
  "split_once d [] = None"
| "split_once d (c # s) =
     (if c = d then Some ([], s)
      else map_option (\<lambda>(a, b). (c # a, b)) (split_once d s))"

definition rsplit_once :: "char \<Rightarrow> string \<Rightarrow> (string \<times> string) option" where
  "rsplit_once d s = map_option (\<lambda>(a, b). (rev b, rev a)) (split_once d (rev s))"

lemma strip_prefix_append [simp, codec_simps]: "strip_prefix p (p @ s) = Some s"
  by (simp add: strip_prefix_def)

lemma split_once_append: "d \<notin> set a \<Longrightarrow> split_once d (a @ d # b) = Some (a, b)"
  by (induction a) auto

lemma rsplit_once_append [simp, codec_simps]:
  "d \<notin> set b \<Longrightarrow> rsplit_once d (a @ d # b) = Some (a, b)"
  by (simp add: rsplit_once_def split_once_append)

subsection \<open>Counting loops on words\<close>

lemma unat_Suc_less: "c < (h :: 'a::len word) \<Longrightarrow> unat (c + 1) = Suc (unat c)"
proof -
  assume "c < h"
  then have "Suc (unat c) \<le> unat h" by (simp add: word_less_nat_alt)
  also have "unat h < 2 ^ LENGTH('a)" by (rule unsigned_less)
  finally show ?thesis by (simp add: unat_word_ariths)
qed

lemma unat_diff_Suc_less: "c < (h :: 'a::len word) \<Longrightarrow> unat h - unat (c + 1) < unat h - unat c"
  by (simp add: unat_Suc_less word_less_nat_alt)

lemma Suc_le_word: "c < (h :: 'a::len word) \<Longrightarrow> c + 1 \<le> h"
  by (simp add: unat_Suc_less word_less_nat_alt word_le_nat_alt)

lemma less_Suc_word: "c < (h :: 'a::len word) \<Longrightarrow> c < c + 1"
  by (simp add: unat_Suc_less word_less_nat_alt)

lemma less_Suc_word_iff: "c < (h :: 'a::len word) \<Longrightarrow> x < c + 1 \<longleftrightarrow> x \<le> c"
  by (simp add: unat_Suc_less word_less_nat_alt word_le_nat_alt) arith

end
