(* ===== verification/Roles.thy ===== *)
theory Roles
  imports Prelude
begin

text \<open>
  The capability-to-role policy of \<open>packages/openom-roles/src/lib.rs\<close> and the server
  gate of \<open>openom/src/authz.rs\<close> that applies it.  Role values are small integers,
  power descending (a lower value is a stronger role); a gate is
  \<open>member_role <= required\<close>.  The \<open>tree_access\<close> table the server reads its advisory
  role from is a parameter (a database query), returning the stored role, no row, or a
  store error.
\<close>

datatype Kind =
  KUnspecified | KSnapshot | KDelta | KMedia | KProposal | KCover | KAppSecret

datatype MemberRole = MUnspecified | MOwner | MCoOwner | MAdmin | MEditor | MViewer

fun member_role_value :: "MemberRole \<Rightarrow> int" where
  "member_role_value MUnspecified = 0"
| "member_role_value MOwner = 1"
| "member_role_value MCoOwner = 2"
| "member_role_value MAdmin = 3"
| "member_role_value MEditor = 4"
| "member_role_value MViewer = 5"

definition ROLE_OWNER :: int where "ROLE_OWNER = member_role_value MOwner"
definition ROLE_CO_OWNER :: int where "ROLE_CO_OWNER = member_role_value MCoOwner"
definition ROLE_MAINTAINER :: int where "ROLE_MAINTAINER = member_role_value MAdmin"
definition ROLE_EDITOR :: int where "ROLE_EDITOR = member_role_value MEditor"
definition ROLE_VIEWER :: int where "ROLE_VIEWER = member_role_value MViewer"

lemmas role_values =
  ROLE_OWNER_def ROLE_CO_OWNER_def ROLE_MAINTAINER_def ROLE_EDITOR_def ROLE_VIEWER_def

datatype Access = Read | Propose | StageMedia | Commit | Administer

fun min_role :: "Access \<Rightarrow> int" where
  "min_role Read = ROLE_VIEWER"
| "min_role Propose = ROLE_EDITOR"
| "min_role StageMedia = ROLE_EDITOR"
| "min_role Commit = ROLE_MAINTAINER"
| "min_role Administer = ROLE_MAINTAINER"

fun required_role_for_kind :: "Kind \<Rightarrow> int option" where
  "required_role_for_kind KSnapshot = Some ROLE_MAINTAINER"
| "required_role_for_kind KDelta = Some ROLE_MAINTAINER"
| "required_role_for_kind KCover = Some ROLE_MAINTAINER"
| "required_role_for_kind KProposal = Some ROLE_EDITOR"
| "required_role_for_kind KMedia = Some ROLE_EDITOR"
| "required_role_for_kind KUnspecified = None"
| "required_role_for_kind KAppSecret = None"

datatype api_error = Forbidden | Internal string

definition authorize ::
  "('t \<Rightarrow> 'u \<Rightarrow> string + int option) \<Rightarrow> 't \<Rightarrow> 'u \<Rightarrow> 'u \<Rightarrow> Access \<Rightarrow> api_error + unit" where
  "authorize tree_access tree_id owner member need =
     (if member = owner then Inr ()
      else case tree_access tree_id member of
        Inl e \<Rightarrow> Inl (Internal e)
      | Inr (Some r) \<Rightarrow> if r \<le> min_role need then Inr () else Inl Forbidden
      | Inr None \<Rightarrow> Inl Forbidden)"

text \<open>The strength order of the capabilities that the matrix induces.\<close>

lemma min_role_range: "3 \<le> min_role a \<and> min_role a \<le> 5"
  by (cases a) (simp_all add: role_values)

lemma roles_power_descending:
  "ROLE_OWNER < ROLE_CO_OWNER" "ROLE_CO_OWNER < ROLE_MAINTAINER"
  "ROLE_MAINTAINER < ROLE_EDITOR" "ROLE_EDITOR < ROLE_VIEWER"
  by (simp_all add: role_values)

end
