(* ===== verification/Blob_Store.thy ===== *)
theory Blob_Store
  imports Prelude "HOL-Library.AList"
begin

text \<open>
  The storage swap seam of \<open>packages/store-blob\<close>: the \<open>BlobStore\<close> trait as a record
  of its four operations, the precondition check that is the whole of its concurrency
  control, the in-memory reference store, and the key check of the filesystem store.
  SHA-256 and the hex encoder are third-party code and parameters (\<open>hash_env\<close>).

  A failing operation is a value of the sum type \<open>blob_error + 'a\<close>; a write returns the
  store as well, since a backend may change state and still report an error.

  The locale \<open>blob_store\<close> states what the trait promises of a store that does not fail;
  \<open>MemoryBlob\<close> is proved to be one.
\<close>

datatype precondition = IfAbsent | IfMatch etag | Any

datatype blob_error = PreconditionFailed | Gone | Backend string

record 's blob_ops =
  blob_get :: "'s \<Rightarrow> string \<Rightarrow> blob_error + (bytes \<times> etag) option"
  blob_put :: "'s \<Rightarrow> string \<Rightarrow> bytes \<Rightarrow> precondition \<Rightarrow> 's \<times> (blob_error + etag)"
  blob_list :: "'s \<Rightarrow> string \<Rightarrow> blob_error + (string \<times> etag) list"
  blob_delete :: "'s \<Rightarrow> string \<Rightarrow> precondition \<Rightarrow> 's \<times> (blob_error + unit)"

record hash_env =
  sha256 :: "bytes \<Rightarrow> bytes"
  hexlower :: "bytes \<Rightarrow> string"

definition etag_of :: "hash_env \<Rightarrow> bytes \<Rightarrow> etag" where
  "etag_of H b = hexlower H (sha256 H b)"

fun check_pre :: "hash_env \<Rightarrow> precondition \<Rightarrow> bytes option \<Rightarrow> blob_error + unit" where
  "check_pre H Any _ = Inr ()"
| "check_pre H IfAbsent None = Inr ()"
| "check_pre H (IfMatch e) (Some b) =
     (if etag_of H b = e then Inr () else Inl PreconditionFailed)"
| "check_pre H IfAbsent (Some _) = Inl PreconditionFailed"
| "check_pre H (IfMatch _) None = Inl PreconditionFailed"

lemma check_pre_cases:
  "check_pre H pre c = Inr () \<or> check_pre H pre c = Inl PreconditionFailed"
  by (cases "(H, pre, c)" rule: check_pre.cases) auto

lemma check_pre_absent: "check_pre H IfAbsent c = Inr u \<longleftrightarrow> c = None"
  by (cases c) auto

subsection \<open>The in-memory store\<close>

text \<open>The hash map is an association list, whose order is the (unspecified) iteration
  order of the map.\<close>

type_synonym memory_blob = "(string \<times> bytes) list"

definition memory_new :: memory_blob where
  "memory_new = []"

definition memory_get ::
  "hash_env \<Rightarrow> memory_blob \<Rightarrow> string \<Rightarrow> blob_error + (bytes \<times> etag) option" where
  "memory_get H m key = Inr (map_option (\<lambda>b. (b, etag_of H b)) (map_of m key))"

definition memory_put ::
  "hash_env \<Rightarrow> memory_blob \<Rightarrow> string \<Rightarrow> bytes \<Rightarrow> precondition \<Rightarrow> memory_blob \<times> (blob_error + etag)" where
  "memory_put H m key b pre =
     (case check_pre H pre (map_of m key) of
        Inl e \<Rightarrow> (m, Inl e)
      | Inr _ \<Rightarrow> (AList.update key b m, Inr (etag_of H b)))"

definition memory_list ::
  "hash_env \<Rightarrow> memory_blob \<Rightarrow> string \<Rightarrow> blob_error + (string \<times> etag) list" where
  "memory_list H m pre =
     Inr (map (\<lambda>(k, b). (k, etag_of H b)) (filter (\<lambda>(k, b). prefix pre k) m))"

definition memory_delete ::
  "hash_env \<Rightarrow> memory_blob \<Rightarrow> string \<Rightarrow> precondition \<Rightarrow> memory_blob \<times> (blob_error + unit)" where
  "memory_delete H m key pre =
     (case check_pre H pre (map_of m key) of
        Inl e \<Rightarrow> (m, Inl e)
      | Inr _ \<Rightarrow> (AList.delete key m, Inr ()))"

definition memory_ops :: "hash_env \<Rightarrow> memory_blob blob_ops" where
  "memory_ops H = \<lparr>blob_get = memory_get H, blob_put = memory_put H,
     blob_list = memory_list H, blob_delete = memory_delete H\<rparr>"

subsection \<open>The filesystem store's key check\<close>

fun split_on :: "char \<Rightarrow> string \<Rightarrow> string list" where
  "split_on d [] = [[]]"
| "split_on d (c # s) =
     (if c = d then [] # split_on d s
      else case split_on d s of [] \<Rightarrow> [[c]] | w # ws \<Rightarrow> (c # w) # ws)"

definition fs_bad_key :: "string \<Rightarrow> bool" where
  "fs_bad_key key \<longleftrightarrow>
     key = [] \<or> prefix ''/'' key \<or> CHR 0x5C \<in> set key \<or>
     list_ex (\<lambda>c. c = [] \<or> c = ''.'' \<or> c = ''..'') (split_on (CHR ''/'') key)"

definition path_for :: "string \<Rightarrow> string \<Rightarrow> blob_error + string" where
  "path_for root key =
     (if fs_bad_key key then Inl (Backend (''invalid key: '' @ key))
      else Inr (root @ ''/'' @ key))"

text \<open>Where a relative path leads from a directory, component by component: the depth
  below the root, or nothing when a step leaves it.\<close>

fun walk_depth :: "nat \<Rightarrow> string list \<Rightarrow> nat option" where
  "walk_depth d [] = Some d"
| "walk_depth d (c # cs) =
     (if c = ''..'' then (case d of 0 \<Rightarrow> None | Suc d' \<Rightarrow> walk_depth d' cs)
      else if c = ''.'' \<or> c = [] then walk_depth d cs
      else walk_depth (Suc d) cs)"

lemma walk_depth_plain:
  "list_all (\<lambda>c. c \<noteq> [] \<and> c \<noteq> ''.'' \<and> c \<noteq> ''..'') cs \<Longrightarrow> walk_depth d cs = Some (d + length cs)"
  by (induction cs arbitrary: d) auto

lemma split_on_nonempty [simp]: "split_on d s \<noteq> []"
  by (induction s) (auto split: list.splits)

subsection \<open>The contract\<close>

locale blob_store =
  fixes ops :: "'s blob_ops"
    and content :: "'s \<Rightarrow> string \<Rightarrow> bytes option"
    and H :: hash_env
    and invar :: "'s \<Rightarrow> bool"
  assumes get_content:
      "invar s \<Longrightarrow> blob_get ops s k = Inr (map_option (\<lambda>b. (b, etag_of H b)) (content s k))"
    and put_ok:
      "invar s \<Longrightarrow> check_pre H pre (content s k) = Inr () \<Longrightarrow> blob_put ops s k b pre = (s', r) \<Longrightarrow>
         r = Inr (etag_of H b) \<and> content s' = (content s)(k \<mapsto> b)"
    and put_conflict:
      "invar s \<Longrightarrow> check_pre H pre (content s k) = Inl e \<Longrightarrow> blob_put ops s k b pre = (s, Inl e)"
    and list_content:
      "invar s \<Longrightarrow> \<exists>ks. blob_list ops s p = Inr ks \<and> distinct (map fst ks) \<and>
         set ks = {(k, etag_of H b) | k b. content s k = Some b \<and> prefix p k}"
    and delete_ok:
      "invar s \<Longrightarrow> check_pre H pre (content s k) = Inr () \<Longrightarrow> blob_delete ops s k pre = (s', q) \<Longrightarrow>
         q = Inr () \<and> content s' = (content s)(k := None)"
    and delete_conflict:
      "invar s \<Longrightarrow> check_pre H pre (content s k) = Inl e \<Longrightarrow> blob_delete ops s k pre = (s, Inl e)"
    and invar_put: "invar s \<Longrightarrow> invar (fst (blob_put ops s k b pre))"
    and invar_delete: "invar s \<Longrightarrow> invar (fst (blob_delete ops s k pre))"
begin

text \<open>A create-only write is won exactly once: the loser is told so and its bytes never land.\<close>

lemma create_race:
  assumes "invar s" "blob_put ops s k b IfAbsent = (s1, Inr t)"
    and "blob_put ops s1 k b' IfAbsent = (s2, r)"
  shows "r = Inl PreconditionFailed \<and> content s2 k = Some b"
proof -
  have inv1: "invar s1" using invar_put [of s k b IfAbsent] assms by simp
  have "check_pre H IfAbsent (content s k) \<noteq> Inl PreconditionFailed"
    using put_conflict [OF assms(1), of IfAbsent k PreconditionFailed b] assms(2) by auto
  then have "check_pre H IfAbsent (content s k) = Inr ()"
    using check_pre_cases by blast
  then have c1: "content s1 k = Some b" using put_ok [OF assms(1) _ assms(2)] by simp
  then have "check_pre H IfAbsent (content s1 k) = Inl PreconditionFailed" by simp
  then have "blob_put ops s1 k b' IfAbsent = (s1, Inl PreconditionFailed)"
    by (rule put_conflict [OF inv1])
  then show ?thesis using c1 assms(3) by simp
qed

text \<open>Compare-and-swap: against a version that has moved on nothing is written.\<close>

lemma stale_swap:
  assumes "invar s" "content s k = Some b" "etag_of H b \<noteq> e"
  shows "blob_put ops s k b' (IfMatch e) = (s, Inl PreconditionFailed)"
  using assms by (intro put_conflict) auto

lemma put_any:
  assumes "invar s" "blob_put ops s k b Any = (s', r)"
  shows "r = Inr (etag_of H b)" "content s' = (content s)(k \<mapsto> b)" "invar s'"
  using put_ok [OF assms(1) _ assms(2)] invar_put [OF assms(1), of k b Any] assms(2) by auto

lemma put_absent:
  assumes "invar s" "blob_put ops s k b IfAbsent = (s', r)"
  shows "content s' = (if content s k = None then (content s)(k \<mapsto> b) else content s)"
    and "r = (if content s k = None then Inr (etag_of H b) else Inl PreconditionFailed)" "invar s'"
  using put_ok [OF assms(1) _ assms(2)] put_conflict [OF assms(1), of IfAbsent k PreconditionFailed b]
    invar_put [OF assms(1), of k b IfAbsent] assms(2)
  by (auto split: if_splits)

end

interpretation memory: blob_store "memory_ops H" map_of H "\<lambda>m. distinct (map fst m)"
proof (unfold_locales, goal_cases)
  case (4 s p)
  then show ?case
    by (auto simp: memory_ops_def memory_list_def split_def image_iff comp_def
        map_of_eq_Some_iff distinct_map_filter)
qed (auto simp: memory_ops_def memory_get_def memory_put_def memory_delete_def
    update_conv' delete_conv' distinct_update distinct_delete fun_eq_iff split: sum.splits)

end
