(* ===== verification/Docsync_Wire.thy ===== *)
theory Docsync_Wire
  imports Blob_Store
begin

text \<open>
  The object keys and the byte formats of \<open>packages/docsync/src/lib.rs\<close>: the keys of log
  objects, head pointers and the snapshot; the decimal head count; and the covered
  frontier that travels at the front of a snapshot body.  A Rust \<open>String\<close> is its UTF-8
  bytes, so a HOL character is one byte and \<open>from_utf8\<close> is a check.
\<close>

type_synonym frontier = "(string, u64) btmap"

subsection \<open>Keys\<close>

definition log_key :: "string \<Rightarrow> string \<Rightarrow> u64 \<Rightarrow> string" where
  "log_key doc replica counter = doc @ ''/log/'' @ replica @ ''/'' @ nat_to_dec (unat counter)"

definition parse_log_key :: "string \<Rightarrow> string \<Rightarrow> (string \<times> u64) option" where
  "parse_log_key doc key =
     (case strip_prefix (doc @ ''/log/'') key of
        None \<Rightarrow> None
      | Some rest \<Rightarrow>
          (case rsplit_once (CHR ''/'') rest of
             None \<Rightarrow> None
           | Some (replica, counter) \<Rightarrow>
               if replica = [] \<or> CHR ''/'' \<in> set replica then None
               else map_option (\<lambda>c. (replica, c)) (parse_u64 counter)))"

definition heads_prefix :: "string \<Rightarrow> string" where
  "heads_prefix doc = doc @ ''/heads/''"

definition head_key :: "string \<Rightarrow> string \<Rightarrow> string" where
  "head_key doc replica = doc @ ''/heads/'' @ replica"

definition parse_head_key :: "string \<Rightarrow> string \<Rightarrow> string option" where
  "parse_head_key pre key =
     (case strip_prefix pre key of
        None \<Rightarrow> None
      | Some replica \<Rightarrow> if replica = [] \<or> CHR ''/'' \<in> set replica then None else Some replica)"

definition snapshot_key :: "string \<Rightarrow> string" where
  "snapshot_key doc = doc @ ''/snapshot''"

lemma split_once_Some: "split_once d s = Some (a, b) \<Longrightarrow> s = a @ d # b \<and> d \<notin> set a"
  by (induction s arbitrary: a) (auto split: if_splits)

lemma rsplit_once_Some: "rsplit_once d s = Some (a, b) \<Longrightarrow> s = a @ d # b \<and> d \<notin> set b"
  by (auto simp: rsplit_once_def dest!: split_once_Some) (metis append.assoc append_Cons append_Nil rev.simps(2) rev_append rev_rev_ident)

lemma head_key_prefix: "head_key doc r = heads_prefix doc @ r"
  by (simp add: head_key_def heads_prefix_def)

lemma parse_log_key_not_head:
  "parse_log_key doc (head_key doc r) = None" "parse_log_key doc (snapshot_key doc) = None"
  by (auto simp: parse_log_key_def strip_prefix_def head_key_def snapshot_key_def)

lemma log_key_inj:
  assumes "CHR ''/'' \<notin> set r" "CHR ''/'' \<notin> set r'"
  shows "log_key doc r c = log_key doc r' c' \<longleftrightarrow> r = r' \<and> c = c'"
proof
  assume "log_key doc r c = log_key doc r' c'"
  then have eq: "r @ CHR ''/'' # nat_to_dec (unat c) = r' @ CHR ''/'' # nat_to_dec (unat c')"
    by (simp add: log_key_def)
  have "r = r' \<and> nat_to_dec (unat c) = nat_to_dec (unat c')"
    using arg_cong [OF eq, of "split_once (CHR ''/'')"] assms by (simp add: split_once_append)
  then show "r = r' \<and> c = c'" by (metis dec_value_nat_to_dec word_unat_eq_iff)
qed simp

subsection \<open>The head count\<close>

definition encode_count :: "u64 \<Rightarrow> bytes" where
  "encode_count n = string_bytes (nat_to_dec (unat n))"

definition decode_count :: "bytes \<Rightarrow> u64 option" where
  "decode_count b = (case from_utf8 b of None \<Rightarrow> None | Some s \<Rightarrow> parse_u64 s)"

lemma decode_encode_count [simp, codec_simps]: "decode_count (encode_count n) = Some n"
  by (simp add: decode_count_def encode_count_def digits_str)

subsection \<open>The covered frontier\<close>

definition encode_entry :: "string \<times> u64 \<Rightarrow> bytes" where
  "encode_entry e =
     u32_be (sat_u32 (length (string_bytes (fst e)))) @ string_bytes (fst e) @ u64_be (snd e)"

definition encode_frontier :: "frontier \<Rightarrow> bytes" where
  "encode_frontier f = u32_be (sat_u32 (length f)) @ concat (map encode_entry f)"

definition bite :: "bytes \<Rightarrow> nat \<Rightarrow> (bytes \<times> bytes) option" where
  "bite rest n = (if length rest < n then None else Some (take n rest, drop n rest))"

fun decode_entries :: "nat \<Rightarrow> bytes \<Rightarrow> frontier \<Rightarrow> (frontier \<times> bytes) option" where
  "decode_entries 0 rest f = Some (f, rest)"
| "decode_entries (Suc n) rest f =
     (case bite rest 4 of None \<Rightarrow> None | Some (lb, rest1) \<Rightarrow>
      (case bite rest1 (nat_of_be lb) of None \<Rightarrow> None | Some (rb, rest2) \<Rightarrow>
       (case from_utf8 rb of None \<Rightarrow> None | Some replica \<Rightarrow>
        (case bite rest2 8 of None \<Rightarrow> None | Some (cb, rest3) \<Rightarrow>
           decode_entries n rest3 (bt_insert replica (of_nat (nat_of_be cb)) f)))))"

definition decode_frontier :: "bytes \<Rightarrow> (frontier \<times> bytes) option" where
  "decode_frontier b =
     (case bite b 4 of None \<Rightarrow> None
      | Some (nb, rest) \<Rightarrow> decode_entries (nat_of_be nb) rest [])"

lemma bite_append [simp, codec_simps]: "length a = n \<Longrightarrow> bite (a @ b) n = Some (a, b)"
  by (simp add: bite_def)

definition frontier_ok :: "frontier \<Rightarrow> bool" where
  "frontier_ok f \<longleftrightarrow>
     bt_wf f \<and> length f < 2 ^ 32 \<and> (\<forall>(r, c) \<in> set f. is_str r \<and> length r < 2 ^ 32)"

lemma decode_entries_encode:
  "\<forall>(r, c) \<in> set es. is_str r \<and> length r < 2 ^ 32 \<Longrightarrow>
   decode_entries (length es) (concat (map encode_entry es) @ rest) f =
     Some (foldl (\<lambda>m (r, c). bt_insert r c m) f es, rest)"
proof (induction es arbitrary: f)
  case (Cons e es)
  obtain r c where e: "e = (r, c)" by (cases e)
  have "is_str r" "length r < 2 ^ 32" using Cons.prems by (auto simp: e)
  then show ?case using Cons by (simp add: e encode_entry_def)
qed simp

lemma foldl_bt_insert:
  "bt_wf m \<Longrightarrow> bt_wf (foldl (\<lambda>m (r, c). bt_insert r c m) m es)"
  by (induction es arbitrary: m) auto

lemma foldl_bt_insert_get:
  "distinct (map fst es) \<Longrightarrow>
   bt_get (foldl (\<lambda>m (r, c). bt_insert r c m) m es) = bt_get m ++ map_of es"
proof (induction es arbitrary: m)
  case (Cons e es)
  have "map_of es (fst e) = None" using Cons.prems by (simp add: map_of_eq_None_iff)
  then show ?case using Cons by (auto simp: split_def fun_eq_iff map_add_def split: option.splits)
qed simp

lemma foldl_bt_insert_id: "bt_wf f \<Longrightarrow> foldl (\<lambda>m (r, c). bt_insert r c m) [] f = f"
  by (rule bt_ext) (simp_all add: foldl_bt_insert foldl_bt_insert_get bt_wf_distinct)

text \<open>Reading back a covered frontier gives the frontier that was written and leaves
  the engine bytes behind it untouched, whatever they are.\<close>

theorem decode_encode_frontier:
  "frontier_ok f \<Longrightarrow> decode_frontier (encode_frontier f @ rest) = Some (f, rest)"
  by (auto simp: frontier_ok_def decode_frontier_def encode_frontier_def decode_entries_encode
      foldl_bt_insert_id split_beta)

theorem decode_encode_frontier_witness:
  "decode_frontier (encode_frontier [(''a'', 3), (''b'', 7)] @ [1, 2]) =
     Some ([(''a'', 3), (''b'', 7)], [1, 2])"
proof (rule decode_encode_frontier)
  show "frontier_ok [(''a'', 3), (''b'', 7)]"
    by (simp add: frontier_ok_def is_str_def string_bytes_def)
qed

text \<open>A log key parses back to its replica and counter.\<close>

theorem parse_log_key_log_key:
  "r \<noteq> [] \<Longrightarrow> CHR ''/'' \<notin> set r \<Longrightarrow> parse_log_key doc (log_key doc r c) = Some (r, c)"
proof -
  assume r: "r \<noteq> []" "CHR ''/'' \<notin> set r"
  have "strip_prefix (doc @ ''/log/'') (log_key doc r c) = Some (r @ CHR ''/'' # nat_to_dec (unat c))"
    using strip_prefix_append [of "doc @ ''/log/''"] by (simp add: log_key_def)
  then show ?thesis using r by (simp add: parse_log_key_def)
qed

text \<open>The parser also reads keys that no writer produces: Rust's integer parser takes a leading
  plus sign and leading zeros.\<close>

lemma parse_log_key_plus: "parse_log_key ''d'' ''d/log/r/+05'' = Some (''r'', 5)"
  by (simp add: parse_log_key_def strip_prefix_def rsplit_once_def parse_u64_def
      is_ascii_digit_def dec_value_def digit_val_def)

end
