(* ===== verification/Docsync.thy ===== *)
theory Docsync
  imports Docsync_Wire
begin

text \<open>
  The sync client of \<open>packages/docsync/src/lib.rs\<close> (\<open>BlobSyncClient\<close>): one document, one
  local merge engine and one sealer over a blob store.  The traits \<open>Engine\<close>, \<open>Sealer\<close> and
  \<open>BlobStore\<close> are records of operations (\<open>deps\<close>), since the client is generic in them; a
  method on \<open>&mut self\<close> takes the client and returns it, also when it fails, so that
  what an early return leaves behind is visible.  The caller's closures \<open>classify\<close> and
  \<open>fold_cover\<close> may keep state of their own and share it; it is threaded through as one
  value.  Counters are 64-bit words; the diagnostic counts of type \<open>usize\<close> are naturals.
\<close>

subsection \<open>The seams\<close>

datatype entry_kind = EDelta | ESnapshot | ECover

record seal_ctx =
  sc_kind :: entry_kind
  sc_replica_counter :: u64
  sc_prev_ciphertext_hash :: bytes
  sc_covers_through_seq :: u64

record sealed =
  sl_envelope :: bytes
  sl_ciphertext_hash :: bytes

record ('e, 'x) engine_ops =
  en_apply_local :: "'e \<Rightarrow> 'x \<Rightarrow> 'e \<times> bytes"
  en_merge :: "'e \<Rightarrow> bytes \<Rightarrow> string \<Rightarrow> 'e \<times> (string + unit)"
  en_author :: "'e \<Rightarrow> string"
  en_snapshot :: "'e \<Rightarrow> bytes"
  en_merge_snapshot :: "'e \<Rightarrow> bytes \<Rightarrow> 'e \<times> (string + unit)"

record 'k sealer_ops =
  se_seal :: "'k \<Rightarrow> seal_ctx \<Rightarrow> bytes \<Rightarrow> 'k \<times> (string + sealed)"
  se_open :: "'k \<Rightarrow> entry_kind \<Rightarrow> bytes \<Rightarrow> string + bytes"
  se_covers_through_seq :: "'k \<Rightarrow> bytes \<Rightarrow> u64"

record ('e, 'x, 'k, 's) deps =
  en :: "('e, 'x) engine_ops"
  se :: "'k sealer_ops"
  st :: "'s blob_ops"

record compaction_state =
  updates_since_snapshot :: u64
  has_snapshot :: bool

text \<open>A snapshot policy is its decision function; the two policies of the crate.\<close>

type_synonym snapshot_policy = "compaction_state \<Rightarrow> bool"

definition EveryNUpdates :: "u64 \<Rightarrow> snapshot_policy" where
  "EveryNUpdates n state \<longleftrightarrow> n \<le> updates_since_snapshot state"

definition NeverCompact :: snapshot_policy where
  "NeverCompact state \<longleftrightarrow> False"

datatype sync_error = Blob blob_error | EngineErr string | SealerErr string

datatype verdict = Accept | Hold | Reject | Drop

datatype stall_cause = Unopenable | MergeFailed | Rejected | Vanished

type_synonym dot = "string \<times> u64"

record 'g gate_ops =
  classify :: "'g \<Rightarrow> bytes \<Rightarrow> bytes \<Rightarrow> string \<Rightarrow> u64 \<Rightarrow> 'g \<times> (verdict \<times> string)"
  fold_cover :: "'g \<Rightarrow> bytes \<Rightarrow> bytes \<Rightarrow> string \<Rightarrow> u64 \<Rightarrow> 'g"

subsection \<open>The client\<close>

record ('e, 'k, 's) client =
  c_engine :: 'e
  c_sealer :: 'k
  c_store :: 's
  c_doc :: string
  c_replica :: string
  next_counter :: u64
  prev_hash :: bytes
  pull_frontier :: frontier
  held :: "dot btset"
  stalled :: "(dot, stall_cause) btmap"
  dropped :: "dot btset"
  quarantined :: nat
  log_len_at_snapshot :: u64
  snapshot_rejections :: nat
  rejected_snapshot_etag :: "etag option"

definition client_new :: "'e \<Rightarrow> 'k \<Rightarrow> 's \<Rightarrow> string \<Rightarrow> string \<Rightarrow> ('e, 'k, 's) client" where
  "client_new engine sealer store doc replica =
     \<lparr>c_engine = engine, c_sealer = sealer, c_store = store, c_doc = doc, c_replica = replica,
      next_counter = 0, prev_hash = [], pull_frontier = [], held = [], stalled = [],
      dropped = [], quarantined = 0, log_len_at_snapshot = 0, snapshot_rejections = 0,
      rejected_snapshot_etag = None\<rparr>"

definition frontier_at :: "frontier \<Rightarrow> string \<Rightarrow> u64" where
  "frontier_at f r = (case bt_get f r of None \<Rightarrow> 0 | Some n \<Rightarrow> n)"

definition quarantine :: "('e, 'k, 's) client \<Rightarrow> ('e, 'k, 's) client" where
  "quarantine c = c\<lparr>quarantined := Suc (quarantined c)\<rparr>"

definition stall :: "dot \<Rightarrow> stall_cause \<Rightarrow> ('e, 'k, 's) client \<Rightarrow> ('e, 'k, 's) client" where
  "stall d w c = c\<lparr>stalled := bt_insert d w (stalled c)\<rparr>"

definition unstall :: "dot \<Rightarrow> ('e, 'k, 's) client \<Rightarrow> ('e, 'k, 's) client" where
  "unstall d c = c\<lparr>stalled := bt_remove d (stalled c)\<rparr>"

definition hold :: "dot \<Rightarrow> ('e, 'k, 's) client \<Rightarrow> ('e, 'k, 's) client" where
  "hold d c = c\<lparr>held := bs_insert d (held c)\<rparr>"

definition unhold :: "dot \<Rightarrow> ('e, 'k, 's) client \<Rightarrow> ('e, 'k, 's) client" where
  "unhold d c = c\<lparr>held := bs_remove d (held c)\<rparr>"

definition drop_dot :: "dot \<Rightarrow> ('e, 'k, 's) client \<Rightarrow> ('e, 'k, 's) client" where
  "drop_dot d c = c\<lparr>dropped := bs_insert d (dropped c)\<rparr>"

lemmas client_steps = quarantine_def stall_def unstall_def hold_def unhold_def drop_dot_def

definition read_log ::
  "('e, 'x, 'k, 's) deps \<Rightarrow> ('e, 'k, 's) client \<Rightarrow> string \<Rightarrow> u64 \<Rightarrow>
     sync_error + (bytes \<times> etag) option" where
  "read_log D c replica counter =
     (case blob_get (st D) (c_store c) (log_key (c_doc c) replica counter) of
        Inr v \<Rightarrow> Inr v
      | Inl e \<Rightarrow> if e = Gone then Inr None else Inl (Blob e))"

definition try_open_delta ::
  "('e, 'x, 'k, 's) deps \<Rightarrow> ('e, 'k, 's) client \<Rightarrow> bytes \<Rightarrow> sync_error + bytes" where
  "try_open_delta D c envelope =
     (case se_open (se D) (c_sealer c) EDelta envelope of
        Inl e \<Rightarrow> Inl (SealerErr e) | Inr pt \<Rightarrow> Inr pt)"

definition try_open_cover ::
  "('e, 'x, 'k, 's) deps \<Rightarrow> ('e, 'k, 's) client \<Rightarrow> bytes \<Rightarrow> sync_error + bytes" where
  "try_open_cover D c envelope =
     (case se_open (se D) (c_sealer c) ECover envelope of
        Inl e \<Rightarrow> Inl (SealerErr e) | Inr pt \<Rightarrow> Inr pt)"

subsection \<open>Writing\<close>

text \<open>The chain hash is taken out of the client (\<open>std::mem::take\<close>) before the seal, so
  a failing seal or object write leaves it empty.\<close>

definition append_entry ::
  "('e, 'x, 'k, 's) deps \<Rightarrow> ('e, 'k, 's) client \<Rightarrow> entry_kind \<Rightarrow> bytes \<Rightarrow>
     (sync_error + unit) \<times> ('e, 'k, 's) client" where
  "append_entry D c kind plaintext =
     (let ctx = \<lparr>sc_kind = kind, sc_replica_counter = next_counter c,
                 sc_prev_ciphertext_hash = prev_hash c, sc_covers_through_seq = 0\<rparr>;
          (k1, sealed) = se_seal (se D) (c_sealer c) ctx plaintext;
          c1 = c\<lparr>prev_hash := [], c_sealer := k1\<rparr>
      in case sealed of
           Inl e \<Rightarrow> (Inl (SealerErr e), c1)
         | Inr out \<Rightarrow>
             let key = log_key (c_doc c1) (c_replica c1) (next_counter c1);
                 (s2, put) = blob_put (st D) (c_store c1) key (sl_envelope out) IfAbsent;
                 c2 = c1\<lparr>c_store := s2\<rparr>
             in if (case put of Inr _ \<Rightarrow> False | Inl e \<Rightarrow> e \<noteq> PreconditionFailed)
                then (case put of Inl e \<Rightarrow> (Inl (Blob e), c2) | Inr _ \<Rightarrow> (Inr (), c2))
                else
                  let c3 = c2\<lparr>next_counter := next_counter c2 + 1,
                              prev_hash := sl_ciphertext_hash out\<rparr>;
                      (s4, head) = blob_put (st D) (c_store c3) (head_key (c_doc c3) (c_replica c3))
                                     (encode_count (next_counter c3)) Any;
                      c4 = c3\<lparr>c_store := s4\<rparr>
                  in case head of
                       Inl e \<Rightarrow> (Inl (Blob e), c4)
                     | Inr _ \<Rightarrow>
                         (Inr (), c4\<lparr>pull_frontier :=
                            bt_insert (c_replica c4)
                              (max (frontier_at (pull_frontier c4) (c_replica c4)) (next_counter c4))
                              (pull_frontier c4)\<rparr>))"

definition push_delta ::
  "('e, 'x, 'k, 's) deps \<Rightarrow> ('e, 'k, 's) client \<Rightarrow> bytes \<Rightarrow>
     (sync_error + unit) \<times> ('e, 'k, 's) client" where
  "push_delta D c plaintext =
     (if plaintext = [] then (Inr (), c) else append_entry D c EDelta plaintext)"

definition push_cover ::
  "('e, 'x, 'k, 's) deps \<Rightarrow> ('e, 'k, 's) client \<Rightarrow> bytes \<Rightarrow>
     (sync_error + unit) \<times> ('e, 'k, 's) client" where
  "push_cover D c plaintext = append_entry D c ECover plaintext"

definition client_apply ::
  "('e, 'x, 'k, 's) deps \<Rightarrow> ('e, 'k, 's) client \<Rightarrow> 'x \<Rightarrow>
     (sync_error + unit) \<times> ('e, 'k, 's) client" where
  "client_apply D c edit =
     (let (e1, delta) = en_apply_local (en D) (c_engine c) edit
      in push_delta D (c\<lparr>c_engine := e1\<rparr>) delta)"

subsection \<open>Pulling on an unverified channel\<close>

definition list_replicas ::
  "('e, 'x, 'k, 's) deps \<Rightarrow> ('e, 'k, 's) client \<Rightarrow> sync_error + string list" where
  "list_replicas D c =
     (let hp = heads_prefix (c_doc c)
      in case blob_list (st D) (c_store c) hp of
           Inl e \<Rightarrow> Inl (Blob e)
         | Inr ks \<Rightarrow> Inr (sort (List.map_filter (\<lambda>(k, _). parse_head_key hp k) ks)))"

definition merge_delta ::
  "('e, 'x, 'k, 's) deps \<Rightarrow> ('e, 'k, 's) client \<Rightarrow> dot \<Rightarrow> bytes \<Rightarrow> string \<Rightarrow>
     nat \<times> ('e, 'k, 's) client" where
  "merge_delta D c d pt committer =
     (let (e1, r) = en_merge (en D) (c_engine c) pt committer;
          c1 = c\<lparr>c_engine := e1\<rparr>
      in case r of
           Inr _ \<Rightarrow> (1, c1)
         | Inl _ \<Rightarrow> (0, stall d MergeFailed (quarantine c1)))"

definition pull_one ::
  "('e, 'x, 'k, 's) deps \<Rightarrow> ('e, 'k, 's) client \<Rightarrow> dot \<Rightarrow> bytes \<Rightarrow> string \<Rightarrow>
     nat \<times> ('e, 'k, 's) client" where
  "pull_one D c d envelope committer =
     (case se_open (se D) (c_sealer c) EDelta envelope of
        Inr pt \<Rightarrow> merge_delta D c d pt committer
      | Inl _ \<Rightarrow> (0, stall d Unopenable (quarantine c)))"

function pull_gap ::
  "('e, 'x, 'k, 's) deps \<Rightarrow> string \<Rightarrow> string \<Rightarrow> u64 \<Rightarrow> u64 \<Rightarrow> nat \<Rightarrow> ('e, 'k, 's) client \<Rightarrow>
     (sync_error + u64 \<times> nat) \<times> ('e, 'k, 's) client" where
  "pull_gap D committer r head n merged c =
     (if \<not> n < head then (Inr (n, merged), c)
      else case read_log D c r n of
             Inl e \<Rightarrow> (Inl e, c)
           | Inr None \<Rightarrow> (Inr (n, merged), c)
           | Inr (Some (envelope, _)) \<Rightarrow>
               (case pull_one D c (r, n) envelope committer of
                  (m, c1) \<Rightarrow> pull_gap D committer r head (n + 1) (merged + m) c1))"
  by pat_completeness auto
termination
  by (relation "measure (\<lambda>(D, committer, r, head, n, merged, c). unat head - unat n)")
    (auto simp: unat_diff_Suc_less)

fun pull_replicas ::
  "('e, 'x, 'k, 's) deps \<Rightarrow> string \<Rightarrow> string list \<Rightarrow> nat \<Rightarrow> ('e, 'k, 's) client \<Rightarrow>
     (sync_error + nat) \<times> ('e, 'k, 's) client" where
  "pull_replicas D committer [] merged c = (Inr merged, c)"
| "pull_replicas D committer (r # rs) merged c =
     (case blob_get (st D) (c_store c) (head_key (c_doc c) r) of
        Inl e \<Rightarrow> (Inl (Blob e), c)
      | Inr None \<Rightarrow> pull_replicas D committer rs merged c
      | Inr (Some (hb, _)) \<Rightarrow>
          (case decode_count hb of
             None \<Rightarrow> pull_replicas D committer rs merged (quarantine c)
           | Some head \<Rightarrow>
               (case pull_gap D committer r head (frontier_at (pull_frontier c) r) merged c of
                  (Inl e, c1) \<Rightarrow> (Inl e, c1)
                | (Inr (n, m), c1) \<Rightarrow>
                    pull_replicas D committer rs m
                      (c1\<lparr>pull_frontier := bt_insert r n (pull_frontier c1)\<rparr>))))"

definition pull ::
  "('e, 'x, 'k, 's) deps \<Rightarrow> ('e, 'k, 's) client \<Rightarrow> (sync_error + nat) \<times> ('e, 'k, 's) client" where
  "pull D c =
     (case list_replicas D c of
        Inl e \<Rightarrow> (Inl e, c)
      | Inr replicas \<Rightarrow> pull_replicas D (en_author (en D) (c_engine c)) replicas 0 c)"

declare pull_gap.simps [simp del]

subsection \<open>Pulling on a verified channel\<close>

text \<open>Phase 0: retry one held dot.\<close>

definition drain_one ::
  "('e, 'x, 'k, 's) deps \<Rightarrow> 'g gate_ops \<Rightarrow> dot \<Rightarrow> nat \<Rightarrow> ('e, 'k, 's) client \<Rightarrow> 'g \<Rightarrow>
     (sync_error + nat) \<times> ('e, 'k, 's) client \<times> 'g" where
  "drain_one D G d merged c g =
     (case read_log D c (fst d) (snd d) of
        Inl e \<Rightarrow> (Inl e, c, g)
      | Inr None \<Rightarrow> (Inr merged, stall d Vanished (unhold d c), g)
      | Inr (Some (env, _)) \<Rightarrow>
          (case se_open (se D) (c_sealer c) EDelta env of
             Inl _ \<Rightarrow> (Inr merged, stall d Unopenable (unhold d (quarantine c)), g)
           | Inr pt \<Rightarrow>
               (case classify G g env pt (fst d) (snd d) of
                  (g1, v, committer) \<Rightarrow>
                    (case v of
                       Accept \<Rightarrow>
                         (let (m, c1) = merge_delta D (unhold d c) d pt committer
                          in (Inr (merged + m), c1, g1))
                     | Reject \<Rightarrow> (Inr merged, stall d Rejected (unhold d c), g1)
                     | Drop \<Rightarrow> (Inr merged, drop_dot d (unhold d c), g1)
                     | Hold \<Rightarrow> (Inr merged, c, g1)))))"

fun drain_held ::
  "('e, 'x, 'k, 's) deps \<Rightarrow> 'g gate_ops \<Rightarrow> dot list \<Rightarrow> nat \<Rightarrow> ('e, 'k, 's) client \<Rightarrow> 'g \<Rightarrow>
     (sync_error + nat) \<times> ('e, 'k, 's) client \<times> 'g" where
  "drain_held D G [] merged c g = (Inr merged, c, g)"
| "drain_held D G (d # ds) merged c g =
     (case drain_one D G d merged c g of
        (Inl e, c1, g1) \<Rightarrow> (Inl e, c1, g1)
      | (Inr m, c1, g1) \<Rightarrow> drain_held D G ds m c1 g1)"

text \<open>Phase 1: fold the covers of a gap and buffer its deltas.\<close>

type_synonym buffered = "string \<times> u64 \<times> bytes \<times> bytes"

definition scan_one ::
  "('e, 'x, 'k, 's) deps \<Rightarrow> 'g gate_ops \<Rightarrow> string \<Rightarrow> u64 \<Rightarrow> bytes \<Rightarrow> ('e, 'k, 's) client \<Rightarrow> 'g \<Rightarrow>
     buffered list \<times> ('e, 'k, 's) client \<times> 'g" where
  "scan_one D G r n env c g =
     (case se_open (se D) (c_sealer c) ECover env of
        Inr cover_body \<Rightarrow> ([], c, fold_cover G g env cover_body r n)
      | Inl _ \<Rightarrow>
          (case se_open (se D) (c_sealer c) EDelta env of
             Inr pt \<Rightarrow> ([(r, n, env, pt)], c, g)
           | Inl _ \<Rightarrow> ([], stall (r, n) Unopenable (quarantine c), g)))"

function scan_gap ::
  "('e, 'x, 'k, 's) deps \<Rightarrow> 'g gate_ops \<Rightarrow> string \<Rightarrow> u64 \<Rightarrow> u64 \<Rightarrow> buffered list \<Rightarrow>
     ('e, 'k, 's) client \<Rightarrow> 'g \<Rightarrow>
     (sync_error + u64 \<times> buffered list) \<times> ('e, 'k, 's) client \<times> 'g" where
  "scan_gap D G r head n ds c g =
     (if \<not> n < head then (Inr (n, ds), c, g)
      else case read_log D c r n of
             Inl e \<Rightarrow> (Inl e, c, g)
           | Inr None \<Rightarrow> (Inr (n, ds), c, g)
           | Inr (Some (env, _)) \<Rightarrow>
               (case scan_one D G r n env c g of
                  (new, c1, g1) \<Rightarrow> scan_gap D G r head (n + 1) (ds @ new) c1 g1))"
  by pat_completeness auto
termination
  by (relation "measure (\<lambda>(D, G, r, head, n, ds, c, g). unat head - unat n)")
    (auto simp: unat_diff_Suc_less)

declare scan_gap.simps [simp del]

fun scan_replicas ::
  "('e, 'x, 'k, 's) deps \<Rightarrow> 'g gate_ops \<Rightarrow> string list \<Rightarrow> buffered list \<Rightarrow>
     ('e, 'k, 's) client \<Rightarrow> 'g \<Rightarrow>
     (sync_error + buffered list) \<times> ('e, 'k, 's) client \<times> 'g" where
  "scan_replicas D G [] ds c g = (Inr ds, c, g)"
| "scan_replicas D G (r # rs) ds c g =
     (case blob_get (st D) (c_store c) (head_key (c_doc c) r) of
        Inl e \<Rightarrow> (Inl (Blob e), c, g)
      | Inr None \<Rightarrow> scan_replicas D G rs ds c g
      | Inr (Some (hb, _)) \<Rightarrow>
          (case decode_count hb of
             None \<Rightarrow> scan_replicas D G rs ds (quarantine c) g
           | Some head \<Rightarrow>
               (case scan_gap D G r head (frontier_at (pull_frontier c) r) ds c g of
                  (Inl e, c1, g1) \<Rightarrow> (Inl e, c1, g1)
                | (Inr (n, ds1), c1, g1) \<Rightarrow>
                    scan_replicas D G rs ds1
                      (c1\<lparr>pull_frontier := bt_insert r n (pull_frontier c1)\<rparr>) g1)))"

text \<open>Phase 2: classify each buffered delta.\<close>

definition classify_one ::
  "('e, 'x, 'k, 's) deps \<Rightarrow> 'g gate_ops \<Rightarrow> buffered \<Rightarrow> nat \<Rightarrow> ('e, 'k, 's) client \<Rightarrow> 'g \<Rightarrow>
     nat \<times> ('e, 'k, 's) client \<times> 'g" where
  "classify_one D G b merged c g =
     (case b of (r, n, env, pt) \<Rightarrow>
       (case classify G g env pt r n of
          (g1, v, committer) \<Rightarrow>
            (case v of
               Accept \<Rightarrow> (let (m, c1) = merge_delta D c (r, n) pt committer in (merged + m, c1, g1))
             | Hold \<Rightarrow> (merged, hold (r, n) c, g1)
             | Reject \<Rightarrow> (merged, stall (r, n) Rejected c, g1)
             | Drop \<Rightarrow> (merged, drop_dot (r, n) c, g1))))"

fun classify_all ::
  "('e, 'x, 'k, 's) deps \<Rightarrow> 'g gate_ops \<Rightarrow> buffered list \<Rightarrow> nat \<Rightarrow> ('e, 'k, 's) client \<Rightarrow> 'g \<Rightarrow>
     nat \<times> ('e, 'k, 's) client \<times> 'g" where
  "classify_all D G [] merged c g = (merged, c, g)"
| "classify_all D G (b # bs) merged c g =
     (case classify_one D G b merged c g of (m, c1, g1) \<Rightarrow> classify_all D G bs m c1 g1)"

definition pull_verified ::
  "('e, 'x, 'k, 's) deps \<Rightarrow> 'g gate_ops \<Rightarrow> ('e, 'k, 's) client \<Rightarrow> 'g \<Rightarrow>
     (sync_error + nat) \<times> ('e, 'k, 's) client \<times> 'g" where
  "pull_verified D G c g =
     (case drain_held D G (held c) 0 c g of
        (Inl e, c1, g1) \<Rightarrow> (Inl e, c1, g1)
      | (Inr merged, c1, g1) \<Rightarrow>
          (case list_replicas D c1 of
             Inl e \<Rightarrow> (Inl e, c1, g1)
           | Inr replicas \<Rightarrow>
               (case scan_replicas D G replicas [] c1 g1 of
                  (Inl e, c2, g2) \<Rightarrow> (Inl e, c2, g2)
                | (Inr deltas, c2, g2) \<Rightarrow>
                    (case classify_all D G deltas merged c2 g2 of
                       (m, c3, g3) \<Rightarrow> (Inr m, c3, g3)))))"

subsection \<open>Coverage\<close>

definition blockers :: "('e, 'k, 's) client \<Rightarrow> dot list" where
  "blockers c = held c @ map fst (stalled c)"

definition clamp_dot :: "frontier \<Rightarrow> dot \<Rightarrow> frontier" where
  "clamp_dot f d =
     (case bt_get f (fst d) of None \<Rightarrow> f | Some n \<Rightarrow> bt_insert (fst d) (min n (snd d)) f)"

definition subsumed_frontier :: "('e, 'k, 's) client \<Rightarrow> frontier" where
  "subsumed_frontier c = foldl clamp_dot (pull_frontier c) (blockers c)"

definition snapshot_covered_frontier ::
  "('e, 'x, 'k, 's) deps \<Rightarrow> ('e, 'k, 's) client \<Rightarrow> sync_error + frontier option" where
  "snapshot_covered_frontier D c =
     (case blob_get (st D) (c_store c) (snapshot_key (c_doc c)) of
        Inl e \<Rightarrow> Inl (Blob e)
      | Inr None \<Rightarrow> Inr None
      | Inr (Some (env, tag)) \<Rightarrow>
          if rejected_snapshot_etag c = Some tag then Inr None
          else (case se_open (se D) (c_sealer c) ESnapshot env of
                  Inl e \<Rightarrow> Inl (SealerErr e)
                | Inr body \<Rightarrow> Inr (map_option fst (decode_frontier body))))"

definition exceeds :: "frontier \<Rightarrow> frontier \<Rightarrow> bool" where
  "exceeds covered f \<longleftrightarrow> list_ex (\<lambda>(r, n). frontier_at f r < n) covered"

definition needs_snapshot_adoption ::
  "('e, 'x, 'k, 's) deps \<Rightarrow> ('e, 'k, 's) client \<Rightarrow> sync_error + bool" where
  "needs_snapshot_adoption D c =
     (case snapshot_covered_frontier D c of
        Inl e \<Rightarrow> Inl e
      | Inr None \<Rightarrow> Inr False
      | Inr (Some covered) \<Rightarrow>
          Inr (exceeds covered (subsumed_frontier c) \<or>
               list_ex (\<lambda>(r, n). n < frontier_at covered r) (dropped c)))"

definition held_count :: "('e, 'k, 's) client \<Rightarrow> nat" where
  "held_count c = length (held c)"

definition stalled_count :: "('e, 'k, 's) client \<Rightarrow> nat" where
  "stalled_count c = length (stalled c)"

definition dropped_count :: "('e, 'k, 's) client \<Rightarrow> nat" where
  "dropped_count c = length (dropped c)"

definition needs_fetch :: "('e, 'k, 's) client \<Rightarrow> string \<Rightarrow> bool" where
  "needs_fetch c key =
     (case parse_log_key (c_doc c) key of
        Some (r, n) \<Rightarrow> frontier_at (pull_frontier c) r \<le> n
      | None \<Rightarrow> True)"

definition is_log_key :: "('e, 'k, 's) client \<Rightarrow> string \<Rightarrow> bool" where
  "is_log_key c key \<longleftrightarrow> parse_log_key (c_doc c) key \<noteq> None"

subsection \<open>Dropped dots\<close>

definition read_dropped ::
  "('e, 'x, 'k, 's) deps \<Rightarrow> ('e, 'k, 's) client \<Rightarrow> string \<Rightarrow> u64 \<Rightarrow> sync_error + bytes option" where
  "read_dropped D c r n =
     (if (r, n) \<notin> set (dropped c) then Inr None
      else case read_log D c r n of
             Inl e \<Rightarrow> Inl e
           | Inr v \<Rightarrow> Inr (map_option fst v))"

definition undrop :: "dot \<Rightarrow> ('e, 'k, 's) client \<Rightarrow> ('e, 'k, 's) client" where
  "undrop d c = c\<lparr>dropped := bs_remove d (dropped c)\<rparr>"

definition readmit_dropped ::
  "('e, 'x, 'k, 's) deps \<Rightarrow> ('e, 'k, 's) client \<Rightarrow> string \<Rightarrow> u64 \<Rightarrow>
     (bytes \<Rightarrow> bytes \<Rightarrow> string option) \<Rightarrow> (sync_error + bool) \<times> ('e, 'k, 's) client" where
  "readmit_dropped D c r n gate =
     (if (r, n) \<notin> set (dropped c) then (Inr False, c)
      else case read_log D c r n of
             Inl e \<Rightarrow> (Inl e, c)
           | Inr None \<Rightarrow> (Inr False, undrop (r, n) c)
           | Inr (Some (env, _)) \<Rightarrow>
               (case se_open (se D) (c_sealer c) EDelta env of
                  Inl _ \<Rightarrow> (Inr False, c)
                | Inr pt \<Rightarrow>
                    (case gate env pt of
                       None \<Rightarrow> (Inr False, c)
                     | Some committer \<Rightarrow>
                         (case en_merge (en D) (c_engine c) pt committer of
                            (e1, Inr _) \<Rightarrow> (Inr True, undrop (r, n) (c\<lparr>c_engine := e1\<rparr>))
                          | (e1, Inl _) \<Rightarrow> (Inr False, c\<lparr>c_engine := e1\<rparr>)))))"

definition forget_dropped ::
  "('e, 'k, 's) client \<Rightarrow> string \<Rightarrow> u64 \<Rightarrow> bool \<times> ('e, 'k, 's) client" where
  "forget_dropped c r n = ((r, n) \<in> set (dropped c), undrop (r, n) c)"

subsection \<open>Compaction\<close>

definition sat_u64 :: "nat \<Rightarrow> u64" where
  "sat_u64 n = (if n < 2 ^ 64 then of_nat n else - 1)"

definition saturating_sub :: "u64 \<Rightarrow> u64 \<Rightarrow> u64" where
  "saturating_sub a b = (if a < b then 0 else a - b)"

definition log_object_count ::
  "('e, 'x, 'k, 's) deps \<Rightarrow> ('e, 'k, 's) client \<Rightarrow> sync_error + u64" where
  "log_object_count D c =
     (case blob_list (st D) (c_store c) (c_doc c @ ''/log/'') of
        Inl e \<Rightarrow> Inl (Blob e)
      | Inr ks \<Rightarrow> Inr (sat_u64 (length ks)))"

definition write_snapshot ::
  "('e, 'x, 'k, 's) deps \<Rightarrow> ('e, 'k, 's) client \<Rightarrow> frontier \<Rightarrow>
     (sync_error + unit) \<times> ('e, 'k, 's) client" where
  "write_snapshot D c subsumed =
     (let body = encode_frontier subsumed @ en_snapshot (en D) (c_engine c);
          ctx = \<lparr>sc_kind = ESnapshot, sc_replica_counter = next_counter c,
                 sc_prev_ciphertext_hash = prev_hash c, sc_covers_through_seq = 0\<rparr>;
          (k1, sealed) = se_seal (se D) (c_sealer c) ctx body;
          c1 = c\<lparr>c_sealer := k1\<rparr>
      in case sealed of
           Inl e \<Rightarrow> (Inl (SealerErr e), c1)
         | Inr out \<Rightarrow>
             let (s2, put) = blob_put (st D) (c_store c1) (snapshot_key (c_doc c1))
                               (sl_envelope out) Any;
                 c2 = c1\<lparr>c_store := s2\<rparr>
             in case put of
                  Inl e \<Rightarrow> (Inl (Blob e), c2)
                | Inr _ \<Rightarrow>
                    (case log_object_count D c2 of
                       Inl e \<Rightarrow> (Inl e, c2)
                     | Inr n \<Rightarrow> (Inr (), c2\<lparr>log_len_at_snapshot := n\<rparr>)))"

definition compact ::
  "('e, 'x, 'k, 's) deps \<Rightarrow> ('e, 'k, 's) client \<Rightarrow> (sync_error + unit) \<times> ('e, 'k, 's) client" where
  "compact D c =
     (let subsumed = subsumed_frontier c
      in case snapshot_covered_frontier D c of
           Inl e \<Rightarrow> (Inl e, c)
         | Inr (Some existing) \<Rightarrow>
             if exceeds existing subsumed then (Inr (), c) else write_snapshot D c subsumed
         | Inr None \<Rightarrow> write_snapshot D c subsumed)"

definition maybe_compact ::
  "('e, 'x, 'k, 's) deps \<Rightarrow> snapshot_policy \<Rightarrow> ('e, 'k, 's) client \<Rightarrow>
     (sync_error + bool) \<times> ('e, 'k, 's) client" where
  "maybe_compact D policy c =
     (case log_object_count D c of
        Inl e \<Rightarrow> (Inl e, c)
      | Inr tot \<Rightarrow>
          (case blob_get (st D) (c_store c) (snapshot_key (c_doc c)) of
             Inl e \<Rightarrow> (Inl (Blob e), c)
           | Inr snap \<Rightarrow>
               let state = \<lparr>updates_since_snapshot = saturating_sub tot (log_len_at_snapshot c),
                            has_snapshot = (snap \<noteq> None)\<rparr>;
                   subsumed = subsumed_frontier c;
                   go = (case compact D c of
                           (Inl e, c1) \<Rightarrow> (Inl e, c1) | (Inr _, c1) \<Rightarrow> (Inr True, c1))
               in if \<not> policy state then (Inr False, c)
                  else (case snapshot_covered_frontier D c of
                          Inl e \<Rightarrow> (Inl e, c)
                        | Inr (Some covered) \<Rightarrow>
                            if list_all (\<lambda>(r, n). n \<le> frontier_at covered r) subsumed
                            then (Inr False, c\<lparr>log_len_at_snapshot := tot\<rparr>)
                            else go
                        | Inr None \<Rightarrow> go)))"

subsection \<open>Adopting a snapshot\<close>

text \<open>The run of counters, from \<open>n\<close> up to \<open>cap\<close>, whose log objects are absent.\<close>

function absent_run ::
  "('e, 'x, 'k, 's) deps \<Rightarrow> ('e, 'k, 's) client \<Rightarrow> string \<Rightarrow> u64 \<Rightarrow> u64 \<Rightarrow> u64" where
  "absent_run D c r cap n =
     (if n < cap \<and>
         (case blob_get (st D) (c_store c) (log_key (c_doc c) r n) of
            Inr v \<Rightarrow> v = None | Inl e \<Rightarrow> e = Gone)
      then absent_run D c r cap (n + 1) else n)"
  by pat_completeness auto
termination
  by (relation "measure (\<lambda>(D, c, r, cap, n). unat cap - unat n)")
    (auto simp: unat_diff_Suc_less)

declare absent_run.simps [simp del]

text \<open>\<open>.and_then(decode_count).unwrap_or(0)\<close> on a head object.\<close>

definition observed_head :: "(bytes \<times> etag) option \<Rightarrow> u64" where
  "observed_head hv =
     (case hv of None \<Rightarrow> 0
      | Some (hb, _) \<Rightarrow> (case decode_count hb of None \<Rightarrow> 0 | Some h \<Rightarrow> h))"

text \<open>The three \<open>retain\<close> calls.\<close>

definition purge_covered ::
  "string \<Rightarrow> u64 \<Rightarrow> u64 \<Rightarrow> ('e, 'k, 's) client \<Rightarrow> ('e, 'k, 's) client" where
  "purge_covered r n cap c =
     c\<lparr>held := filter (\<lambda>(r', n'). \<not> (r' = r \<and> n' < n)) (held c),
       stalled := bt_retain (\<lambda>(r', n') _. \<not> (r' = r \<and> n' < n)) (stalled c),
       dropped := filter (\<lambda>(r', n'). \<not> (r' = r \<and> n' < cap)) (dropped c)\<rparr>"

definition adopt_replica ::
  "('e, 'x, 'k, 's) deps \<Rightarrow> ('e, 'k, 's) client \<Rightarrow> string \<Rightarrow> u64 \<Rightarrow>
     (sync_error + unit) \<times> ('e, 'k, 's) client" where
  "adopt_replica D c r claimed =
     (case blob_get (st D) (c_store c) (head_key (c_doc c) r) of
        Inl e \<Rightarrow> (Inl (Blob e), c)
      | Inr hv \<Rightarrow>
          let cap = min claimed (observed_head hv);
              start = frontier_at (pull_frontier c) r;
              n = absent_run D c r cap start;
              c1 = (if start < n then c\<lparr>pull_frontier := bt_insert r n (pull_frontier c)\<rparr> else c)
          in (Inr (), purge_covered r n cap c1))"

fun adopt_replicas ::
  "('e, 'x, 'k, 's) deps \<Rightarrow> (string \<times> u64) list \<Rightarrow> ('e, 'k, 's) client \<Rightarrow>
     (sync_error + unit) \<times> ('e, 'k, 's) client" where
  "adopt_replicas D [] c = (Inr (), c)"
| "adopt_replicas D ((r, claimed) # f) c =
     (case adopt_replica D c r claimed of
        (Inl e, c1) \<Rightarrow> (Inl e, c1)
      | (Inr _, c1) \<Rightarrow> adopt_replicas D f c1)"

definition adopt_snapshot_baseline ::
  "('e, 'x, 'k, 's) deps \<Rightarrow> (bytes \<Rightarrow> bytes \<Rightarrow> verdict) \<Rightarrow> ('e, 'k, 's) client \<Rightarrow>
     (sync_error + unit) \<times> ('e, 'k, 's) client" where
  "adopt_snapshot_baseline D classify_snapshot c =
     (case blob_get (st D) (c_store c) (snapshot_key (c_doc c)) of
        Inl e \<Rightarrow> (Inl (Blob e), c)
      | Inr None \<Rightarrow> (Inr (), c)
      | Inr (Some (env, tag)) \<Rightarrow>
          if rejected_snapshot_etag c = Some tag then (Inr (), c)
          else (case se_open (se D) (c_sealer c) ESnapshot env of
                  Inl e \<Rightarrow> (Inl (SealerErr e), c)
                | Inr body \<Rightarrow>
                    if classify_snapshot env body \<noteq> Accept
                    then (Inr (), c\<lparr>snapshot_rejections := Suc (snapshot_rejections c),
                                    rejected_snapshot_etag := Some tag\<rparr>)
                    else (case decode_frontier body of
                            None \<Rightarrow> (Inr (), c)
                          | Some (covered, engine_bytes) \<Rightarrow>
                              (case en_merge_snapshot (en D) (c_engine c) engine_bytes of
                                 (e1, Inl e) \<Rightarrow> (Inl (EngineErr e), c\<lparr>c_engine := e1\<rparr>)
                               | (e1, Inr _) \<Rightarrow> adopt_replicas D covered (c\<lparr>c_engine := e1\<rparr>)))))"

definition bootstrap ::
  "('e, 'x, 'k, 's) deps \<Rightarrow> ('e, 'k, 's) client \<Rightarrow> (sync_error + unit) \<times> ('e, 'k, 's) client" where
  "bootstrap D c =
     (case adopt_snapshot_baseline D (\<lambda>env body. Accept) c of
        (Inl e, c1) \<Rightarrow> (Inl e, c1)
      | (Inr _, c1) \<Rightarrow>
          (case pull D c1 of (Inl e, c2) \<Rightarrow> (Inl e, c2) | (Inr _, c2) \<Rightarrow> (Inr (), c2)))"

definition bootstrap_verified ::
  "('e, 'x, 'k, 's) deps \<Rightarrow> 'g gate_ops \<Rightarrow> (bytes \<Rightarrow> bytes \<Rightarrow> verdict) \<Rightarrow>
     ('e, 'k, 's) client \<Rightarrow> 'g \<Rightarrow> (sync_error + unit) \<times> ('e, 'k, 's) client \<times> 'g" where
  "bootstrap_verified D G classify_snapshot c g =
     (case adopt_snapshot_baseline D classify_snapshot c of
        (Inl e, c1) \<Rightarrow> (Inl e, c1, g)
      | (Inr _, c1) \<Rightarrow>
          (case pull_verified D G c1 g of
             (Inl e, c2, g2) \<Rightarrow> (Inl e, c2, g2)
           | (Inr _, c2, g2) \<Rightarrow> (Inr (), c2, g2)))"

subsection \<open>Retrying stalled dots\<close>

definition retry_one ::
  "('e, 'x, 'k, 's) deps \<Rightarrow> 'g gate_ops \<Rightarrow> dot \<Rightarrow> nat \<Rightarrow> ('e, 'k, 's) client \<Rightarrow> 'g \<Rightarrow>
     (sync_error + nat) \<times> ('e, 'k, 's) client \<times> 'g" where
  "retry_one D G d cleared c g =
     (case read_log D c (fst d) (snd d) of
        Inl e \<Rightarrow> (Inl e, c, g)
      | Inr None \<Rightarrow> (Inr cleared, c, g)
      | Inr (Some (env, _)) \<Rightarrow>
          (case se_open (se D) (c_sealer c) ECover env of
             Inr cover_body \<Rightarrow>
               (Inr (Suc cleared), unstall d c, fold_cover G g env cover_body (fst d) (snd d))
           | Inl _ \<Rightarrow>
               (case se_open (se D) (c_sealer c) EDelta env of
                  Inl _ \<Rightarrow> (Inr cleared, c, g)
                | Inr pt \<Rightarrow>
                    (case classify G g env pt (fst d) (snd d) of
                       (g1, v, committer) \<Rightarrow>
                         (case v of
                            Accept \<Rightarrow>
                              (case en_merge (en D) (c_engine c) pt committer of
                                 (e1, Inr _) \<Rightarrow>
                                   (Inr (Suc cleared), unstall d (c\<lparr>c_engine := e1\<rparr>), g1)
                               | (e1, Inl _) \<Rightarrow> (Inr cleared, c\<lparr>c_engine := e1\<rparr>, g1))
                          | Hold \<Rightarrow> (Inr (Suc cleared), hold d (unstall d c), g1)
                          | Drop \<Rightarrow> (Inr (Suc cleared), drop_dot d (unstall d c), g1)
                          | Reject \<Rightarrow> (Inr cleared, c, g1))))))"

fun retry_all ::
  "('e, 'x, 'k, 's) deps \<Rightarrow> 'g gate_ops \<Rightarrow> dot list \<Rightarrow> nat \<Rightarrow> ('e, 'k, 's) client \<Rightarrow> 'g \<Rightarrow>
     (sync_error + nat) \<times> ('e, 'k, 's) client \<times> 'g" where
  "retry_all D G [] cleared c g = (Inr cleared, c, g)"
| "retry_all D G (d # ds) cleared c g =
     (case retry_one D G d cleared c g of
        (Inl e, c1, g1) \<Rightarrow> (Inl e, c1, g1)
      | (Inr n, c1, g1) \<Rightarrow> retry_all D G ds n c1 g1)"

definition retry_stalled ::
  "('e, 'x, 'k, 's) deps \<Rightarrow> 'g gate_ops \<Rightarrow> ('e, 'k, 's) client \<Rightarrow> 'g \<Rightarrow>
     (sync_error + nat) \<times> ('e, 'k, 's) client \<times> 'g" where
  "retry_stalled D G c g = retry_all D G (bt_keys (stalled c)) 0 c g"

end
