(* ===== verification/Docsync_Coverage.thy ===== *)
theory Docsync_Coverage
  imports Docsync
begin

text \<open>
  What the sync client may claim to have folded.  Every dot below the pull frontier has
  to be settled: held, stalled, dropped, a cover, or absorbed by the merge engine.  Then the
  subsumed frontier, which a compactor publishes and garbage collection deletes below, spans
  only dots that are absorbed, covers or deliberately dropped.  The merge engine's side of
  the bargain is the locale \<open>merge_engine\<close>; the log objects are immutable, so one function
  \<open>L\<close> from dots to envelopes describes every object that can be read.
\<close>

subsection \<open>The merge engine\<close>

locale merge_engine =
  fixes ops :: "('e, 'x) engine_ops"
    and absorbed :: "'e \<Rightarrow> bytes \<Rightarrow> bool"
  assumes merge_absorbs: "en_merge ops e pt cm = (e', Inr u) \<Longrightarrow> absorbed e' pt"
    and merge_keeps: "en_merge ops e pt cm = (e', q) \<Longrightarrow> absorbed e x \<Longrightarrow> absorbed e' x"
    and snapshot_keeps: "en_merge_snapshot ops e b = (e', q) \<Longrightarrow> absorbed e x \<Longrightarrow> absorbed e' x"

subsection \<open>Frontiers\<close>

lemma frontier_at_insert [simp]:
  "frontier_at (bt_insert r n f) r' = (if r' = r then n else frontier_at f r')"
  by (simp add: frontier_at_def)

lemma frontier_at_clamp:
  "n < frontier_at (clamp_dot f d) r \<longleftrightarrow> n < frontier_at f r \<and> (fst d = r \<longrightarrow> n < snd d)"
  by (auto simp: clamp_dot_def frontier_at_def split: option.splits)

lemma frontier_at_clamps:
  "n < frontier_at (foldl clamp_dot f ds) r \<longleftrightarrow>
     n < frontier_at f r \<and> (\<forall>m. (r, m) \<in> set ds \<longrightarrow> n < m)"
  by (induction ds arbitrary: f) (auto simp: frontier_at_clamp)

lemma subsumed_iff:
  "n < frontier_at (subsumed_frontier c) r \<longleftrightarrow>
     n < frontier_at (pull_frontier c) r \<and> (\<forall>m. (r, m) \<in> set (blockers c) \<longrightarrow> n < m)"
  by (simp add: subsumed_frontier_def frontier_at_clamps)

lemma bt_wf_clamp: "bt_wf f \<Longrightarrow> bt_wf (clamp_dot f d)"
  by (auto simp: clamp_dot_def split: option.splits)

lemma bt_wf_clamps: "bt_wf f \<Longrightarrow> bt_wf (foldl clamp_dot f ds)"
  by (induction ds arbitrary: f) (auto simp: bt_wf_clamp)

lemma exceeds_iff:
  assumes "bt_wf covered"
  shows "exceeds covered f \<longleftrightarrow> (\<exists>r. frontier_at f r < frontier_at covered r)"
proof
  assume "exceeds covered f"
  then obtain r n where "(r, n) \<in> set covered" "frontier_at f r < n"
    by (auto simp: exceeds_def list_ex_iff)
  then have "frontier_at f r < frontier_at covered r"
    using assms by (simp add: bt_get_mem frontier_at_def [of covered])
  then show "\<exists>r. frontier_at f r < frontier_at covered r" ..
next
  assume "\<exists>r. frontier_at f r < frontier_at covered r"
  then obtain r where lt: "frontier_at f r < frontier_at covered r" ..
  then obtain n where n: "bt_get covered r = Some n"
    by (cases "bt_get covered r") (auto simp: frontier_at_def [of covered])
  then have "(r, n) \<in> set covered" "frontier_at f r < n"
    using assms lt by (simp_all add: bt_get_mem frontier_at_def [of covered])
  then show "exceeds covered f" by (auto simp: exceeds_def list_ex_iff)
qed

subsection \<open>Settled dots\<close>

definition settled ::
  "('e, 'x, 'k, 's) deps \<Rightarrow> (dot \<Rightarrow> bytes) \<Rightarrow> ('e \<Rightarrow> bytes \<Rightarrow> bool) \<Rightarrow> ('e, 'k, 's) client \<Rightarrow> dot \<Rightarrow> bool"
where
  "settled D L ab c d \<longleftrightarrow>
     d \<in> set (blockers c) \<or> d \<in> set (dropped c) \<or>
     (\<exists>b. se_open (se D) (c_sealer c) ECover (L d) = Inr b) \<or>
     (\<exists>pt. se_open (se D) (c_sealer c) EDelta (L d) = Inr pt \<and> ab (c_engine c) pt)"

definition accounted ::
  "('e, 'x, 'k, 's) deps \<Rightarrow> (dot \<Rightarrow> bytes) \<Rightarrow> ('e \<Rightarrow> bytes \<Rightarrow> bool) \<Rightarrow> ('e, 'k, 's) client \<Rightarrow> bool"
where
  "accounted D L ab c \<longleftrightarrow>
     (\<forall>r n. n < frontier_at (pull_frontier c) r \<longrightarrow> settled D L ab c (r, n))"

text \<open>The readable log objects are the ones \<open>L\<close> names.\<close>

definition log_view ::
  "('e, 'x, 'k, 's) deps \<Rightarrow> (dot \<Rightarrow> bytes) \<Rightarrow> ('e, 'k, 's) client \<Rightarrow> bool" where
  "log_view D L c \<longleftrightarrow>
     (\<forall>r n env tag. read_log D c r n = Inr (Some (env, tag)) \<longrightarrow> L (r, n) = env)"

text \<open>What no pull changes.\<close>

definition frame :: "('e, 'k, 's) client \<Rightarrow> ('e, 'k, 's) client \<Rightarrow> bool" where
  "frame c c' \<longleftrightarrow>
     c_store c' = c_store c \<and> c_sealer c' = c_sealer c \<and> c_doc c' = c_doc c \<and>
     c_replica c' = c_replica c \<and> next_counter c' = next_counter c \<and> prev_hash c' = prev_hash c"

lemma frame_refl [simp]: "frame c c"
  by (simp add: frame_def)

lemma frame_trans: "frame a b \<Longrightarrow> frame b c \<Longrightarrow> frame a c"
  by (simp add: frame_def)

lemma frame_steps [simp]:
  "frame c (quarantine c') = frame c c'" "frame c (stall d w c') = frame c c'"
  "frame c (unstall d c') = frame c c'" "frame c (hold d c') = frame c c'"
  "frame c (unhold d c') = frame c c'" "frame c (drop_dot d c') = frame c c'"
  "frame c (c'\<lparr>c_engine := e\<rparr>) = frame c c'" "frame c (c'\<lparr>pull_frontier := f\<rparr>) = frame c c'"
  by (simp_all add: frame_def client_steps)

lemma frame_from [simp]:
  "frame (unhold d c) c' = frame c c'" "frame (unstall d c) c' = frame c c'"
  "frame (quarantine c) c' = frame c c'"
  by (simp_all add: frame_def client_steps)

lemma frame_read_log: "frame c c' \<Longrightarrow> read_log D c' r n = read_log D c r n"
  by (simp add: frame_def read_log_def)

lemma frame_log_view: "frame c c' \<Longrightarrow> log_view D L c \<Longrightarrow> log_view D L c'"
  by (simp add: log_view_def frame_read_log)

lemma read_cases:
  fixes x :: "'a + ('b \<times> 'c) option"
  obtains (absent) "x = Inr None" | (failed) e where "x = Inl e"
    | (present) env tag where "x = Inr (Some (env, tag))"
  by (cases x; cases "projr x") auto

text \<open>One step of a pull: the frame is kept, the frontier is kept, and what was settled
  stays settled.\<close>

definition settling ::
  "('e, 'x, 'k, 's) deps \<Rightarrow> (dot \<Rightarrow> bytes) \<Rightarrow> ('e \<Rightarrow> bytes \<Rightarrow> bool) \<Rightarrow>
     ('e, 'k, 's) client \<Rightarrow> ('e, 'k, 's) client \<Rightarrow> bool" where
  "settling D L ab c c' \<longleftrightarrow>
     frame c c' \<and> pull_frontier c' = pull_frontier c \<and>
     (\<forall>d. settled D L ab c d \<longrightarrow> settled D L ab c' d)"

lemma settling_refl [simp]: "settling D L ab c c"
  by (simp add: settling_def)

lemma settling_trans: "settling D L ab a b \<Longrightarrow> settling D L ab b c \<Longrightarrow> settling D L ab a c"
  by (auto simp: settling_def intro: frame_trans)

lemma settling_frame: "settling D L ab c c' \<Longrightarrow> frame c c'"
  by (simp add: settling_def)

lemma blockers_steps [simp]:
  "set (blockers (quarantine c)) = set (blockers c)"
  "set (blockers (stall d w c)) = insert d (set (blockers c))"
  "set (blockers (hold d c)) = insert d (set (blockers c))"
  "set (blockers (drop_dot d c)) = set (blockers c)"
  "blockers (c\<lparr>c_engine := e\<rparr>) = blockers c"
  "blockers (c\<lparr>pull_frontier := f\<rparr>) = blockers c"
  by (auto simp: blockers_def client_steps)

lemma blockers_unhold: "set (blockers (unhold d c)) \<union> {d} = set (blockers c) \<union> {d}"
  by (auto simp: blockers_def client_steps)

lemma blockers_unstall: "set (blockers (unstall d c)) \<union> {d} = set (blockers c) \<union> {d}"
  by (auto simp: blockers_def client_steps bt_remove.simps)

lemma dropped_steps [simp]:
  "dropped (quarantine c) = dropped c" "dropped (stall d w c) = dropped c"
  "dropped (hold d c) = dropped c" "dropped (unhold d c) = dropped c"
  "dropped (unstall d c) = dropped c" "set (dropped (drop_dot d c)) = insert d (set (dropped c))"
  by (auto simp: client_steps)

lemma other_steps [simp]:
  "c_engine (quarantine c) = c_engine c" "c_engine (stall d w c) = c_engine c"
  "c_engine (hold d c) = c_engine c" "c_engine (unhold d c) = c_engine c"
  "c_engine (unstall d c) = c_engine c" "c_engine (drop_dot d c) = c_engine c"
  "c_sealer (quarantine c) = c_sealer c" "c_sealer (stall d w c) = c_sealer c"
  "c_sealer (hold d c) = c_sealer c" "c_sealer (unhold d c) = c_sealer c"
  "c_sealer (unstall d c) = c_sealer c" "c_sealer (drop_dot d c) = c_sealer c"
  "pull_frontier (quarantine c) = pull_frontier c" "pull_frontier (stall d w c) = pull_frontier c"
  "pull_frontier (hold d c) = pull_frontier c" "pull_frontier (unhold d c) = pull_frontier c"
  "pull_frontier (unstall d c) = pull_frontier c" "pull_frontier (drop_dot d c) = pull_frontier c"
  by (simp_all add: client_steps)

lemma settled_other:
  "d' \<noteq> d \<Longrightarrow> settled D L ab (unhold d c) d' = settled D L ab c d'"
  using blockers_unhold [of d c] by (auto simp: settled_def)

lemma settled_unstall_other:
  "d' \<noteq> d \<Longrightarrow> settled D L ab (unstall d c) d' = settled D L ab c d'"
  using blockers_unstall [of d c] by (auto simp: settled_def)

lemma settled_new [simp]:
  "settled D L ab (stall d w c) d" "settled D L ab (hold d c) d" "settled D L ab (drop_dot d c) d"
  by (simp_all add: settled_def)

lemma settled_mono:
  "settled D L ab c d' \<Longrightarrow> settled D L ab (quarantine c) d'"
  "settled D L ab c d' \<Longrightarrow> settled D L ab (stall d w c) d'"
  "settled D L ab c d' \<Longrightarrow> settled D L ab (hold d c) d'"
  "settled D L ab c d' \<Longrightarrow> settled D L ab (drop_dot d c) d'"
  by (auto simp: settled_def)

lemma settling_steps:
  "settling D L ab c (quarantine c)" "settling D L ab c (stall d w c)"
  "settling D L ab c (hold d c)" "settling D L ab c (drop_dot d c)"
  by (simp_all add: settling_def settled_mono)

lemma settling_quarantine_stall: "settling D L ab c (stall d w (quarantine c))"
  by (rule settling_trans [OF settling_steps(1) settling_steps(2)])

lemma resettle:
  assumes "settling D L ab (unhold d c) c'" "settled D L ab c' d"
  shows "settling D L ab c c'"
proof -
  have "frame c c'" using assms(1) by (simp add: settling_def)
  moreover have "settled D L ab c' d'" if "settled D L ab c d'" for d'
    using assms that settled_other [of d' d D L ab c]
    by (cases "d' = d") (simp_all add: settling_def del: split_paired_All)
  ultimately show ?thesis using assms(1) by (simp add: settling_def)
qed

lemma resettle_unstall:
  assumes "settling D L ab (unstall d c) c'" "settled D L ab c' d"
  shows "settling D L ab c c'"
proof -
  have "frame c c'" using assms(1) by (simp add: settling_def)
  moreover have "settled D L ab c' d'" if "settled D L ab c d'" for d'
    using assms that settled_unstall_other [of d' d D L ab c]
    by (cases "d' = d") (simp_all add: settling_def del: split_paired_All)
  ultimately show ?thesis using assms(1) by (simp add: settling_def)
qed

context merge_engine begin

lemma settled_merge:
  assumes "en_merge ops (c_engine c) pt cm = (e, q)" "settled D L absorbed c d"
  shows "settled D L absorbed (c\<lparr>c_engine := e\<rparr>) d"
  using assms(2) merge_keeps [OF assms(1)] by (auto simp: settled_def)

lemma merge_delta_settles:
  assumes "en D = ops" and "merge_delta D c d pt cm = (m, c')"
    and "se_open (se D) (c_sealer c) EDelta (L d) = Inr pt"
  shows "settling D L absorbed c c' \<and> settled D L absorbed c' d"
proof -
  obtain e q where mg: "en_merge ops (c_engine c) pt cm = (e, q)" by fastforce
  let ?c1 = "c\<lparr>c_engine := e\<rparr>"
  have s1: "settling D L absorbed c ?c1"
    by (auto simp: settling_def intro: settled_merge [OF mg])
  show ?thesis
  proof (cases q)
    case (Inl x)
    then have "c' = stall d MergeFailed (quarantine ?c1)"
      using assms(1,2) mg by (simp add: merge_delta_def)
    then show ?thesis using settling_trans [OF s1 settling_quarantine_stall] by simp
  next
    case (Inr x)
    then have c': "c' = ?c1" using assms(1,2) mg by (simp add: merge_delta_def)
    have "absorbed e pt" using mg Inr merge_absorbs by auto
    then have "settled D L absorbed ?c1 d" using assms(3) by (auto simp: settled_def)
    then show ?thesis using s1 c' by simp
  qed
qed

end


subsection \<open>The drain\<close>

context merge_engine begin

lemma drain_one_settles:
  assumes "en D = ops" "log_view D L c" "drain_one D G d merged c g = (q, c', g')"
  shows "settling D L absorbed c c'"
proof -
  obtain r n where d: "d = (r, n)" by (cases d)
  show ?thesis
  proof (cases "read_log D c r n" rule: read_cases)
    case absent
    then have "c' = stall d Vanished (unhold d c)" using assms(3) by (simp add: drain_one_def d)
    then show ?thesis by (auto intro!: resettle [of D L absorbed d] settling_steps)
  next
    case failed
    then show ?thesis using assms(3) by (simp add: drain_one_def d)
  next
    case (present env tag)
    have L: "L d = env" using assms(2) present by (auto simp: log_view_def d)
    show ?thesis
    proof (cases "se_open (se D) (c_sealer c) EDelta env")
      case (Inl e)
      then have "c' = stall d Unopenable (unhold d (quarantine c))"
        using assms(3) present by (simp add: drain_one_def d)
      then have "settling D L absorbed (quarantine c) c'"
        by (auto intro!: resettle [of D L absorbed d] settling_steps)
      then show ?thesis by (rule settling_trans [OF settling_steps(1)])
    next
      case (Inr pt)
      obtain g1 v cm where cl: "classify G g env pt r n = (g1, v, cm)" by (metis prod_cases3)
      show ?thesis
      proof (cases v)
        case Accept
        obtain m c1 where md: "merge_delta D (unhold d c) d pt cm = (m, c1)" by fastforce
        then have "c' = c1" using assms(3) present Inr cl Accept by (simp add: drain_one_def d)
        then show ?thesis
          using merge_delta_settles [OF assms(1) md, of L] Inr L by (auto intro: resettle)
      next
        case Reject
        then have "c' = stall d Rejected (unhold d c)"
          using assms(3) present Inr cl by (simp add: drain_one_def d)
        then show ?thesis by (auto intro!: resettle [of D L absorbed d] settling_steps)
      next
        case Drop
        then have "c' = drop_dot d (unhold d c)"
          using assms(3) present Inr cl by (simp add: drain_one_def d)
        then show ?thesis by (auto intro!: resettle [of D L absorbed d] settling_steps)
      next
        case Hold
        then show ?thesis using assms(3) present Inr cl by (simp add: drain_one_def d)
      qed
    qed
  qed
qed

lemma drain_held_settles:
  assumes "en D = ops" "log_view D L c" "drain_held D G ds merged c g = (q, c', g')"
  shows "settling D L absorbed c c'"
  using assms(2,3)
proof (induction ds arbitrary: merged c g)
  case (Cons d ds)
  obtain q1 c1 g1 where one: "drain_one D G d merged c g = (q1, c1, g1)" by (metis prod_cases3)
  have s1: "settling D L absorbed c c1" by (rule drain_one_settles [OF assms(1) Cons.prems(1) one])
  show ?case
  proof (cases q1)
    case (Inl e)
    then show ?thesis using Cons.prems one s1 by simp
  next
    case (Inr m)
    have "log_view D L c1" using Cons.prems(1) s1 by (auto intro: frame_log_view settling_frame)
    then have "settling D L absorbed c1 c'" using Cons.IH Cons.prems(2) one Inr by simp
    with s1 show ?thesis by (rule settling_trans)
  qed
qed simp

end

subsection \<open>The scan\<close>

definition pending :: "buffered list \<Rightarrow> dot set" where
  "pending ds = (\<lambda>(r, n, env, pt). (r, n)) ` set ds"

lemma pending_simps [simp]:
  "pending [] = {}" "pending (b # ds) = insert (fst b, fst (snd b)) (pending ds)"
  "pending (as @ bs) = pending as \<union> pending bs"
  by (simp_all add: pending_def image_Un split_beta)

definition buffers_ok ::
  "('e, 'x, 'k, 's) deps \<Rightarrow> (dot \<Rightarrow> bytes) \<Rightarrow> 'k \<Rightarrow> buffered list \<Rightarrow> bool" where
  "buffers_ok D L k ds \<longleftrightarrow>
     list_all (\<lambda>(r, n, env, pt). L (r, n) = env \<and> se_open (se D) k EDelta env = Inr pt) ds"

lemma buffers_ok_simps [simp]:
  "buffers_ok D L k []"
  "buffers_ok D L k ((r, n, env, pt) # ds) \<longleftrightarrow>
     L (r, n) = env \<and> se_open (se D) k EDelta env = Inr pt \<and> buffers_ok D L k ds"
  "buffers_ok D L k (as @ bs) \<longleftrightarrow> buffers_ok D L k as \<and> buffers_ok D L k bs"
  by (simp_all add: buffers_ok_def)

lemma scan_one_settles:
  assumes "L (r, n) = env" "scan_one D G r n env c g = (new, c', g')"
  shows "settling D L ab c c' \<and> buffers_ok D L (c_sealer c) new \<and> pending new \<subseteq> {(r, n)} \<and>
    (settled D L ab c' (r, n) \<or> (r, n) \<in> pending new)"
  using assms
  by (auto simp: scan_one_def settled_def settling_quarantine_stall split: sum.splits)

lemma scan_gap_settles:
  assumes "log_view D L c" "scan_gap D G r head n ds c g = (q, c', g')"
    and "buffers_ok D L (c_sealer c) ds"
  shows "settling D L ab c c' \<and>
    (\<forall>n' ds'. q = Inr (n', ds') \<longrightarrow>
       n \<le> n' \<and> buffers_ok D L (c_sealer c) ds' \<and> pending ds \<subseteq> pending ds' \<and>
       (\<forall>m. n \<le> m \<and> m < n' \<longrightarrow> settled D L ab c' (r, m) \<or> (r, m) \<in> pending ds'))"
  using assms
proof (induction D G r head n ds c g rule: scan_gap.induct)
  case (1 D G r head n ds c g)
  show ?case
  proof (cases "n < head")
    case False
    then show ?thesis using 1 by (auto simp: scan_gap.simps [of D G r head n])
  next
    case True
    show ?thesis
    proof (cases "read_log D c r n" rule: read_cases)
      case absent
      then show ?thesis using True "1.prems" by (auto simp: scan_gap.simps [of D G r head n])
    next
      case failed
      then show ?thesis using True "1.prems" by (auto simp: scan_gap.simps [of D G r head n])
    next
      case (present env tag)
      obtain new c1 g1 where one: "scan_one D G r n env c g = (new, c1, g1)" by (metis prod_cases3)
      have L: "L (r, n) = env" using "1.prems"(1) present by (auto simp: log_view_def)
      note s1 = scan_one_settles [where L = L and r = r and n = n and ab = ab, OF L one]
      have seal: "c_sealer c1 = c_sealer c" using s1 by (simp add: settling_def frame_def)
      have rec: "scan_gap D G r head (n + 1) (ds @ new) c1 g1 = (q, c', g')"
        using "1.prems"(2) True present one by (simp add: scan_gap.simps [of D G r head n])
      have lv: "log_view D L c1" using "1.prems"(1) s1 by (auto intro: frame_log_view settling_frame)
      have bo: "buffers_ok D L (c_sealer c1) (ds @ new)" using "1.prems"(3) s1 seal by simp
      have nn: "\<not> \<not> n < head" using True by simp
      have IH': "settling D L ab c1 c' \<and> (\<forall>n' ds'. q = Inr (n', ds') \<longrightarrow>
         n + 1 \<le> n' \<and> buffers_ok D L (c_sealer c) ds' \<and> pending (ds @ new) \<subseteq> pending ds' \<and>
         (\<forall>m. n + 1 \<le> m \<and> m < n' \<longrightarrow> settled D L ab c' (r, m) \<or> (r, m) \<in> pending ds'))"
        using "1.IH" [OF nn present refl refl one [symmetric] refl lv rec bo] seal by simp
      have step: "settling D L ab c c'" using s1 IH' by (blast intro: settling_trans)
      have at_n: "settled D L ab c' (r, n) \<or> (r, n) \<in> pending ds'"
        if "q = Inr (n', ds')" for n' ds'
        using s1 IH' that by (auto simp: settling_def)
      have split: "m = n \<or> n + 1 \<le> m" if "n \<le> m" for m
        using that True by (simp add: unat_Suc_less word_le_nat_alt word_unat_eq_iff) arith
      have le: "n \<le> n'" if "n + 1 \<le> n'" for n' :: u64
        using that less_Suc_word [OF True] by simp
      show ?thesis
      proof (intro conjI allI impI)
        fix n' ds'
        assume q: "q = Inr (n', ds')"
        have parts: "n + 1 \<le> n'" "buffers_ok D L (c_sealer c) ds'" "pending (ds @ new) \<subseteq> pending ds'"
          and rest: "n + 1 \<le> m \<and> m < n' \<Longrightarrow> settled D L ab c' (r, m) \<or> (r, m) \<in> pending ds'" for m
          using IH' q by blast+
        show "n \<le> n'" by (rule le [OF parts(1)])
        show "buffers_ok D L (c_sealer c) ds'" by (rule parts(2))
        show "pending ds \<subseteq> pending ds'" using parts(3) by simp
        fix m assume m: "n \<le> m \<and> m < n'"
        show "settled D L ab c' (r, m) \<or> (r, m) \<in> pending ds'"
          using split [of m] m rest [of m] at_n [OF q] by blast
      qed (rule step)
    qed
  qed
qed

text \<open>Between the scan and the classification, a dot below the frontier is settled or buffered.\<close>

definition accounted_or ::
  "('e, 'x, 'k, 's) deps \<Rightarrow> (dot \<Rightarrow> bytes) \<Rightarrow> ('e \<Rightarrow> bytes \<Rightarrow> bool) \<Rightarrow> buffered list \<Rightarrow>
     ('e, 'k, 's) client \<Rightarrow> bool" where
  "accounted_or D L ab ds c \<longleftrightarrow>
     (\<forall>r n. n < frontier_at (pull_frontier c) r \<longrightarrow> settled D L ab c (r, n) \<or> (r, n) \<in> pending ds)"

lemma accounted_or_Nil: "accounted_or D L ab [] c = accounted D L ab c"
  by (simp add: accounted_or_def accounted_def)

lemma accounted_or_quarantine: "accounted_or D L ab ds c \<Longrightarrow> accounted_or D L ab ds (quarantine c)"
  unfolding accounted_or_def using settled_mono(1) by simp blast

lemma accounted_or_advance:
  assumes "accounted_or D L ab ds c" "settling D L ab c c1" "pending ds \<subseteq> pending ds1"
    and "\<And>m. frontier_at (pull_frontier c) r \<le> m \<Longrightarrow> m < n \<Longrightarrow>
           settled D L ab c1 (r, m) \<or> (r, m) \<in> pending ds1"
  shows "accounted_or D L ab ds1 (c1\<lparr>pull_frontier := bt_insert r n (pull_frontier c1)\<rparr>)"
proof -
  have old: "settled D L ab c1 (r', m) \<or> (r', m) \<in> pending ds1"
    if "m < frontier_at (pull_frontier c) r'" for r' m
    using assms(1-3) that unfolding accounted_or_def settling_def by blast
  have pf: "pull_frontier c1 = pull_frontier c" using assms(2) by (simp add: settling_def)
  have same: "settled D L ab (c1\<lparr>pull_frontier := f\<rparr>) d = settled D L ab c1 d" for f d
    by (simp add: settled_def)
  have "settled D L ab c1 (r', m) \<or> (r', m) \<in> pending ds1"
    if "m < (if r' = r then n else frontier_at (pull_frontier c) r')" for r' m
    using old [of m r'] assms(4) [of m] that
    by (cases "m < frontier_at (pull_frontier c) r'") (auto split: if_splits)
  then show ?thesis by (simp add: accounted_or_def same pf)
qed

lemma scan_replicas_accounts:
  assumes "log_view D L c" "buffers_ok D L (c_sealer c) ds" "accounted_or D L ab ds c"
    and "scan_replicas D G rs ds c g = (Inr ds', c', g')"
  shows "frame c c' \<and> buffers_ok D L (c_sealer c') ds' \<and> accounted_or D L ab ds' c'"
  using assms
proof (induction rs arbitrary: ds c g)
  case (Cons r rs)
  show ?case
  proof (cases "blob_get (st D) (c_store c) (head_key (c_doc c) r)" rule: read_cases)
    case absent
    then show ?thesis using Cons by simp
  next
    case failed
    then show ?thesis using Cons.prems by simp
  next
    case (present hb tag)
    show ?thesis
    proof (cases "decode_count hb")
      case None
      then have "scan_replicas D G rs ds (quarantine c) g = (Inr ds', c', g')"
        using Cons.prems(4) present by simp
      from Cons.IH [OF _ _ _ this] Cons.prems show ?thesis
        by (simp add: accounted_or_quarantine frame_log_view [of c])
    next
      case (Some head)
      let ?n = "frontier_at (pull_frontier c) r"
      obtain q c1 g1 where gap: "scan_gap D G r head ?n ds c g = (q, c1, g1)" by (metis prod_cases3)
      then obtain n ds1 where q: "q = Inr (n, ds1)"
        using Cons.prems(4) present Some by (cases q) auto
      let ?c2 = "c1\<lparr>pull_frontier := bt_insert r n (pull_frontier c1)\<rparr>"
      have rest: "scan_replicas D G rs ds1 ?c2 g1 = (Inr ds', c', g')"
        using Cons.prems(4) present Some gap q by simp
      note sg = scan_gap_settles [OF Cons.prems(1) gap Cons.prems(2), of ab]
      have st: "settling D L ab c c1" and bo: "buffers_ok D L (c_sealer c) ds1"
        and sub: "pending ds \<subseteq> pending ds1"
        and new: "?n \<le> m \<Longrightarrow> m < n \<Longrightarrow> settled D L ab c1 (r, m) \<or> (r, m) \<in> pending ds1" for m
        using sg q by blast+
      have fr: "frame c ?c2" using st by (simp add: settling_def)
      have "accounted_or D L ab ds1 ?c2"
        by (rule accounted_or_advance [OF Cons.prems(3) st sub new])
      moreover have "buffers_ok D L (c_sealer ?c2) ds1" using bo fr by (simp add: frame_def)
      ultimately show ?thesis
        using Cons.IH [OF frame_log_view [OF fr Cons.prems(1)] _ _ rest] frame_trans [OF fr] by blast
    qed
  qed
qed simp

subsection \<open>The classification\<close>

context merge_engine begin

lemma classify_one_settles:
  assumes "en D = ops" "buffers_ok D L (c_sealer c) [b]"
    and "classify_one D G b merged c g = (m, c', g')"
  shows "settling D L absorbed c c' \<and> settled D L absorbed c' (fst b, fst (snd b))"
proof -
  obtain r n env pt where b: "b = (r, n, env, pt)" by (cases b)
  obtain g1 v cm where cl: "classify G g env pt r n = (g1, v, cm)" by (metis prod_cases3)
  have pt: "se_open (se D) (c_sealer c) EDelta (L (r, n)) = Inr pt" using assms(2) b by simp
  obtain m1 c1 where md: "merge_delta D c (r, n) pt cm = (m1, c1)" by fastforce
  show ?thesis
    using assms(3) merge_delta_settles [OF assms(1) md, of L] pt cl md b
    by (cases v) (auto simp: classify_one_def settling_steps)
qed

lemma classify_all_settles:
  assumes "en D = ops" "buffers_ok D L (c_sealer c) bs"
    and "classify_all D G bs merged c g = (m, c', g')"
  shows "settling D L absorbed c c' \<and> (\<forall>d \<in> pending bs. settled D L absorbed c' d)"
  using assms(2,3)
proof (induction bs arbitrary: merged c g)
  case (Cons b bs)
  obtain m1 c1 g1 where one: "classify_one D G b merged c g = (m1, c1, g1)" by (metis prod_cases3)
  have bo: "buffers_ok D L (c_sealer c) [b]" "buffers_ok D L (c_sealer c) bs"
    using Cons.prems(1) by (cases b; simp)+
  note s1 = classify_one_settles [OF assms(1) bo(1) one]
  have seal: "c_sealer c1 = c_sealer c" using s1 by (simp add: settling_def frame_def)
  have rest: "classify_all D G bs m1 c1 g1 = (m, c', g')" using Cons.prems(2) one by simp
  have s2: "settling D L absorbed c1 c' \<and> (\<forall>d \<in> pending bs. settled D L absorbed c' d)"
    using Cons.IH [OF _ rest] bo(2) seal by simp
  have "settled D L absorbed c' (fst b, fst (snd b))" using s1 s2 unfolding settling_def by blast
  then show ?case using s1 s2 by (auto intro: settling_trans)
qed simp

lemma classify_all_accounts:
  assumes "en D = ops" "buffers_ok D L (c_sealer c) bs" "accounted_or D L absorbed bs c"
    and "classify_all D G bs merged c g = (m, c', g')"
  shows "frame c c' \<and> pull_frontier c' = pull_frontier c \<and> accounted D L absorbed c'"
  using classify_all_settles [OF assms(1,2,4)] assms(3)
  unfolding settling_def accounted_def accounted_or_def by metis

lemma settling_accounted:
  assumes "settling D L ab c c'" "accounted D L ab c"
  shows "accounted D L ab c'"
  using assms unfolding settling_def accounted_def by metis

lemma pull_verified_accounts:
  assumes "en D = ops" "log_view D L c" "accounted D L absorbed c"
    and "pull_verified D G c g = (Inr m, c', g')"
  shows "frame c c' \<and> accounted D L absorbed c'"
proof -
  obtain q1 c1 g1 where dr: "drain_held D G (held c) 0 c g = (q1, c1, g1)" by (metis prod_cases3)
  then obtain m1 where q1: "q1 = Inr m1"
    using assms(4) by (cases q1) (auto simp: pull_verified_def)
  obtain rs where rs: "list_replicas D c1 = Inr rs"
    using assms(4) dr q1 by (cases "list_replicas D c1") (auto simp: pull_verified_def)
  obtain q2 c2 g2 where sc: "scan_replicas D G rs [] c1 g1 = (q2, c2, g2)" by (metis prod_cases3)
  then obtain ds where q2: "q2 = Inr ds"
    using assms(4) dr q1 rs by (cases q2) (auto simp: pull_verified_def)
  have cl: "classify_all D G ds m1 c2 g2 = (m, c', g')"
    using assms(4) dr q1 rs sc q2 by (simp add: pull_verified_def split: prod.splits)
  note s1 = drain_held_settles [OF assms(1,2) dr]
  have f1: "frame c c1" using s1 by (rule settling_frame)
  have "accounted_or D L absorbed [] c1"
    using settling_accounted [OF s1 assms(3)] by (simp add: accounted_or_Nil)
  then have s2: "frame c1 c2 \<and> buffers_ok D L (c_sealer c2) ds \<and> accounted_or D L absorbed ds c2"
    using scan_replicas_accounts [OF frame_log_view [OF f1 assms(2)], of "[]"] sc q2 by simp
  then have "frame c2 c' \<and> accounted D L absorbed c'"
    using classify_all_accounts [OF assms(1) _ _ cl] by blast
  then show ?thesis using f1 s2 frame_trans by blast
qed

end

subsection \<open>The unverified pull\<close>

context merge_engine begin

lemma pull_one_settles:
  assumes "en D = ops" "pull_one D c d (L d) cm = (m, c')"
  shows "settling D L absorbed c c' \<and> settled D L absorbed c' d"
proof (cases "se_open (se D) (c_sealer c) EDelta (L d)")
  case (Inl e)
  then show ?thesis using assms(2) by (auto simp: pull_one_def settling_quarantine_stall)
next
  case (Inr pt)
  then have md: "merge_delta D c d pt cm = (m, c')" using assms(2) by (simp add: pull_one_def)
  show ?thesis using merge_delta_settles [OF assms(1) md, of L] Inr by simp
qed

lemma pull_gap_settles:
  assumes "en D = ops" "log_view D L c" "pull_gap D cm r head n merged c = (q, c')"
  shows "settling D L absorbed c c' \<and>
    (\<forall>n' k. q = Inr (n', k) \<longrightarrow>
       n \<le> n' \<and> (\<forall>m. n \<le> m \<and> m < n' \<longrightarrow> settled D L absorbed c' (r, m)))"
  using assms
proof (induction D cm r head n merged c rule: pull_gap.induct)
  case (1 D cm r head n merged c)
  show ?case
  proof (cases "n < head")
    case False
    then show ?thesis using 1 by (auto simp: pull_gap.simps [of D cm r head n])
  next
    case True
    show ?thesis
    proof (cases "read_log D c r n" rule: read_cases)
      case absent
      then show ?thesis using True "1.prems" by (auto simp: pull_gap.simps [of D cm r head n])
    next
      case failed
      then show ?thesis using True "1.prems" by (auto simp: pull_gap.simps [of D cm r head n])
    next
      case (present env tag)
      obtain k c1 where one: "pull_one D c (r, n) env cm = (k, c1)" by fastforce
      have L: "L (r, n) = env" using "1.prems"(2) present by (auto simp: log_view_def)
      have s1: "settling D L absorbed c c1" and at: "settled D L absorbed c1 (r, n)"
        using pull_one_settles [OF "1.prems"(1)] one L by blast+
      have lv: "log_view D L c1" using "1.prems"(2) s1 by (auto intro: frame_log_view settling_frame)
      have rec: "pull_gap D cm r head (n + 1) (merged + k) c1 = (q, c')"
        using "1.prems"(3) True present one by (simp add: pull_gap.simps [of D cm r head n])
      have nn: "\<not> \<not> n < head" using True by simp
      have IH: "settling D L absorbed c1 c' \<and> (\<forall>n' k. q = Inr (n', k) \<longrightarrow>
          n + 1 \<le> n' \<and> (\<forall>m. n + 1 \<le> m \<and> m < n' \<longrightarrow> settled D L absorbed c' (r, m)))"
        by (rule "1.IH" [OF nn present refl refl one [symmetric] "1.prems"(1) lv rec])
      have step: "settling D L absorbed c c'" using s1 IH by (blast intro: settling_trans)
      have at': "settled D L absorbed c' (r, n)" using at IH unfolding settling_def by blast
      have split: "m = n \<or> n + 1 \<le> m" if "n \<le> m" for m
        using that True by (simp add: unat_Suc_less word_le_nat_alt word_unat_eq_iff) arith
      have le: "n \<le> n'" if "n + 1 \<le> n'" for n' :: u64
        using that less_Suc_word [OF True] by simp
      show ?thesis using step IH le at' split by metis
    qed
  qed
qed

lemma pull_replicas_accounts:
  assumes "en D = ops" "log_view D L c" "accounted D L absorbed c"
    and "pull_replicas D cm rs merged c = (q, c')"
  shows "frame c c' \<and> accounted D L absorbed c'"
  using assms
proof (induction rs arbitrary: merged c)
  case (Cons r rs)
  show ?case
  proof (cases "blob_get (st D) (c_store c) (head_key (c_doc c) r)" rule: read_cases)
    case absent
    then show ?thesis using Cons by simp
  next
    case failed
    then show ?thesis using Cons.prems by auto
  next
    case (present hb tag)
    show ?thesis
    proof (cases "decode_count hb")
      case None
      then have rest: "pull_replicas D cm rs merged (quarantine c) = (q, c')"
        using Cons.prems(4) present by simp
      have "accounted D L absorbed (quarantine c)"
        using Cons.prems(3) settling_accounted settling_steps(1) by blast
      then show ?thesis
        using Cons.IH [OF Cons.prems(1) _ _ rest] Cons.prems(2) by (simp add: frame_log_view [of c])
    next
      case (Some head)
      let ?n = "frontier_at (pull_frontier c) r"
      obtain p c1 where gap: "pull_gap D cm r head ?n merged c = (p, c1)" by fastforce
      note pg = pull_gap_settles [OF Cons.prems(1,2) gap]
      have st: "settling D L absorbed c c1" using pg by blast
      show ?thesis
      proof (cases p)
        case (Inl e)
        then have "c' = c1" using Cons.prems(4) present Some gap by simp
        then show ?thesis using st Cons.prems(3) settling_accounted settling_frame by blast
      next
        case (Inr nk)
        obtain n k where nk: "nk = (n, k)" by (cases nk)
        let ?c2 = "c1\<lparr>pull_frontier := bt_insert r n (pull_frontier c1)\<rparr>"
        have rest: "pull_replicas D cm rs k ?c2 = (q, c')"
          using Cons.prems(4) present Some gap Inr nk by simp
        have fr: "frame c ?c2" using st by (simp add: settling_def)
        have "accounted_or D L absorbed [] ?c2"
        proof (rule accounted_or_advance [of _ _ _ "[]" c])
          show "accounted_or D L absorbed [] c" using Cons.prems(3) by (simp add: accounted_or_Nil)
        qed (use pg Inr nk st in auto)
        then have "accounted D L absorbed ?c2" by (simp add: accounted_or_Nil)
        then show ?thesis
          using Cons.IH [OF Cons.prems(1) frame_log_view [OF fr Cons.prems(2)] _ rest]
            frame_trans [OF fr] by blast
      qed
    qed
  qed
qed auto

lemma pull_accounts:
  assumes "en D = ops" "log_view D L c" "accounted D L absorbed c" "pull D c = (q, c')"
  shows "frame c c' \<and> accounted D L absorbed c'"
  using assms pull_replicas_accounts [OF assms(1-3)]
  by (auto simp: pull_def split: sum.splits)

end

subsection \<open>Retrying stalled dots\<close>

context merge_engine begin

lemma retry_one_settles:
  assumes "en D = ops" "log_view D L c" "retry_one D G d k c g = (q, c', g')"
  shows "settling D L absorbed c c'"
proof -
  obtain r n where d: "d = (r, n)" by (cases d)
  show ?thesis
  proof (cases "read_log D c r n" rule: read_cases)
    case absent
    then show ?thesis using assms(3) by (simp add: retry_one_def d)
  next
    case failed
    then show ?thesis using assms(3) by (simp add: retry_one_def d)
  next
    case (present env tag)
    have L: "L d = env" using assms(2) present by (auto simp: log_view_def d)
    show ?thesis
    proof (cases "se_open (se D) (c_sealer c) ECover env")
      case (Inr body)
      then have c': "c' = unstall d c" using assms(3) present by (simp add: retry_one_def d)
      have "settled D L absorbed (unstall d c) d" using Inr L by (auto simp: settled_def)
      then show ?thesis using c' resettle_unstall [of D L absorbed d c c'] by simp
    next
      case (Inl e)
      show ?thesis
      proof (cases "se_open (se D) (c_sealer c) EDelta env")
        case (Inl e')
        then show ?thesis using assms(3) present \<open>se_open _ _ ECover env = Inl e\<close>
          by (simp add: retry_one_def d)
      next
        case (Inr pt)
        obtain g1 v cm where cl: "classify G g env pt r n = (g1, v, cm)" by (metis prod_cases3)
        obtain e1 p where mg: "en_merge ops (c_engine c) pt cm = (e1, p)" by fastforce
        have keep: "settling D L absorbed c (c\<lparr>c_engine := e1\<rparr>)"
          by (auto simp: settling_def intro: settled_merge [OF mg])
        show ?thesis
        proof (cases v)
          case Accept
          show ?thesis
          proof (cases p)
            case (Inl x)
            then have "c' = c\<lparr>c_engine := e1\<rparr>"
              using assms(1,3) present \<open>se_open _ _ ECover env = Inl e\<close> Inr cl Accept mg
              by (simp add: retry_one_def d)
            then show ?thesis using keep by simp
          next
            case (Inr u)
            let ?c1 = "c\<lparr>c_engine := e1\<rparr>"
            have c': "c' = unstall d ?c1"
              using assms(1,3) present \<open>se_open _ _ ECover env = Inl e\<close>
                \<open>se_open _ _ EDelta env = Inr pt\<close> cl Accept mg Inr
              by (simp add: retry_one_def d)
            have "settled D L absorbed (unstall d ?c1) d"
              using mg Inr merge_absorbs L \<open>se_open _ _ EDelta env = Inr pt\<close>
              by (auto simp: settled_def)
            then have "settling D L absorbed ?c1 c'"
              using c' resettle_unstall [of D L absorbed d ?c1 c'] by simp
            then show ?thesis by (rule settling_trans [OF keep])
          qed
        next
          case Hold
          then have "c' = hold d (unstall d c)"
            using assms(3) present \<open>se_open _ _ ECover env = Inl e\<close> Inr cl by (simp add: retry_one_def d)
          then show ?thesis by (auto intro!: resettle_unstall [of D L absorbed d] settling_steps)
        next
          case Drop
          then have "c' = drop_dot d (unstall d c)"
            using assms(3) present \<open>se_open _ _ ECover env = Inl e\<close> Inr cl by (simp add: retry_one_def d)
          then show ?thesis by (auto intro!: resettle_unstall [of D L absorbed d] settling_steps)
        next
          case Reject
          then show ?thesis
            using assms(3) present \<open>se_open _ _ ECover env = Inl e\<close> Inr cl by (simp add: retry_one_def d)
        qed
      qed
    qed
  qed
qed

lemma retry_all_settles:
  assumes "en D = ops" "log_view D L c" "retry_all D G ds k c g = (q, c', g')"
  shows "settling D L absorbed c c'"
  using assms(2,3)
proof (induction ds arbitrary: k c g)
  case (Cons d ds)
  obtain q1 c1 g1 where one: "retry_one D G d k c g = (q1, c1, g1)" by (metis prod_cases3)
  have s1: "settling D L absorbed c c1" by (rule retry_one_settles [OF assms(1) Cons.prems(1) one])
  show ?case
  proof (cases q1)
    case (Inl e)
    then show ?thesis using Cons.prems one s1 by simp
  next
    case (Inr m)
    have "log_view D L c1" using Cons.prems(1) s1 by (auto intro: frame_log_view settling_frame)
    then have "settling D L absorbed c1 c'" using Cons.IH Cons.prems(2) one Inr by simp
    with s1 show ?thesis by (rule settling_trans)
  qed
qed simp

end

end
