(* ===== verification/Docsync_Mirror.thy ===== *)
theory Docsync_Mirror
  imports Docsync
begin

text \<open>
  The rest of \<open>packages/docsync/src/lib.rs\<close>: the one-directional anti-entropy \<open>mirror\<close>
  between two blob stores, and the no-crypto \<open>PassthroughSealer\<close>, which is proved to meet
  the contract of the sealer seam (locale \<open>kind_strict_sealer\<close>).
\<close>

subsection \<open>Mirror\<close>

function mirror_copy ::
  "'a blob_ops \<Rightarrow> 'b blob_ops \<Rightarrow> 'a \<Rightarrow> string \<Rightarrow> string \<Rightarrow> u64 \<Rightarrow> u64 \<Rightarrow> nat \<Rightarrow> 'b \<Rightarrow>
     (sync_error + nat \<times> u64) \<times> 'b" where
  "mirror_copy A B s doc r from_head n copied t =
     (if \<not> n < from_head then (Inr (copied, from_head), t)
      else case blob_get A s (log_key doc r n) of
             Inr (Some (b, _)) \<Rightarrow>
               (case blob_put B t (log_key doc r n) b IfAbsent of
                  (t1, q) \<Rightarrow>
                    if (case q of Inr _ \<Rightarrow> True | Inl e \<Rightarrow> e = PreconditionFailed)
                    then mirror_copy A B s doc r from_head (n + 1) (Suc copied) t1
                    else (case q of Inl e \<Rightarrow> (Inl (Blob e), t1) | Inr _ \<Rightarrow> (Inr (copied, n), t1)))
           | Inr None \<Rightarrow> (Inr (copied, n), t)
           | Inl e \<Rightarrow>
               if e = Gone then mirror_copy A B s doc r from_head (n + 1) copied t
               else (Inl (Blob e), t))"
  by pat_completeness auto
termination
  by (relation "measure (\<lambda>(A, B, s, doc, r, h, n, copied, t). unat h - unat n)")
    (auto simp: unat_diff_Suc_less)

declare mirror_copy.simps [simp del]

definition mirror_head ::
  "'a blob_ops \<Rightarrow> 'b blob_ops \<Rightarrow> 'a \<Rightarrow> string \<Rightarrow> string \<Rightarrow> u64 \<Rightarrow> nat \<Rightarrow> 'b \<Rightarrow>
     (sync_error + nat) \<times> 'b" where
  "mirror_head A B s doc r from_head copied t =
     (case blob_get B t (head_key doc r) of
        Inl e \<Rightarrow> (Inl (Blob e), t)
      | Inr hv \<Rightarrow>
          let to_head = (case hv of None \<Rightarrow> 0
                | Some (b, _) \<Rightarrow> (case decode_count b of None \<Rightarrow> 0 | Some h \<Rightarrow> h))
          in case mirror_copy A B s doc r from_head to_head copied t of
               (Inl e, t1) \<Rightarrow> (Inl e, t1)
             | (Inr (m, head_cap), t1) \<Rightarrow>
                 if to_head < head_cap then
                   (case blob_put B t1 (head_key doc r) (encode_count head_cap) Any of
                      (t2, Inl e) \<Rightarrow> (Inl (Blob e), t2)
                    | (t2, Inr _) \<Rightarrow> (Inr m, t2))
                 else (Inr m, t1))"

fun mirror_heads ::
  "'a blob_ops \<Rightarrow> 'b blob_ops \<Rightarrow> 'a \<Rightarrow> string \<Rightarrow> (string \<times> etag) list \<Rightarrow> nat \<Rightarrow> 'b \<Rightarrow>
     (sync_error + nat) \<times> 'b" where
  "mirror_heads A B s doc [] copied t = (Inr copied, t)"
| "mirror_heads A B s doc ((head_object, _) # hs) copied t =
     (case parse_head_key (heads_prefix doc) head_object of
        None \<Rightarrow> mirror_heads A B s doc hs copied t
      | Some r \<Rightarrow>
          (case blob_get A s (head_key doc r) of
             Inl e \<Rightarrow> (Inl (Blob e), t)
           | Inr None \<Rightarrow> mirror_heads A B s doc hs copied t
           | Inr (Some (fh, _)) \<Rightarrow>
               (case decode_count fh of
                  None \<Rightarrow> mirror_heads A B s doc hs copied t
                | Some from_head \<Rightarrow>
                    (case mirror_head A B s doc r from_head copied t of
                       (Inl e, t1) \<Rightarrow> (Inl e, t1)
                     | (Inr m, t1) \<Rightarrow> mirror_heads A B s doc hs m t1))))"

definition mirror_snapshot ::
  "'a blob_ops \<Rightarrow> 'b blob_ops \<Rightarrow> 'a \<Rightarrow> string \<Rightarrow> nat \<Rightarrow> 'b \<Rightarrow> (sync_error + nat) \<times> 'b" where
  "mirror_snapshot A B s doc copied t =
     (case blob_get A s (snapshot_key doc) of
        Inr (Some (snap, src_etag)) \<Rightarrow>
          (case blob_get B t (snapshot_key doc) of
             Inl e \<Rightarrow> (Inl (Blob e), t)
           | Inr v \<Rightarrow>
               if map_option snd v \<noteq> Some src_etag then
                 (case blob_put B t (snapshot_key doc) snap Any of
                    (t1, Inl e) \<Rightarrow> (Inl (Blob e), t1)
                  | (t1, Inr _) \<Rightarrow> (Inr copied, t1))
               else (Inr copied, t))
      | Inr None \<Rightarrow> (Inr copied, t)
      | Inl e \<Rightarrow> if e = Gone then (Inr copied, t) else (Inl (Blob e), t))"

definition mirror ::
  "'a blob_ops \<Rightarrow> 'b blob_ops \<Rightarrow> 'a \<Rightarrow> 'b \<Rightarrow> string \<Rightarrow> (sync_error + nat) \<times> 'b" where
  "mirror A B s t doc =
     (case blob_list A s (heads_prefix doc) of
        Inl e \<Rightarrow> (Inl (Blob e), t)
      | Inr hs \<Rightarrow>
          (case mirror_heads A B s doc hs 0 t of
             (Inl e, t1) \<Rightarrow> (Inl e, t1)
           | (Inr copied, t1) \<Rightarrow> mirror_snapshot A B s doc copied t1))"

subsection \<open>The passthrough sealer\<close>

fun kind_tag :: "entry_kind \<Rightarrow> u8" where
  "kind_tag EDelta = 0"
| "kind_tag ESnapshot = 1"
| "kind_tag ECover = 2"

definition passthrough_seal :: "unit \<Rightarrow> seal_ctx \<Rightarrow> bytes \<Rightarrow> unit \<times> (string + sealed)" where
  "passthrough_seal u ctx plaintext =
     (u, Inr \<lparr>sl_envelope = u64_be (sc_covers_through_seq ctx) @ [kind_tag (sc_kind ctx)] @ plaintext,
             sl_ciphertext_hash = []\<rparr>)"

definition passthrough_open :: "unit \<Rightarrow> entry_kind \<Rightarrow> bytes \<Rightarrow> string + bytes" where
  "passthrough_open u kind envelope =
     (if 8 < length envelope \<and> envelope ! 8 = kind_tag kind
      then Inr (drop 9 envelope)
      else Inl ''envelope kind does not match the requested kind'')"

definition passthrough_covers :: "unit \<Rightarrow> bytes \<Rightarrow> u64" where
  "passthrough_covers u envelope =
     (if length envelope < 8 then 0 else of_nat (nat_of_be (take 8 envelope)))"

definition passthrough_ops :: "unit sealer_ops" where
  "passthrough_ops = \<lparr>se_seal = passthrough_seal, se_open = passthrough_open,
     se_covers_through_seq = passthrough_covers\<rparr>"

lemma kind_tag_inj [simp]: "kind_tag a = kind_tag b \<longleftrightarrow> a = b"
  by (cases a; cases b) simp_all

text \<open>The sealer seam: what was sealed opens again under its own kind, and under no other.\<close>

locale kind_strict_sealer =
  fixes ops :: "'k sealer_ops"
    and sok :: "'k \<Rightarrow> bool"
  assumes open_seal:
      "sok k \<Longrightarrow> se_seal ops k ctx pt = (k', Inr out) \<Longrightarrow>
         se_open ops k' (sc_kind ctx) (sl_envelope out) = Inr pt"
    and seal_keeps: "sok k \<Longrightarrow> se_seal ops k ctx pt = (k', r) \<Longrightarrow> sok k'"
    and open_strict:
      "se_open ops k a env = Inr x \<Longrightarrow> se_open ops k b env = Inr y \<Longrightarrow> a = b"
begin

lemma open_other_kind:
  assumes "sok k" "se_seal ops k ctx pt = (k', Inr out)" "kind \<noteq> sc_kind ctx"
  shows "\<exists>e. se_open ops k' kind (sl_envelope out) = Inl e"
  using open_seal [OF assms(1,2)] open_strict assms(3)
  by (cases "se_open ops k' kind (sl_envelope out)") blast+

end

interpretation passthrough: kind_strict_sealer passthrough_ops "\<lambda>_. True"
  by unfold_locales
    (auto simp: passthrough_ops_def passthrough_seal_def passthrough_open_def nth_append split: if_splits)

end
