(* ===== verification/Docsync_Safety.thy ===== *)
theory Docsync_Safety
  imports Docsync_Coverage Docsync_Mirror
begin

text \<open>
  What the sync client of \<open>packages/docsync\<close> promises, and two inputs on which it does not
  keep it.  The witnesses run the client on a small document: the in-memory store, the
  passthrough sealer and an engine whose state is the list of deltas it absorbed.
\<close>

subsection \<open>A small document\<close>

definition demo_hash :: hash_env where
  "demo_hash = \<lparr>sha256 = (\<lambda>b. b), hexlower = bytes_string\<rparr>"

definition bag_engine :: "(bytes list, bytes) engine_ops" where
  "bag_engine = \<lparr>en_apply_local = (\<lambda>e x. (x # e, x)), en_merge = (\<lambda>e pt cm. (pt # e, Inr ())),
     en_author = (\<lambda>e. ''me''), en_snapshot = concat, en_merge_snapshot = (\<lambda>e b. (b # e, Inr ()))\<rparr>"

definition bag_absorbed :: "bytes list \<Rightarrow> bytes \<Rightarrow> bool" where
  "bag_absorbed e pt \<longleftrightarrow> pt \<in> set e"

definition demo_deps :: "(bytes list, bytes, unit, memory_blob) deps" where
  "demo_deps = \<lparr>en = bag_engine, se = passthrough_ops, st = memory_ops demo_hash\<rparr>"

definition accept_gate :: "unit gate_ops" where
  "accept_gate = \<lparr>classify = (\<lambda>g env pt r n. (g, Accept, ''peer'')), fold_cover = (\<lambda>g env b r n. g)\<rparr>"

definition env_of :: "entry_kind \<Rightarrow> bytes \<Rightarrow> bytes" where
  "env_of k pt = replicate 8 0 @ [kind_tag k] @ pt"

definition demo_store :: memory_blob where
  "demo_store = [(''d/heads/a'', [49]), (''d/log/a/0'', env_of EDelta [7])]"

definition demo_log :: "dot \<Rightarrow> bytes" where
  "demo_log d = env_of EDelta [7]"

definition demo_client :: "(bytes list, unit, memory_blob) client" where
  "demo_client = client_new [] () demo_store ''d'' ''me''"

lemma bag_merge_engine: "merge_engine bag_engine bag_absorbed"
  by unfold_locales (auto simp: bag_engine_def bag_absorbed_def)

lemmas demo_defs = demo_hash_def bag_engine_def demo_deps_def accept_gate_def env_of_def
  demo_store_def demo_log_def demo_client_def client_new_def memory_ops_def memory_get_def
  memory_put_def memory_list_def passthrough_ops_def passthrough_open_def

lemma dec_digits [simp]: "nat_to_dec 0 = ''0''" "nat_to_dec (Suc 0) = ''1''" "nat_to_dec 2 = ''2''"
  by code_simp+

lemma count_1 [simp]: "decode_count [49] = Some 1"
  using decode_encode_count [of 1] by (simp add: encode_count_def string_bytes_def del: decode_encode_count)

lemma count_2 [simp]: "decode_count [50] = Some 2"
  using decode_encode_count [of 2]
  by (simp add: encode_count_def string_bytes_def del: decode_encode_count)

lemma demo_keys [simp]:
  "log_key ''d'' ''a'' 0 = ''d/log/a/0''" "head_key ''d'' r = ''d/heads/'' @ r"
  "heads_prefix ''d'' = ''d/heads/''" "snapshot_key ''d'' = ''d/snapshot''"
  by (simp_all add: log_key_def head_key_def heads_prefix_def snapshot_key_def)

lemma demo_accounted: "accounted D L ab (client_new e k s doc r)"
  by (simp add: accounted_def client_new_def frontier_at_def)

lemma demo_view: "log_view demo_deps demo_log demo_client"
  by (auto simp: log_view_def read_log_def demo_defs map_of_Cons_code log_key_def split: if_splits)

lemma demo_replicas: "list_replicas demo_deps demo_client = Inr [''a'']"
  by (simp add: list_replicas_def demo_defs parse_head_key_def strip_prefix_def map_filter_def)

lemma demo_pull_verified:
  "pull_verified demo_deps accept_gate demo_client () =
     (Inr 1, demo_client\<lparr>c_engine := [[7]], pull_frontier := [(''a'', 1)]\<rparr>, ())"
  using demo_replicas
  by (simp add: pull_verified_def scan_gap.simps read_log_def scan_one_def classify_one_def
      merge_delta_def frontier_at_def demo_defs nth_append)

subsection \<open>Reachable clients\<close>

text \<open>A receiving client.  It starts fresh, pulls, pulls verified, retries its stalled dots and
  compacts, in any order, each verified step under any gate of \<open>Gs\<close> (a membership may change
  between two of them), while peers change the store under it; \<open>L\<close> is what a dot's log object
  holds whenever it is there.  A verified pull is counted when it returns \<open>Ok\<close>, as
  \<open>failed_pull_loses_delta\<close> below shows it must; the other operations also when they fail half
  way.  Not among the steps are the adoption of a snapshot (and with it the bootstrap), which
  answers for what the snapshot covers, and the operations that forget or readmit dots.\<close>

inductive receiving ::
  "('e, 'x, 'k, 's) deps \<Rightarrow> (dot \<Rightarrow> bytes) \<Rightarrow> 'g gate_ops set \<Rightarrow> ('e, 'k, 's) client \<Rightarrow> bool"
  for D L Gs where
  fresh: "receiving D L Gs (client_new e k s doc r)"
| peers: "receiving D L Gs c \<Longrightarrow> receiving D L Gs (c\<lparr>c_store := s\<rparr>)"
| pulled: "receiving D L Gs c \<Longrightarrow> log_view D L c \<Longrightarrow> pull D c = (q, c') \<Longrightarrow> receiving D L Gs c'"
| verified: "receiving D L Gs c \<Longrightarrow> log_view D L c \<Longrightarrow> G \<in> Gs \<Longrightarrow>
     pull_verified D G c g = (Inr m, c', g') \<Longrightarrow> receiving D L Gs c'"
| retried: "receiving D L Gs c \<Longrightarrow> log_view D L c \<Longrightarrow> G \<in> Gs \<Longrightarrow>
     retry_stalled D G c g = (q', c', g') \<Longrightarrow> receiving D L Gs c'"
| compacted: "receiving D L Gs c \<Longrightarrow> compact D c = (q'', c') \<Longrightarrow> receiving D L Gs c'"

text \<open>Sealing may change the sealer's state, but not what it can open.\<close>

definition seal_keeps_open :: "'k sealer_ops \<Rightarrow> bool" where
  "seal_keeps_open S \<longleftrightarrow>
     (\<forall>k ctx pt kind env. se_open S (fst (se_seal S k ctx pt)) kind env = se_open S k kind env)"

lemma passthrough_keeps_open: "seal_keeps_open passthrough_ops"
  by (simp add: seal_keeps_open_def passthrough_ops_def passthrough_open_def)

lemma write_snapshot_frame:
  assumes "seal_keeps_open (se D)" "write_snapshot D c f = (q, c')"
  shows "c_engine c' = c_engine c \<and> pull_frontier c' = pull_frontier c \<and> held c' = held c \<and>
    stalled c' = stalled c \<and> dropped c' = dropped c \<and>
    se_open (se D) (c_sealer c') = se_open (se D) (c_sealer c)"
proof -
  have "se_open (se D) k1 = se_open (se D) (c_sealer c)"
    if "se_seal (se D) (c_sealer c) ctx pt = (k1, q)" for ctx pt k1 q
    using assms(1) that by (metis ext fst_conv seal_keeps_open_def)
  then show ?thesis
    using assms(2)
    by (auto simp: write_snapshot_def Let_def split: prod.splits sum.splits)
qed

lemma compact_frame:
  assumes "seal_keeps_open (se D)" "compact D c = (q, c')"
  shows "c_engine c' = c_engine c \<and> pull_frontier c' = pull_frontier c \<and> held c' = held c \<and>
    stalled c' = stalled c \<and> dropped c' = dropped c \<and>
    se_open (se D) (c_sealer c') = se_open (se D) (c_sealer c)"
  using assms(2) write_snapshot_frame [OF assms(1)]
  by (auto simp: compact_def Let_def split: sum.splits option.splits if_splits)

lemma receiving_accounts:
  assumes "merge_engine (en D) ab" "seal_keeps_open (se D)" "receiving D L Gs c"
  shows "accounted D L ab c"
  using assms(3)
proof (induction rule: receiving.induct)
  case (fresh e k s doc r)
  show ?case by (rule demo_accounted)
next
  case (peers c s)
  then show ?case by (simp add: accounted_def settled_def blockers_def)
next
  case (pulled c q c')
  then show ?case using merge_engine.pull_accounts [OF assms(1) refl] by blast
next
  case (verified c G g m c' g')
  show ?case
    using merge_engine.pull_verified_accounts [OF assms(1) refl verified.hyps(2) verified.IH
        verified.hyps(4)] by (rule conjunct2)
next
  case (retried c G g q' c' g')
  then have "settling D L ab c c'"
    using merge_engine.retry_all_settles [OF assms(1) refl] by (metis retry_stalled_def)
  then show ?case using retried.IH merge_engine.settling_accounted [OF assms(1)] by blast
next
  case (compacted c q'' c')
  then show ?case
    using compact_frame [OF assms(2) compacted.hyps(2)]
    by (simp add: accounted_def settled_def blockers_def)
qed

lemma accounted_subsumed:
  assumes "accounted D L ab c" "n < frontier_at (subsumed_frontier c) r"
  shows "(\<exists>b. se_open (se D) (c_sealer c) ECover (L (r, n)) = Inr b) \<or>
    (\<exists>pt. se_open (se D) (c_sealer c) EDelta (L (r, n)) = Inr pt \<and> ab (c_engine c) pt) \<or>
    (r, n) \<in> set (dropped c)"
  using assms by (auto simp: accounted_def settled_def subsumed_iff)

text \<open>C1: in every state of a receiving client, the subsumed frontier (which it publishes in a
  snapshot, and below which the log is collected) spans only dots that its engine has absorbed,
  that are cover markers, or that the gate dropped for good.  The client may have pulled, pulled
  verified with success, retried and compacted in any order, under changing gates, while peers
  wrote to the store, as long as a dot's log object never changed its content.  Verified
  pulls that failed half way and adopted snapshots are excepted.\<close>

theorem subsumed_frontier_sound:
  assumes "merge_engine (en D) ab" "seal_keeps_open (se D)" "receiving D L Gs c"
    and "n < frontier_at (subsumed_frontier c) r"
  shows "(\<exists>b. se_open (se D) (c_sealer c) ECover (L (r, n)) = Inr b) \<or>
    (\<exists>pt. se_open (se D) (c_sealer c) EDelta (L (r, n)) = Inr pt \<and> ab (c_engine c) pt) \<or>
    (r, n) \<in> set (dropped c)"
  by (rule accounted_subsumed [OF receiving_accounts [OF assms(1-3)] assms(4)])

lemma demo_receiving:
  "receiving demo_deps demo_log {accept_gate}
     (demo_client\<lparr>c_engine := [[7]], pull_frontier := [(''a'', 1)]\<rparr>)"
proof (rule receiving.verified [OF _ demo_view singletonI demo_pull_verified])
  show "receiving demo_deps demo_log {accept_gate} demo_client"
    unfolding demo_client_def by (rule receiving.fresh)
qed

theorem subsumed_frontier_sound_witness:
  "let c = demo_client\<lparr>c_engine := [[7]], pull_frontier := [(''a'', 1)]\<rparr> in
   (\<exists>b. passthrough_open () ECover (demo_log (''a'', 0)) = Inr b) \<or>
   (\<exists>pt. passthrough_open () EDelta (demo_log (''a'', 0)) = Inr pt \<and> bag_absorbed (c_engine c) pt) \<or>
   (''a'', 0) \<in> set (dropped c)"
  using subsumed_frontier_sound [OF _ _ demo_receiving, of bag_absorbed 0 "''a''"]
    bag_merge_engine passthrough_keeps_open
  by (simp add: demo_deps_def subsumed_frontier_def blockers_def frontier_at_def demo_client_def
      client_new_def passthrough_ops_def)

subsection \<open>A failing store\<close>

text \<open>The in-memory store, failing on one key.\<close>

definition flaky_ops :: "string \<Rightarrow> memory_blob blob_ops" where
  "flaky_ops bad =
     (memory_ops demo_hash)\<lparr>blob_get := (\<lambda>s k. if k = bad then Inl (Backend ''offline'')
                                                else memory_get demo_hash s k)\<rparr>"

definition flaky_deps :: "(bytes list, bytes, unit, memory_blob) deps" where
  "flaky_deps = demo_deps\<lparr>st := flaky_ops ''d/heads/b''\<rparr>"

definition flaky_client :: "(bytes list, unit, memory_blob) client" where
  "flaky_client = demo_client\<lparr>c_store := demo_store @ [(''d/heads/b'', [49])]\<rparr>"

lemma flaky_replicas: "list_replicas flaky_deps flaky_client = Inr [''a'', ''b'']"
  by (simp add: list_replicas_def demo_defs flaky_deps_def flaky_client_def flaky_ops_def
      parse_head_key_def strip_prefix_def map_filter_def)

lemma flaky_pull:
  "pull_verified flaky_deps accept_gate flaky_client () =
     (Inl (Blob (Backend ''offline'')), flaky_client\<lparr>pull_frontier := [(''a'', 1)]\<rparr>, ())"
  using flaky_replicas
  by (simp add: pull_verified_def scan_gap.simps read_log_def scan_one_def frontier_at_def
      demo_defs flaky_deps_def flaky_client_def flaky_ops_def nth_append)

text \<open>C2: a verified pull that fails half way loses what it has buffered.  The log of
  replica \<open>a\<close> has one delta; the head of replica \<open>b\<close> cannot be read.  The call fails, the
  frontier has moved past the delta of \<open>a\<close>, the engine has not merged it and no bucket
  holds it, the subsumed frontier claims it, and no later pull fetches it.\<close>

theorem failed_pull_loses_delta:
  "\<exists>c'. pull_verified flaky_deps accept_gate flaky_client () = (Inl (Blob (Backend ''offline'')), c', ()) \<and>
     read_log flaky_deps c' ''a'' 0 = Inr (Some (env_of EDelta [7], bytes_string (env_of EDelta [7]))) \<and>
     frontier_at (subsumed_frontier c') ''a'' = 1 \<and> \<not> needs_fetch c' (log_key ''d'' ''a'' 0) \<and>
     c_engine c' = [] \<and> dropped c' = [] \<and> held c' = [] \<and> stalled c' = []"
proof (intro exI conjI)
  show "pull_verified flaky_deps accept_gate flaky_client () =
      (Inl (Blob (Backend ''offline'')), flaky_client\<lparr>pull_frontier := [(''a'', 1)]\<rparr>, ())"
    by (rule flaky_pull)
  have "parse_log_key ''d'' (log_key ''d'' ''a'' 0) = Some (''a'', 0)"
    by (simp add: parse_log_key_def strip_prefix_def rsplit_once_def parse_u64_def
        is_ascii_digit_def dec_value_def digit_val_def)
  then show "\<not> needs_fetch (flaky_client\<lparr>pull_frontier := [(''a'', 1)]\<rparr>) (log_key ''d'' ''a'' 0)"
    by (simp add: needs_fetch_def flaky_client_def demo_client_def client_new_def frontier_at_def)
qed (simp_all add: read_log_def subsumed_frontier_def blockers_def frontier_at_def
    flaky_deps_def flaky_client_def flaky_ops_def demo_defs etag_of_def)

subsection \<open>Adopting a snapshot\<close>

definition log_absent ::
  "('e, 'x, 'k, 's) deps \<Rightarrow> ('e, 'k, 's) client \<Rightarrow> string \<Rightarrow> u64 \<Rightarrow> bool" where
  "log_absent D c r n \<longleftrightarrow>
     blob_get (st D) (c_store c) (log_key (c_doc c) r n) \<in> {Inr None, Inl Gone}"

lemma absent_run_spec:
  "n \<le> absent_run D c r cap n \<and>
   (\<forall>m. n \<le> m \<and> m < absent_run D c r cap n \<longrightarrow> m < cap \<and> log_absent D c r m)"
proof (induction D c r cap n rule: absent_run.induct)
  case (1 D c r cap n)
  let ?abs = "case blob_get (st D) (c_store c) (log_key (c_doc c) r n) of
                Inr v \<Rightarrow> v = None | Inl e \<Rightarrow> e = Gone"
  show ?case
  proof (cases "n < cap \<and> ?abs")
    case False
    have "absent_run D c r cap n = n" by (subst absent_run.simps) (rule if_not_P [OF False])
    then show ?thesis by auto
  next
    case True
    have eq: "absent_run D c r cap n = absent_run D c r cap (n + 1)"
      by (subst absent_run.simps) (rule if_P [OF True])
    have lt: "n < cap" and here: "log_absent D c r n"
      using True by (auto simp: log_absent_def split: sum.splits)
    have le: "n \<le> n + 1" using less_Suc_word [OF lt] by simp
    have split: "m = n \<or> n + 1 \<le> m" if "n \<le> m" for m
      using that lt by (simp add: unat_Suc_less word_le_nat_alt word_unat_eq_iff) arith
    show ?thesis
    proof (intro conjI allI impI)
      show "n \<le> absent_run D c r cap n" using "1.IH" [OF True] order_trans [OF le] eq by simp
      fix m assume m: "n \<le> m \<and> m < absent_run D c r cap n"
      show "m < cap" "log_absent D c r m"
        using split [of m] m "1.IH" [OF True] lt here eq by auto
    qed
  qed
qed

lemma purge_covered_simps [simp]:
  "c_store (purge_covered r n cap c) = c_store c" "c_doc (purge_covered r n cap c) = c_doc c"
  "pull_frontier (purge_covered r n cap c) = pull_frontier c"
  "c_engine (purge_covered r n cap c) = c_engine c"
  by (simp_all add: purge_covered_def)

lemma adopt_replica_skips_absent:
  assumes "adopt_replica D c r' claimed = (q, c')"
  shows "c_store c' = c_store c \<and> c_doc c' = c_doc c \<and>
    (\<forall>r n. frontier_at (pull_frontier c) r \<le> n \<and> n < frontier_at (pull_frontier c') r \<longrightarrow>
       log_absent D c r n)"
proof (cases "blob_get (st D) (c_store c) (head_key (c_doc c) r')")
  case (Inl e)
  then show ?thesis using assms by (auto simp: adopt_replica_def)
next
  case (Inr hv)
  define h where "h = observed_head hv"
  define n0 where "n0 = frontier_at (pull_frontier c) r'"
  define n1 where "n1 = absent_run D c r' (min claimed h) n0"
  have c': "c' = purge_covered r' n1 (min claimed h)
      (if n0 < n1 then c\<lparr>pull_frontier := bt_insert r' n1 (pull_frontier c)\<rparr> else c)"
    using assms unfolding adopt_replica_def Inr Let_def h_def n0_def n1_def sum.case
    by (simp only: prod.inject)
  have st: "c_store c' = c_store c" "c_doc c' = c_doc c"
    and pf: "pull_frontier c' = (if n0 < n1 then bt_insert r' n1 (pull_frontier c) else pull_frontier c)"
    by (simp_all add: c')
  have run: "n0 \<le> m \<Longrightarrow> m < n1 \<Longrightarrow> log_absent D c r' m" for m
    using absent_run_spec [of n0 D c r' "min claimed h"] unfolding n1_def by blast
  have skip: "log_absent D c r n"
    if le: "frontier_at (pull_frontier c) r \<le> n" and less: "n < frontier_at (pull_frontier c') r" for r n
  proof -
    have "n0 < n1 \<and> r = r'" using le less by (cases "n0 < n1"; cases "r = r'") (simp_all add: pf)
    then show ?thesis using run [of n] le less by (simp add: pf n0_def)
  qed
  show ?thesis by (intro conjI allI impI st) (rule skip; simp)
qed

lemma adopt_replicas_skips_absent:
  assumes "adopt_replicas D f c = (q, c')"
  shows "\<forall>r n. frontier_at (pull_frontier c) r \<le> n \<and> n < frontier_at (pull_frontier c') r \<longrightarrow>
       log_absent D c r n"
  using assms
proof (induction D f c rule: adopt_replicas.induct)
  case (2 D r' claimed f c)
  obtain q1 c1 where one: "adopt_replica D c r' claimed = (q1, c1)" by fastforce
  note skip = adopt_replica_skips_absent [OF one]
  have same: "log_absent D c1 r n = log_absent D c r n" for r n
    using skip by (simp add: log_absent_def)
  show ?case
  proof (cases q1)
    case (Inl e)
    then show ?thesis using 2 one skip by auto
  next
    case (Inr u)
    have rest: "adopt_replicas D f c1 = (q, c')" using "2.prems" one Inr by simp
    show ?thesis
    proof (intro allI impI)
      fix r n
      assume n: "frontier_at (pull_frontier c) r \<le> n \<and> n < frontier_at (pull_frontier c') r"
      show "log_absent D c r n"
        using "2.IH" [OF one [symmetric] Inr rest] skip n same
        by (cases "n < frontier_at (pull_frontier c1) r") auto
    qed
  qed
qed auto

text \<open>C3: a snapshot, however inflated the coverage it claims, never makes the client skip a
  log object that is still in the store: the pull frontier only advances over counters
  whose objects are absent.\<close>

theorem adopt_never_skips_present:
  assumes "adopt_snapshot_baseline D gate c = (q, c')"
    and "frontier_at (pull_frontier c) r \<le> n" "n < frontier_at (pull_frontier c') r"
  shows "blob_get (st D) (c_store c) (log_key (c_doc c) r n) \<in> {Inr None, Inl Gone}"
proof -
  have "log_absent D c r n"
  proof (cases "pull_frontier c' = pull_frontier c")
    case True
    then show ?thesis using assms(2,3) by simp
  next
    case False
    then obtain f e where "adopt_replicas D f (c\<lparr>c_engine := e\<rparr>) = (q, c')"
      using assms(1) by (auto simp: adopt_snapshot_baseline_def
          split: sum.splits option.splits prod.splits if_splits)
    then show ?thesis
      using adopt_replicas_skips_absent assms(2,3) by (fastforce simp: log_absent_def)
  qed
  then show ?thesis by (simp add: log_absent_def)
qed

definition covering :: "u64 \<Rightarrow> bytes" where
  "covering n = env_of ESnapshot (encode_frontier [(''a'', n)] @ [9])"

definition reaped_client :: "(bytes list, unit, memory_blob) client" where
  "reaped_client = demo_client\<lparr>c_store := [(''d/heads/a'', [49]), (''d/snapshot'', covering 7)]\<rparr>"

lemma decode_covering: "decode_frontier (encode_frontier [(''a'', n)] @ r) = Some ([(''a'', n)], r)"
proof -
  have "decode_entries (length [(''a'', n)]) (concat (map encode_entry [(''a'', n)]) @ r) [] =
      Some ([(''a'', n)], r)"
    by (subst decode_entries_encode) (simp_all add: is_str_def string_bytes_def)
  then show ?thesis by (simp add: decode_frontier_def encode_frontier_def)
qed

lemma open_covering:
  "passthrough_open () ESnapshot (covering n) = Inr (encode_frontier [(''a'', n)] @ [9])"
  by (simp add: passthrough_open_def covering_def env_of_def nth_append)

lemma reaped_adopt:
  "adopt_snapshot_baseline demo_deps (\<lambda>e b. Accept) reaped_client =
     (Inr (), reaped_client\<lparr>c_engine := [[9]], pull_frontier := [(''a'', 1)]\<rparr>)"
  by (simp add: adopt_snapshot_baseline_def reaped_client_def adopt_replica_def purge_covered_def
      demo_defs(1-4,8-14) passthrough_ops_def open_covering decode_covering observed_head_def
      absent_run.simps frontier_at_def bt_retain_def)

theorem adopt_never_skips_present_witness:
  "blob_get (memory_ops demo_hash) (c_store reaped_client) (log_key ''d'' ''a'' 0) \<in> {Inr None, Inl Gone}"
  using adopt_never_skips_present [OF reaped_adopt, of "''a''" 0]
  by (simp add: frontier_at_def reaped_client_def demo_client_def client_new_def demo_deps_def)

definition held_client :: "(bytes list, unit, memory_blob) client" where
  "held_client = demo_client\<lparr>
     c_store := [(''d/heads/a'', [50]), (''d/log/a/0'', env_of EDelta [7]),
                 (''d/log/a/1'', env_of EDelta [8]), (''d/snapshot'', covering 1)],
     c_engine := [[7]], pull_frontier := [(''a'', 2)], held := [(''a'', 1)]\<rparr>"

text \<open>Adopting a snapshot forgets held deltas that the snapshot does not cover.  The
  client holds the delta \<open>a/1\<close>, which is in the store; the snapshot covers only \<open>a/0\<close>.
  After the adoption the delta is neither held, stalled, dropped nor absorbed, and the
  subsumed frontier, which stopped below it before, spans it.\<close>

theorem adopt_forgets_held_delta:
  "frontier_at (subsumed_frontier held_client) ''a'' = 1 \<and>
   (\<exists>c'. adopt_snapshot_baseline demo_deps (\<lambda>e b. Accept) held_client = (Inr (), c') \<and>
      read_log demo_deps c' ''a'' 1 = Inr (Some (env_of EDelta [8], bytes_string (env_of EDelta [8]))) \<and>
      frontier_at (subsumed_frontier c') ''a'' = 2 \<and> \<not> bag_absorbed (c_engine c') [8] \<and>
      held c' = [] \<and> stalled c' = [] \<and> dropped c' = [])"
proof (intro exI conjI)
  show "adopt_snapshot_baseline demo_deps (\<lambda>e b. Accept) held_client =
      (Inr (), held_client\<lparr>c_engine := [[9], [7]], held := []\<rparr>)"
    by (simp add: adopt_snapshot_baseline_def held_client_def adopt_replica_def purge_covered_def
        demo_defs(1-4,8-14) passthrough_ops_def open_covering decode_covering observed_head_def
        absent_run.simps [of _ _ _ 1 2] frontier_at_def bt_retain_def)
qed (simp_all add: read_log_def subsumed_frontier_def blockers_def frontier_at_def clamp_dot_def
    held_client_def demo_defs etag_of_def log_key_def bag_absorbed_def)

end
