(* ===== verification/Hlc.thy ===== *)
theory Hlc
  imports Prelude "HOL-Library.Signed_Division"
begin

text \<open>
  The hybrid logical clock of \<open>packages/openom-data-model/src/time.rs\<close> and the engine's
  clock \<open>HlcClock\<close> of \<open>packages/openom-data-tree/src/lib.rs\<close>: the canonical
  constructor, the civil-date conversions, the 27-character wire form and its parser, and
  the send and receive rules.  An \<open>i64\<close> of epoch milliseconds is the integer it denotes and
  a \<open>u32\<close> the natural number; the additions of the constructor and of the clock, which take
  arbitrary values of the types, wrap around as they do in a release build.  The civil-date
  arithmetic does not wrap: it starts from a division of the milliseconds by 86400000, or
  from the four-digit year of the parser.  Rust's truncating division is \<open>sdiv\<close>.
\<close>

record Hlc =
  hlc_millis :: int
  hlc_logical :: nat

definition LOGICAL_PER_MILLI :: nat where
  "LOGICAL_PER_MILLI = 1000"

text \<open>Signed 64-bit wrap-around: the number between \<open>i64::MIN\<close> and \<open>i64::MAX\<close> congruent to the
  sum modulo \<open>2 ^ 64\<close>.\<close>

definition wrap64 :: "int \<Rightarrow> int" where
  "wrap64 i = (i + 2 ^ 63) mod 2 ^ 64 - 2 ^ 63"

lemma wrap64_id: "- (2 ^ 63) \<le> i \<Longrightarrow> i < 2 ^ 63 \<Longrightarrow> wrap64 i = i"
  by (simp add: wrap64_def)

lemma wrap64_range: "- (2 ^ 63) \<le> wrap64 i \<and> wrap64 i < 2 ^ 63"
proof -
  have "(i + 2 ^ 63) mod 2 ^ 64 < (2 ^ 64 :: int)" "0 \<le> (i + 2 ^ 63) mod (2 ^ 64 :: int)" by simp_all
  then show ?thesis by (simp add: wrap64_def)
qed

lemma wrap64_overflow: "wrap64 (2 ^ 63 - 1 + 1) = - (2 ^ 63)"
  by (simp add: wrap64_def)

definition hlc_new :: "int \<Rightarrow> nat \<Rightarrow> Hlc" where
  "hlc_new millis logical =
     \<lparr>hlc_millis = wrap64 (millis + int (logical div LOGICAL_PER_MILLI)),
      hlc_logical = logical mod LOGICAL_PER_MILLI\<rparr>"

text \<open>The derived order compares the milliseconds first.\<close>

definition hlc_less :: "Hlc \<Rightarrow> Hlc \<Rightarrow> bool" where
  "hlc_less a b \<longleftrightarrow>
     hlc_millis a < hlc_millis b \<or> hlc_millis a = hlc_millis b \<and> hlc_logical a < hlc_logical b"

definition hlc_canonical :: "Hlc \<Rightarrow> bool" where
  "hlc_canonical h \<longleftrightarrow> hlc_logical h < LOGICAL_PER_MILLI"

subsection \<open>Civil dates\<close>

definition civil_from_days :: "int \<Rightarrow> int \<times> int \<times> int" where
  "civil_from_days z0 =
     (let z = z0 + 719468;
          era = (if 0 \<le> z then z else z - 146096) sdiv 146097;
          doe = z - era * 146097;
          yoe = (doe - doe sdiv 1460 + doe sdiv 36524 - doe sdiv 146096) sdiv 365;
          y = yoe + era * 400;
          doy = doe - (365 * yoe + yoe sdiv 4 - yoe sdiv 100);
          mp = (5 * doy + 2) sdiv 153;
          d = doy - (153 * mp + 2) sdiv 5 + 1;
          m = (if mp < 10 then mp + 3 else mp - 9)
      in (if m \<le> 2 then y + 1 else y, m, d))"

definition days_from_civil :: "int \<Rightarrow> int \<Rightarrow> int \<Rightarrow> int" where
  "days_from_civil y0 m d =
     (let y = (if m \<le> 2 then y0 - 1 else y0);
          era = (if 0 \<le> y then y else y - 399) sdiv 400;
          yoe = y - era * 400;
          doy = (153 * (if 2 < m then m - 3 else m + 9) + 2) sdiv 5 + d - 1;
          doe = yoe * 365 + yoe sdiv 4 - yoe sdiv 100 + doy
      in era * 146097 + doe - 719468)"

definition civil_from_millis :: "int \<Rightarrow> int \<times> int \<times> int \<times> int \<times> int \<times> int \<times> int" where
  "civil_from_millis millis =
     (let ms = millis mod 1000;
          secs = millis div 1000;
          days = secs div 86400;
          sod = secs mod 86400;
          (y, mo, d) = civil_from_days days
      in (y, mo, d, sod div 3600, sod mod 3600 div 60, sod mod 60, ms))"

text \<open>Truncating division of a non-negative number, and the era trick: it is a floor.\<close>

lemma sdiv_nonneg: "0 \<le> a \<Longrightarrow> 0 < b \<Longrightarrow> a sdiv b = (a :: int) div b"
  by (simp add: signed_divide_int_def sgn_if)

lemma sdiv_era:
  assumes "0 < (b :: int)" and k: "k = b - 1"
  shows "(if 0 \<le> a then a else a - k) sdiv b = a div b"
proof (cases "0 \<le> a")
  case True
  then show ?thesis using assms by (simp add: sdiv_nonneg)
next
  case False
  then have neg: "(a - (b - 1)) sdiv b = - ((b - 1 - a) div b)"
    using assms by (simp add: signed_divide_int_def)
  have "(b - 1 - a) div b = - (a div b)"
  proof -
    have m: "a mod b = a - b * (a div b)" by (simp add: minus_mult_div_eq_mod)
    have eq: "b - 1 - a = (b - 1 - a mod b) + b * (- (a div b))"
      unfolding m by (simp add: algebra_simps)
    have "(b - 1 - a mod b) div b = 0"
      using assms pos_mod_bound [OF assms(1), of a] pos_mod_sign [OF assms(1), of a]
      by (intro div_pos_pos_trivial) linarith+
    then have "((b - 1 - a mod b) + b * (- (a div b))) div b = - (a div b)"
      using assms by (subst div_mult_self2) simp_all
    then show ?thesis by (simp only: eq [symmetric])
  qed
  with neg False show ?thesis by (simp add: k)
qed

text \<open>The year of the era and the day of the year.\<close>

lemma year_of_era:
  fixes doe :: int
  assumes "0 \<le> doe" "doe < 146097"
  defines "yoe \<equiv> (doe - doe div 1460 + doe div 36524 - doe div 146096) div 365"
  defines "doy \<equiv> doe - (365 * yoe + yoe div 4 - yoe div 100)"
  shows "0 \<le> yoe \<and> yoe < 400 \<and> 0 \<le> doy \<and> doy \<le> 365"
proof (cases "doe = 146096")
  case True
  then show ?thesis by (simp add: yoe_def doy_def)
next
  case False
  define c where "c = doe div 36524"
  define r where "r = doe mod 36524"
  define g where "g = (24 * c + r) div 1460"
  define k where "k = (r - g) div 365"
  have doe: "doe = 36524 * c + r" by (simp add: c_def r_def)
  have r: "0 \<le> r" "r < 36524" by (simp_all add: r_def)
  have c: "0 \<le> c" "c \<le> 3" using assms(1,2) False by (simp_all add: c_def) 
  have last: "doe div 146096 = 0" using assms(1,2) False by simp
  have "doe = 1460 * (25 * c) + (24 * c + r)" using doe by simp
  then have q: "doe div 1460 = 25 * c + g" by (simp add: g_def)
  have "doe - doe div 1460 + doe div 36524 - doe div 146096 = 365 * (100 * c) + (r - g)"
    using q last doe c_def by linarith
  then have yoe: "yoe = 100 * c + k" by (simp add: yoe_def k_def)
  have g: "1460 * g \<le> 24 * c + r" "24 * c + r < 1460 * g + 1460" "0 \<le> g"
    using r c by (simp_all add: g_def) 
  have k: "365 * k \<le> r - g" "r - g < 365 * k + 365" by (simp_all add: k_def)
  have k4: "4 * g - 1 \<le> k" "k \<le> 4 * g + 3" using g k c r by linarith+
  have k0: "0 \<le> k" using g k r c by linarith
  have k99: "k \<le> 99" using g k r c by linarith
  have yoe4: "yoe div 4 = 25 * c + k div 4" by (simp add: yoe)
  have yoe100: "yoe div 100 = c" using k0 k99 by (simp add: yoe)
  have doy: "doy = r - 365 * k - k div 4" by (simp add: doy_def yoe4 yoe100 doe) (simp add: yoe)
  show ?thesis
  proof (cases "k = 4 * g - 1")
    case True
    then have "k div 4 = g - 1" by simp
    then show ?thesis using doy k k0 k99 c yoe by linarith
  next
    case False
    then have "k div 4 = g" using k4 by linarith
    then show ?thesis using doy k k0 k99 c yoe by linarith
  qed
qed

text \<open>With floors for the truncating divisions, which is what they are on the ranges reached.\<close>

lemma civil_from_days_floor:
  fixes z0 :: int
  defines "z \<equiv> z0 + 719468"
  defines "era \<equiv> z div 146097"
  defines "doe \<equiv> z mod 146097"
  defines "yoe \<equiv> (doe - doe div 1460 + doe div 36524 - doe div 146096) div 365"
  defines "doy \<equiv> doe - (365 * yoe + yoe div 4 - yoe div 100)"
  defines "mp \<equiv> (5 * doy + 2) div 153"
  shows "civil_from_days z0 =
      (if mp < 10 then (yoe + era * 400, mp + 3, doy - (153 * mp + 2) div 5 + 1)
       else (yoe + era * 400 + 1, mp - 9, doy - (153 * mp + 2) div 5 + 1))"
    and "0 \<le> yoe" "yoe < 400" "0 \<le> doy" "doy \<le> 365"
proof -
  have doe: "0 \<le> doe" "doe < 146097" by (simp_all add: doe_def)
  show bounds: "0 \<le> yoe" "yoe < 400" "0 \<le> doy" "doy \<le> 365"
    using year_of_era [OF doe] by (simp_all add: yoe_def doy_def)
  have era: "(if 0 \<le> z then z else z - 146096) sdiv 146097 = era"
    unfolding era_def by (rule sdiv_era) simp_all
  have doe': "z - era * 146097 = doe" by (simp add: doe_def era_def minus_div_mult_eq_mod)
  have "doe div 1460 \<le> doe" using doe by simp
  moreover have "0 \<le> doe div 36524 - doe div 146096"
    using doe by (simp add: zdiv_mono2)
  ultimately have n: "0 \<le> doe - doe div 1460 + doe div 36524 - doe div 146096" by linarith
  have yoe': "(doe - doe sdiv 1460 + doe sdiv 36524 - doe sdiv 146096) sdiv 365 = yoe"
    using doe n by (simp add: sdiv_nonneg yoe_def)
  have doy': "doe - (365 * yoe + yoe sdiv 4 - yoe sdiv 100) = doy"
    using bounds by (simp add: sdiv_nonneg doy_def)
  have mp': "(5 * doy + 2) sdiv 153 = mp" using bounds by (simp add: sdiv_nonneg mp_def)
  have mp: "0 \<le> mp" "mp \<le> 11" using bounds by (auto simp: mp_def)
  have "(153 * mp + 2) sdiv 5 = (153 * mp + 2) div 5" using mp by (simp add: sdiv_nonneg)
  then show "civil_from_days z0 =
      (if mp < 10 then (yoe + era * 400, mp + 3, doy - (153 * mp + 2) div 5 + 1)
       else (yoe + era * 400 + 1, mp - 9, doy - (153 * mp + 2) div 5 + 1))"
    using mp unfolding civil_from_days_def z_def [symmetric] Let_def era doe' yoe' doy' mp' by auto
qed

text \<open>The day number survives the trip through the calendar, for every day there is.\<close>

lemma days_civil_days:
  assumes "civil_from_days z = (y, m, d)"
  shows "days_from_civil y m d = z \<and> 1 \<le> m \<and> m \<le> 12 \<and> 1 \<le> d \<and> d \<le> 31"
proof -
  define era where "era = (z + 719468) div 146097"
  define doe where "doe = (z + 719468) mod 146097"
  define yoe where "yoe = (doe - doe div 1460 + doe div 36524 - doe div 146096) div 365"
  define doy where "doy = doe - (365 * yoe + yoe div 4 - yoe div 100)"
  define mp where "mp = (5 * doy + 2) div 153"
  note cf = civil_from_days_floor [of z, folded era_def doe_def, folded yoe_def, folded doy_def, folded mp_def]
  have yoe: "0 \<le> yoe" "yoe < 400" and doy: "0 \<le> doy" "doy \<le> 365"
    using cf(2-5) by blast+
  have mp: "0 \<le> mp" "mp \<le> 11" "153 * mp \<le> 5 * doy + 2" "5 * doy + 2 < 153 * mp + 153"
    using doy by (auto simp: mp_def)
  define s where "s = (153 * mp + 2) div 5"
  have s: "0 \<le> s" "s \<le> doy" "doy \<le> s + 30" using mp by (simp_all add: s_def; linarith)+
  define y1 where "y1 = yoe + era * 400"
  have res: "(y, m, d) = (if mp < 10 then (y1, mp + 3, doy - s + 1) else (y1 + 1, mp - 9, doy - s + 1))"
    using assms cf(1) by (auto simp: s_def y1_def split: if_splits)
  have y: "(if m \<le> 2 then y - 1 else y) = y1" "(if 2 < m then m - 3 else m + 9) = mp"
    "d = doy - s + 1" "1 \<le> m" "m \<le> 12"
    using res mp by (auto split: if_splits)
  have era: "(if 0 \<le> y1 then y1 else y1 - 399) sdiv 400 = era"
    using yoe by (subst sdiv_era) (simp_all add: y1_def)
  have sdivs: "(153 * mp + 2) sdiv 5 = s" "yoe sdiv 4 = yoe div 4" "yoe sdiv 100 = yoe div 100"
    using mp yoe by (simp_all add: sdiv_nonneg s_def)
  have "days_from_civil y m d = era * 146097 + (yoe * 365 + yoe div 4 - yoe div 100 + (s + d - 1)) - 719468"
    unfolding days_from_civil_def Let_def y(1,2) era sdivs by (simp add: y1_def sdivs)
  also have "\<dots> = era * 146097 + doe - 719468" by (simp add: y(3) doy_def)
  also have "\<dots> = z" by (simp add: era_def doe_def)
  finally show ?thesis using y(3-5) s by simp
qed

subsection \<open>The wire form\<close>

definition pad :: "nat \<Rightarrow> nat \<Rightarrow> string" where
  "pad w n = replicate (w - length (nat_to_dec n)) (CHR ''0'') @ nat_to_dec n"

definition pad_int :: "nat \<Rightarrow> int \<Rightarrow> string" where
  "pad_int w i = (if i < 0 then CHR ''-'' # pad (w - 1) (nat (- i)) else pad w (nat i))"

definition WIRE_LEN :: nat where
  "WIRE_LEN = 27"

definition hlc_display :: "Hlc \<Rightarrow> string" where
  "hlc_display h =
     (case civil_from_millis (hlc_millis h) of (y, mo, d, hr, mi, s, ms) \<Rightarrow>
        pad_int 4 y @ ''-'' @ pad 2 (nat mo) @ ''-'' @ pad 2 (nat d) @ ''T'' @ pad 2 (nat hr) @ '':'' @
        pad 2 (nat mi) @ '':'' @ pad 2 (nat s) @ ''.'' @ pad 3 (nat ms) @ pad 3 (hlc_logical h) @ ''Z'')"

definition num_at :: "string \<Rightarrow> nat \<Rightarrow> nat \<Rightarrow> int option" where
  "num_at s lo hi =
     (let slice = take (hi - lo) (drop lo s)
      in if list_all is_ascii_digit slice then Some (int (dec_value slice)) else None)"

definition hlc_layout :: "string \<Rightarrow> bool" where
  "hlc_layout s \<longleftrightarrow>
     length s = WIRE_LEN \<and> s ! 4 = CHR ''-'' \<and> s ! 7 = CHR ''-'' \<and> s ! 10 = CHR ''T'' \<and>
     s ! 13 = CHR '':'' \<and> s ! 16 = CHR '':'' \<and> s ! 19 = CHR ''.'' \<and> s ! 26 = CHR ''Z''"

definition hlc_of_fields ::
  "int \<Rightarrow> int \<Rightarrow> int \<Rightarrow> int \<Rightarrow> int \<Rightarrow> int \<Rightarrow> int \<Rightarrow> int \<Rightarrow> Hlc option" where
  "hlc_of_fields y mo d h mi sec ms logical =
     (if \<not> (1 \<le> mo \<and> mo \<le> 12) \<or> \<not> (1 \<le> d \<and> d \<le> 31) \<or> 23 < h \<or> 59 < mi \<or> 59 < sec \<or> 999 < ms
      then None
      else let days = days_from_civil y mo d
           in if civil_from_days days \<noteq> (y, mo, d) then None
              else Some \<lparr>hlc_millis = (days * 86400 + h * 3600 + mi * 60 + sec) * 1000 + ms,
                         hlc_logical = nat logical\<rparr>)"

definition hlc_parse :: "string \<Rightarrow> Hlc option" where
  "hlc_parse s =
     (if \<not> hlc_layout s then None
      else case (num_at s 0 4, num_at s 5 7, num_at s 8 10, num_at s 11 13, num_at s 14 16,
                 num_at s 17 19, num_at s 20 23, num_at s 23 26) of
             (Some y, Some mo, Some d, Some h, Some mi, Some sec, Some ms, Some logical) \<Rightarrow>
               hlc_of_fields y mo d h mi sec ms logical
           | _ \<Rightarrow> None)"

lemma length_nat_to_dec: "n < 10 ^ w \<Longrightarrow> 0 < w \<Longrightarrow> length (nat_to_dec n) \<le> w"
proof (induction n arbitrary: w rule: nat_to_dec.induct)
  case (1 n)
  show ?case
  proof (cases "n < 10")
    case True
    then show ?thesis using 1 by (subst nat_to_dec.simps) simp
  next
    case False
    then obtain v where w: "w = Suc v" "0 < v" using 1 by (cases w; cases "w = 1") auto
    have "n div 10 < 10 ^ v" using 1 w by auto
    then have "length (nat_to_dec (n div 10)) \<le> v" using 1 False w by blast
    then show ?thesis using False w by (subst nat_to_dec.simps) simp
  qed
qed

lemma dec_value_replicate: "dec_value (replicate k (CHR ''0'') @ s) = dec_value s"
  by (induction k) (simp_all add: dec_value_def digit_val_def)

lemma pad_facts:
  assumes "n < 10 ^ w" "0 < w"
  shows "length (pad w n) = w" "list_all is_ascii_digit (pad w n)" "dec_value (pad w n) = n"
  using length_nat_to_dec [OF assms]
  by (simp_all add: pad_def dec_value_replicate list_all_iff is_ascii_digit_def [of "CHR ''0''"])
    (use nat_to_dec_digits in \<open>auto simp: list_all_iff is_ascii_digit_def\<close>)

lemma dec_value_snoc: "dec_value (s @ [c]) = dec_value s * 10 + digit_val c"
  by (simp add: dec_value_def)

lemma digit_val_bound: "is_ascii_digit c \<Longrightarrow> digit_val c < 10"
  by (auto simp: is_ascii_digit_def digit_val_def)

lemma digit_val_inj: "is_ascii_digit c \<Longrightarrow> is_ascii_digit d \<Longrightarrow> digit_val c = digit_val d \<Longrightarrow> c = d"
proof -
  assume "is_ascii_digit c" "is_ascii_digit d" "digit_val c = digit_val d"
  then have "(of_char c :: nat) = of_char d" unfolding is_ascii_digit_def digit_val_def by linarith
  then show "c = d" by simp
qed

lemma dec_value_bound: "list_all is_ascii_digit s \<Longrightarrow> dec_value s < 10 ^ length s"
proof (induction s rule: rev_induct)
  case (snoc c s)
  then show ?case using digit_val_bound [of c] by (simp add: dec_value_snoc)
qed (simp add: dec_value_def)

lemma dec_value_inj:
  "length s = length t \<Longrightarrow> list_all is_ascii_digit s \<Longrightarrow> list_all is_ascii_digit t \<Longrightarrow>
   dec_value s = dec_value t \<Longrightarrow> s = t"
proof (induction s arbitrary: t rule: rev_induct)
  case (snoc c s)
  then obtain u d where t: "t = u @ [d]" by (cases t rule: rev_cases) auto
  have eq: "dec_value s * 10 + digit_val c = dec_value u * 10 + digit_val d"
    using snoc.prems(4) by (simp add: dec_value_snoc t)
  have "digit_val c < 10" "digit_val d < 10" using snoc.prems(2,3) by (simp_all add: t digit_val_bound)
  then have "digit_val c = digit_val d \<and> dec_value s = dec_value u" using eq by presburger
  then show ?case using snoc t by (auto intro: digit_val_inj)
qed simp

lemma pad_dec_value: "list_all is_ascii_digit s \<Longrightarrow> s \<noteq> [] \<Longrightarrow> pad (length s) (dec_value s) = s"
  using pad_facts [of "dec_value s" "length s"] dec_value_bound [of s] by (intro dec_value_inj) simp_all

text \<open>A wire string is its fields, and reading it gives the fields back.\<close>

definition wire ::
  "nat \<Rightarrow> nat \<Rightarrow> nat \<Rightarrow> nat \<Rightarrow> nat \<Rightarrow> nat \<Rightarrow> nat \<Rightarrow> nat \<Rightarrow> string" where
  "wire y mo d h mi s ms c =
     pad 4 y @ ''-'' @ pad 2 mo @ ''-'' @ pad 2 d @ ''T'' @ pad 2 h @ '':'' @
     pad 2 mi @ '':'' @ pad 2 s @ ''.'' @ pad 3 ms @ pad 3 c @ ''Z''"

lemma parse_wire:
  assumes "y < 10000" "mo < 100" "d < 100" "h < 100" "mi < 100" "s < 100" "ms < 1000" "c < 1000"
  shows "hlc_parse (wire y mo d h mi s ms c) =
    hlc_of_fields (int y) (int mo) (int d) (int h) (int mi) (int s) (int ms) (int c)"
proof -
  have w4: "length (pad 4 y) = 4" "list_all is_ascii_digit (pad 4 y)" "dec_value (pad 4 y) = y"
    using assms(1) by (simp_all add: pad_facts)
  have w2: "length (pad 2 n) = 2" "list_all is_ascii_digit (pad 2 n)" "dec_value (pad 2 n) = n"
    if "n < 100" for n
    using that by (simp_all add: pad_facts)
  have w3: "length (pad 3 n) = 3" "list_all is_ascii_digit (pad 3 n)" "dec_value (pad 3 n) = n"
    if "n < 1000" for n
    using that by (simp_all add: pad_facts)
  note facts = w4 w2 [OF assms(2)] w2 [OF assms(3)] w2 [OF assms(4)] w2 [OF assms(5)]
    w2 [OF assms(6)] w3 [OF assms(7)] w3 [OF assms(8)]
  have "hlc_layout (wire y mo d h mi s ms c)"
    using facts by (simp add: hlc_layout_def wire_def WIRE_LEN_def nth_append)
  then show ?thesis
    using facts by (simp add: hlc_parse_def num_at_def wire_def)
qed

lemma split_at: "k \<le> length s \<Longrightarrow> s = take k s @ drop k s"
  by simp

lemma layout_wire:
  assumes lay: "hlc_layout s" and nums: "num_at s 0 4 = Some y" "num_at s 5 7 = Some mo"
    "num_at s 8 10 = Some d" "num_at s 11 13 = Some h" "num_at s 14 16 = Some mi"
    "num_at s 17 19 = Some sec" "num_at s 20 23 = Some ms" "num_at s 23 26 = Some c"
  shows "s = wire (nat y) (nat mo) (nat d) (nat h) (nat mi) (nat sec) (nat ms) (nat c) \<and>
    0 \<le> y \<and> y < 10000 \<and> 0 \<le> mo \<and> 0 \<le> d \<and> 0 \<le> h \<and> 0 \<le> mi \<and> 0 \<le> sec \<and> 0 \<le> ms \<and> 0 \<le> c \<and> c < 1000"
proof -
  have len: "length s = 27" using lay by (simp add: hlc_layout_def WIRE_LEN_def)
  have one: "take 1 (drop k s) = [s ! k]" if "k < 27" for k
    using that len by (simp add: take_Suc_conv_app_nth flip: Cons_nth_drop_Suc)
  have piece: "drop lo s = pad (hi - lo) (nat v) @ drop hi s \<and> 0 \<le> v \<and> v < 10 ^ (hi - lo)"
    if "num_at s lo hi = Some v" "lo < hi" "hi \<le> 27" for lo hi v
  proof -
    let ?p = "take (hi - lo) (drop lo s)"
    have p: "list_all is_ascii_digit ?p" "v = int (dec_value ?p)" "length ?p = hi - lo"
      using that len by (auto simp: num_at_def Let_def split: if_splits)
    then have "pad (hi - lo) (nat v) = ?p" using that(2) pad_dec_value [of ?p] by force
    moreover have "?p @ drop hi s = drop lo s"
      using that(2) append_take_drop_id [of "hi - lo" "drop lo s"] by simp
    ultimately show ?thesis using p dec_value_bound [OF p(1)] by simp
  qed
  have sep: "drop k s = (s ! k) # drop (Suc k) s" if "k < 27" for k
    using that len by (simp add: Cons_nth_drop_Suc)
  have ch: "s ! 4 = CHR ''-''" "s ! 7 = CHR ''-''" "s ! 10 = CHR ''T''" "s ! 13 = CHR '':''"
    "s ! 16 = CHR '':''" "s ! 19 = CHR ''.''" "s ! 26 = CHR ''Z''"
    using lay by (simp_all add: hlc_layout_def)
  have d26: "drop 26 s = ''Z''" using sep [of 26] ch len by simp
  have d19: "drop 19 s = ''.'' @ pad 3 (nat ms) @ pad 3 (nat c) @ ''Z''"
    using sep [of 19] ch piece [OF nums(7)] piece [OF nums(8)] d26 by simp
  have d13: "drop 13 s = '':'' @ pad 2 (nat mi) @ '':'' @ pad 2 (nat sec) @ drop 19 s"
    using sep [of 13] sep [of 16] ch piece [OF nums(5)] piece [OF nums(6)] by simp
  have d7: "drop 7 s = ''-'' @ pad 2 (nat d) @ ''T'' @ pad 2 (nat h) @ drop 13 s"
    using sep [of 7] sep [of 10] ch piece [OF nums(3)] piece [OF nums(4)] by simp
  have d0: "drop 0 s = pad 4 (nat y) @ ''-'' @ pad 2 (nat mo) @ drop 7 s"
    using sep [of 4] ch piece [OF nums(1)] piece [OF nums(2)] by simp
  have "drop 0 s = wire (nat y) (nat mo) (nat d) (nat h) (nat mi) (nat sec) (nat ms) (nat c)"
    unfolding d0 d7 d13 d19 wire_def by simp
  moreover have "0 \<le> y" "y < 10000" "0 \<le> mo" "0 \<le> d" "0 \<le> h" "0 \<le> mi" "0 \<le> sec"
    "0 \<le> ms" "0 \<le> c" "c < 1000"
    using piece [OF nums(1)] piece [OF nums(2)] piece [OF nums(3)] piece [OF nums(4)]
      piece [OF nums(5)] piece [OF nums(6)] piece [OF nums(7)] piece [OF nums(8)] by simp_all
  ultimately show ?thesis by simp
qed

lemma rebuild_millis:
  fixes m :: int
  assumes "m = S * 1000 + ms" "S = D * 86400 + s" "s = H * 3600 + r" "r = M * 60 + q" "q = sec"
  shows "(D * 86400 + H * 3600 + M * 60 + sec) * 1000 + ms = m"
  using assms by simp

lemma of_fields_iff:
  assumes "0 \<le> h" "0 \<le> mi" "0 \<le> sec" "0 \<le> ms" "0 \<le> c" "c < 1000"
  shows "hlc_of_fields y mo d h mi sec ms c = Some t \<longleftrightarrow>
    civil_from_millis (hlc_millis t) = (y, mo, d, h, mi, sec, ms) \<and> hlc_logical t = nat c"
proof
  assume "hlc_of_fields y mo d h mi sec ms c = Some t"
  then have b: "h \<le> 23" "mi \<le> 59" "sec \<le> 59" "ms \<le> 999"
    and days: "civil_from_days (days_from_civil y mo d) = (y, mo, d)"
    and t: "t = \<lparr>hlc_millis = (days_from_civil y mo d * 86400 + h * 3600 + mi * 60 + sec) * 1000 + ms,
      hlc_logical = nat c\<rparr>"
    by (auto simp: hlc_of_fields_def Let_def split: if_splits)
  define sod where "sod = h * 3600 + mi * 60 + sec"
  have sod: "0 \<le> sod" "sod < 86400" using assms b unfolding sod_def by linarith+
  have h: "sod div 3600 = h" using assms b by (intro int_div_pos_eq [of _ _ _ "mi * 60 + sec"]) (simp_all add: sod_def)
  have r: "sod mod 3600 = mi * 60 + sec"
    using assms b by (intro int_mod_pos_eq [of _ _ h]) (simp_all add: sod_def)
  have mi: "sod mod 3600 div 60 = mi"
    unfolding r using assms b by (intro int_div_pos_eq [of _ _ _ sec]) simp_all
  have sec: "sod mod 60 = sec"
    using assms b by (intro int_mod_pos_eq [of _ _ "60 * h + mi"]) (simp_all add: sod_def)
  define D where "D = days_from_civil y mo d"
  have M: "hlc_millis t = (D * 86400 + sod) * 1000 + ms" by (simp add: t sod_def D_def)
  have m1: "((D * 86400 + sod) * 1000 + ms) mod 1000 = ms"
    using assms b by (intro int_mod_pos_eq [of _ _ "D * 86400 + sod"]) simp_all
  have m2: "((D * 86400 + sod) * 1000 + ms) div 1000 = D * 86400 + sod"
    using assms b by (intro int_div_pos_eq [of _ _ _ ms]) simp_all
  have m3: "(D * 86400 + sod) div 86400 = D" "(D * 86400 + sod) mod 86400 = sod"
    using sod by simp_all
  show "civil_from_millis (hlc_millis t) = (y, mo, d, h, mi, sec, ms) \<and> hlc_logical t = nat c"
    unfolding civil_from_millis_def Let_def M m1 m2 m3 h mi sec days [folded D_def] by (simp add: t)
next
  assume ct: "civil_from_millis (hlc_millis t) = (y, mo, d, h, mi, sec, ms) \<and> hlc_logical t = nat c"
  let ?m = "hlc_millis t"
  let ?days = "?m div 1000 div 86400"
  have days: "civil_from_days ?days = (y, mo, d)"
    and h: "h = ?m div 1000 mod 86400 div 3600" and mi: "mi = ?m div 1000 mod 86400 mod 3600 div 60"
    and sec: "sec = ?m div 1000 mod 86400 mod 60" and ms: "ms = ?m mod 1000"
    using ct by (auto simp: civil_from_millis_def Let_def split: prod.splits)
  note dc = days_civil_days [OF days]
  have rebuilt: "(?days * 86400 + h * 3600 + mi * 60 + sec) * 1000 + ms = ?m"
  proof -
    define S where "S = ?m div 1000"
    define s where "s = S mod 86400"
    have "?m = S * 1000 + ms" unfolding S_def ms by (rule div_mult_mod_eq [symmetric])
    moreover have "S = S div 86400 * 86400 + s" unfolding s_def by (rule div_mult_mod_eq [symmetric])
    moreover have "s = s div 3600 * 3600 + s mod 3600" by (rule div_mult_mod_eq [symmetric])
    moreover have "s mod 3600 = s mod 3600 div 60 * 60 + s mod 3600 mod 60"
      by (rule div_mult_mod_eq [symmetric])
    moreover have "s mod 3600 mod 60 = s mod 60" by (simp add: mod_mod_cancel)
    ultimately show ?thesis
      unfolding h mi sec S_def [symmetric] s_def [symmetric] by (rule rebuild_millis)
  qed
  have "h \<le> 23"
  proof -
    have "?m div 1000 mod 86400 < 3600 * 24" by simp
    then show ?thesis unfolding h by linarith
  qed
  moreover have "mi \<le> 59"
  proof -
    have "?m div 1000 mod 86400 mod 3600 < 60 * 60" by simp
    then show ?thesis unfolding mi by linarith
  qed
  moreover have "sec \<le> 59" "ms \<le> 999" unfolding sec ms by simp_all
  moreover have "t = \<lparr>hlc_millis = ?m, hlc_logical = nat c\<rparr>" using ct by (cases t) simp
  ultimately show "hlc_of_fields y mo d h mi sec ms c = Some t"
    using dc days rebuilt by (simp add: hlc_of_fields_def)
qed

lemma civil_from_millis_bounds:
  assumes "civil_from_millis m = (y, mo, d, h, mi, s, ms)"
  shows "1 \<le> mo \<and> mo \<le> 12 \<and> 1 \<le> d \<and> d \<le> 31 \<and> 0 \<le> h \<and> h \<le> 23 \<and> 0 \<le> mi \<and> mi \<le> 59 \<and>
    0 \<le> s \<and> s \<le> 59 \<and> 0 \<le> ms \<and> ms \<le> 999"
proof -
  have days: "civil_from_days (m div 1000 div 86400) = (y, mo, d)"
    and h: "h = m div 1000 mod 86400 div 3600" and mi: "mi = m div 1000 mod 86400 mod 3600 div 60"
    and s: "s = m div 1000 mod 86400 mod 60" and ms: "ms = m mod 1000"
    using assms by (auto simp: civil_from_millis_def Let_def split: prod.splits)
  have "m div 1000 mod 86400 < 3600 * 24" "m div 1000 mod 86400 mod 3600 < 60 * 60" by simp_all
  then have "h \<le> 23" "mi \<le> 59" unfolding h mi by linarith+
  moreover have "0 \<le> h" "0 \<le> mi" unfolding h mi by (simp_all add: pos_imp_zdiv_nonneg_iff)
  moreover have "0 \<le> s" "s \<le> 59" "0 \<le> ms" "ms \<le> 999" unfolding s ms by simp_all
  ultimately show ?thesis using days_civil_days [OF days] by blast
qed

definition wire_year :: "Hlc \<Rightarrow> bool" where
  "wire_year h \<longleftrightarrow> 0 \<le> fst (civil_from_millis (hlc_millis h)) \<and> fst (civil_from_millis (hlc_millis h)) \<le> 9999"

lemma display_wire:
  assumes "civil_from_millis (hlc_millis t) = (y, mo, d, h, mi, s, ms)" "0 \<le> y"
  shows "hlc_display t =
    wire (nat y) (nat mo) (nat d) (nat h) (nat mi) (nat s) (nat ms) (hlc_logical t)"
  using assms by (simp add: hlc_display_def wire_def pad_int_def)

lemma parse_display:
  assumes "hlc_canonical t" "wire_year t"
  shows "hlc_parse (hlc_display t) = Some t"
proof -
  obtain y mo d h mi s ms where ct: "civil_from_millis (hlc_millis t) = (y, mo, d, h, mi, s, ms)"
    by (cases "civil_from_millis (hlc_millis t)") auto
  have y: "0 \<le> y" "y \<le> 9999" using assms(2) ct by (simp_all add: wire_year_def)
  have c: "hlc_logical t < 1000" using assms(1) by (simp add: hlc_canonical_def LOGICAL_PER_MILLI_def)
  note b = civil_from_millis_bounds [OF ct]
  have "hlc_parse (hlc_display t) = hlc_of_fields y mo d h mi s ms (int (hlc_logical t))"
    unfolding display_wire [OF ct y(1)] using b y c by (subst parse_wire) auto
  also have "\<dots> = Some t" using of_fields_iff [of h mi s ms "int (hlc_logical t)" y mo d t] b c ct by simp
  finally show ?thesis .
qed

lemma parse_cases:
  assumes "hlc_parse s = Some t"
  shows "hlc_canonical t \<and> wire_year t \<and> s = hlc_display t"
proof -
  obtain y mo d h mi sec ms c where lay: "hlc_layout s" and nums: "num_at s 0 4 = Some y"
    "num_at s 5 7 = Some mo" "num_at s 8 10 = Some d" "num_at s 11 13 = Some h"
    "num_at s 14 16 = Some mi" "num_at s 17 19 = Some sec" "num_at s 20 23 = Some ms"
    "num_at s 23 26 = Some c" and f: "hlc_of_fields y mo d h mi sec ms c = Some t"
    using assms by (auto simp: hlc_parse_def split: if_splits option.splits)
  note w = layout_wire [OF lay nums]
  have ct: "civil_from_millis (hlc_millis t) = (y, mo, d, h, mi, sec, ms)" "hlc_logical t = nat c"
    using f of_fields_iff [of h mi sec ms c y mo d t] w by simp_all
  show ?thesis
    using w ct display_wire [OF ct(1)]
    by (simp add: hlc_canonical_def LOGICAL_PER_MILLI_def wire_year_def nat_less_iff)
qed

text \<open>The wire form and its parser are exact inverses: a string parses to a timestamp if
  and only if the timestamp is canonical, lies in the years 0000 to 9999, and prints as
  exactly that string.  So no two accepted strings name the same instant.\<close>

theorem hlc_parse_iff_display:
  "hlc_parse s = Some t \<longleftrightarrow> hlc_canonical t \<and> wire_year t \<and> hlc_display t = s"
  using parse_display parse_cases by metis

lemma hlc_new_canonical: "hlc_canonical (hlc_new m l)"
  by (simp add: hlc_new_def hlc_canonical_def LOGICAL_PER_MILLI_def)

subsection \<open>The engine's clock\<close>

record HlcClock =
  last_millis :: int
  clk_logical :: nat

definition clock_default :: HlcClock where
  "clock_default = \<lparr>last_millis = 0, clk_logical = 0\<rparr>"

fun carry :: "int \<Rightarrow> nat \<Rightarrow> int \<times> nat" where
  "carry m l = (if LOGICAL_PER_MILLI \<le> l \<and> 0 < LOGICAL_PER_MILLI
                then carry (wrap64 (m + 1)) (l - LOGICAL_PER_MILLI) else (m, l))"

declare carry.simps [simp del]

definition clock_next :: "HlcClock \<Rightarrow> int \<Rightarrow> Hlc \<times> HlcClock" where
  "clock_next c now =
     (let (m, l) = (if last_millis c < now then (now, 0)
                    else carry (last_millis c) ((clk_logical c + 1) mod 2 ^ 32))
      in (hlc_new m l, \<lparr>last_millis = m, clk_logical = l\<rparr>))"

definition clock_observe :: "HlcClock \<Rightarrow> Hlc \<Rightarrow> HlcClock" where
  "clock_observe c at =
     (if last_millis c < hlc_millis at \<or> last_millis c = hlc_millis at \<and> clk_logical c < hlc_logical at
      then \<lparr>last_millis = hlc_millis at, clk_logical = hlc_logical at\<rparr> else c)"

text \<open>The clock as the timestamp it stands at.\<close>

definition clock_at :: "HlcClock \<Rightarrow> Hlc" where
  "clock_at c = \<lparr>hlc_millis = last_millis c, hlc_logical = clk_logical c\<rparr>"

lemma hlc_less_trans: "hlc_less a b \<Longrightarrow> hlc_less b c \<Longrightarrow> hlc_less a c"
  by (auto simp: hlc_less_def)

lemma hlc_less_irrefl: "\<not> hlc_less a a"
  by (simp add: hlc_less_def)

lemma carry_one:
  assumes "l < LOGICAL_PER_MILLI"
  shows "carry m ((l + 1) mod 2 ^ 32) = (if l + 1 = LOGICAL_PER_MILLI then (wrap64 (m + 1), 0) else (m, l + 1))"
  using assms by (auto simp: carry.simps [of m "Suc l"] carry.simps [of m 1000]
      carry.simps [of "wrap64 (m + 1)" 0] LOGICAL_PER_MILLI_def)

text \<open>The clock stands at a canonical timestamp no later than \<open>B\<close> milliseconds.\<close>

definition clock_within :: "int \<Rightarrow> HlcClock \<Rightarrow> bool" where
  "clock_within B c \<longleftrightarrow> hlc_canonical (clock_at c) \<and> - (2 ^ 63) \<le> last_millis c \<and> last_millis c \<le> B"

lemma clock_next_facts:
  assumes "clock_within B c" "clock_next c now = (h, c')" "now \<le> B" "B < 2 ^ 63 - 1"
  shows "hlc_less (clock_at c) h \<and> h = clock_at c' \<and> clock_within (B + 1) c'"
proof (cases "last_millis c < now")
  case True
  have c': "c' = \<lparr>last_millis = now, clk_logical = 0\<rparr>" and h: "h = hlc_new now 0"
    using assms(2) True by (auto simp: clock_next_def)
  have "wrap64 now = now" using assms True by (intro wrap64_id) (auto simp: clock_within_def)
  then show ?thesis
    using True assms by (auto simp: c' h hlc_new_def clock_within_def clock_at_def hlc_less_def
        hlc_canonical_def LOGICAL_PER_MILLI_def)
next
  case False
  have l: "clk_logical c < LOGICAL_PER_MILLI"
    using assms(1) by (simp add: clock_within_def hlc_canonical_def clock_at_def)
  have m: "wrap64 (last_millis c) = last_millis c" "wrap64 (last_millis c + 1) = last_millis c + 1"
    using assms(1,4) by (auto simp: clock_within_def intro!: wrap64_id)
  show ?thesis
    using assms(1,2) False l carry_one [OF l, of "last_millis c"] m
    by (auto simp: clock_next_def hlc_new_def clock_at_def hlc_less_def hlc_canonical_def clock_within_def
        LOGICAL_PER_MILLI_def split: if_splits)
qed

lemma clock_observe_facts:
  assumes "clock_within B c" "hlc_canonical at" "hlc_millis at \<le> B"
  shows "clock_within B (clock_observe c at) \<and>
    \<not> hlc_less (clock_at (clock_observe c at)) at \<and>
    \<not> hlc_less (clock_at (clock_observe c at)) (clock_at c)"
  using assms by (auto simp: clock_observe_def clock_at_def hlc_less_def hlc_canonical_def clock_within_def)

lemma clock_within_mono: "clock_within B c \<Longrightarrow> B \<le> B' \<Longrightarrow> clock_within B' c"
  by (simp add: clock_within_def)

text \<open>A history of mints (with their wall-clock readings) and ingests.\<close>

datatype clock_event = Mint int | Ingest Hlc

fun clock_run :: "HlcClock \<Rightarrow> clock_event list \<Rightarrow> Hlc list" where
  "clock_run c [] = []"
| "clock_run c (Mint now # es) = (case clock_next c now of (h, c') \<Rightarrow> h # clock_run c' es)"
| "clock_run c (Ingest at # es) = clock_run (clock_observe c at) es"

fun seen_before_mint :: "clock_event list \<Rightarrow> nat \<Rightarrow> Hlc list" where
  "seen_before_mint [] k = []"
| "seen_before_mint (Mint now # es) k = (case k of 0 \<Rightarrow> [] | Suc k' \<Rightarrow> seen_before_mint es k')"
| "seen_before_mint (Ingest at # es) k = at # seen_before_mint es k"

text \<open>Readings and ingested timestamps within \<open>B\<close> milliseconds, the latter canonical as every
  parsed one is.\<close>

fun event_within :: "int \<Rightarrow> clock_event \<Rightarrow> bool" where
  "event_within B (Mint now) \<longleftrightarrow> now \<le> B"
| "event_within B (Ingest at) \<longleftrightarrow> hlc_canonical at \<and> hlc_millis at \<le> B"

lemma hlc_less_not_less: "\<not> hlc_less b a \<Longrightarrow> hlc_less b c \<Longrightarrow> hlc_less a c"
  by (auto simp: hlc_less_def)

lemma event_within_mono: "event_within B e \<Longrightarrow> B \<le> B' \<Longrightarrow> event_within B' e"
  by (cases e) simp_all

lemma clock_run_above:
  assumes "clock_within B c" "list_all (event_within B) es" "B + int (length es) < 2 ^ 63"
  shows "(\<forall>h \<in> set (clock_run c es). hlc_less (clock_at c) h \<and> hlc_canonical h \<and>
      hlc_millis h \<le> B + int (length es)) \<and>
    sorted_wrt hlc_less (clock_run c es) \<and>
    (\<forall>k < length (clock_run c es). \<forall>at \<in> set (seen_before_mint es k). hlc_less at (clock_run c es ! k))"
  using assms
proof (induction c es arbitrary: B rule: clock_run.induct)
  case (2 c now es)
  obtain h c' where nx: "clock_next c now = (h, c')" by fastforce
  have f: "hlc_less (clock_at c) h" "h = clock_at c'" "clock_within (B + 1) c'"
    using clock_next_facts [OF "2.prems"(1) nx] "2.prems"(2,3) by auto
  have ev: "list_all (event_within (B + 1)) es"
    using "2.prems"(2) event_within_mono [of B _ "B + 1"] by (auto simp: list_all_iff)
  have IH: "(\<forall>h \<in> set (clock_run c' es). hlc_less (clock_at c') h \<and> hlc_canonical h \<and>
        hlc_millis h \<le> B + 1 + int (length es)) \<and> sorted_wrt hlc_less (clock_run c' es) \<and>
      (\<forall>k < length (clock_run c' es). \<forall>at \<in> set (seen_before_mint es k). hlc_less at (clock_run c' es ! k))"
    using "2.IH" [OF nx [symmetric] f(3) ev] "2.prems"(3) by simp
  have below: "hlc_less (clock_at c) x" if "x \<in> set (clock_run c' es)" for x
    using that IH f hlc_less_trans by metis
  have here: "hlc_canonical h" "hlc_millis h \<le> B + 1"
    using f by (simp_all add: clock_within_def clock_at_def)
  show ?case using IH f(1,2) nx below here by (auto simp: nth_Cons split: nat.splits)
next
  case (3 c at es)
  have at: "hlc_canonical at" "hlc_millis at \<le> B" and ev: "list_all (event_within B) es"
    using "3.prems"(2) by simp_all
  note f = clock_observe_facts [OF "3.prems"(1) at]
  have "B + int (length es) < 2 ^ 63" using "3.prems"(3) by simp
  note IH = "3.IH" [OF conjunct1 [OF f] ev this]
  have up: "hlc_less (clock_at c) x \<and> hlc_less at x" if "x \<in> set (clock_run (clock_observe c at) es)" for x
    using that IH f hlc_less_not_less by metis
  show ?case using IH up by (auto simp: nth_mem)
qed simp

text \<open>C25: every timestamp the clock mints is canonical (its counter below 1000), later than
  every earlier mint and than every timestamp it had ingested by then, whatever order the
  wall clock's readings come in, so no mint ever reuses a timestamp.  This holds as long as
  the readings, the ingested timestamps and the clock itself stay below \<open>i64::MAX\<close> by more
  than the number of events; past it the milliseconds wrap around
  (\<open>clock_wraps\<close>).  A canonical timestamp need not have the wire form's four-digit year
  (\<open>clock_leaves_wire_form\<close>).\<close>

theorem clock_mints_fresh:
  assumes "clock_within B c" "list_all (event_within B) es" "B + int (length es) < 2 ^ 63"
  shows "distinct (clock_run c es) \<and> sorted_wrt hlc_less (clock_run c es) \<and>
    (\<forall>h \<in> set (clock_run c es). hlc_canonical h \<and> hlc_less (clock_at c) h \<and>
       hlc_millis h \<le> B + int (length es)) \<and>
    (\<forall>k < length (clock_run c es). \<forall>at \<in> set (seen_before_mint es k). hlc_less at (clock_run c es ! k))"
proof -
  have "distinct xs" if "sorted_wrt hlc_less xs" for xs
    using that by (induction xs) (auto simp: hlc_less_irrefl)
  then show ?thesis using clock_run_above [OF assms] by blast
qed

theorem clock_mints_fresh_witness:
  "distinct (clock_run clock_default [Mint 5, Ingest \<lparr>hlc_millis = 9, hlc_logical = 999\<rparr>, Mint 3])"
  using clock_mints_fresh [of 9 clock_default "[Mint 5, Ingest \<lparr>hlc_millis = 9, hlc_logical = 999\<rparr>, Mint 3]"]
  by (simp add: clock_default_def clock_at_def clock_within_def hlc_canonical_def LOGICAL_PER_MILLI_def)

text \<open>The bound is needed: one reading of \<open>i64::MAX\<close>, and after the thousand mints that fill
  its millisecond the clock is at \<open>i64::MIN\<close>, before everything it has minted.\<close>

lemma clock_wraps:
  "clock_next \<lparr>last_millis = 2 ^ 63 - 1, clk_logical = 999\<rparr> (2 ^ 63 - 1) =
    (\<lparr>hlc_millis = - (2 ^ 63), hlc_logical = 0\<rparr>, \<lparr>last_millis = - (2 ^ 63), clk_logical = 0\<rparr>)"
  using carry_one [of 999 "2 ^ 63 - 1"]
  by (simp add: clock_next_def hlc_new_def wrap64_def LOGICAL_PER_MILLI_def)

subsection \<open>The last timestamp of the wire form\<close>

definition hlc_last :: Hlc where
  "hlc_last = \<lparr>hlc_millis = 253402300799999, hlc_logical = 999\<rparr>"

lemma last_day: "civil_from_days 2932896 = (9999, 12, 31)" "civil_from_days 2932897 = (10000, 1, 1)"
  by code_simp+

lemma last_millis_civil:
  "civil_from_millis 253402300799999 = (9999, 12, 31, 23, 59, 59, 999)"
  "civil_from_millis 253402300800000 = (10000, 1, 1, 0, 0, 0, 0)"
  by (simp_all add: civil_from_millis_def last_day)

lemma length_pad_10000: "length (pad 4 10000) = 5"
  by (simp add: pad_def nat_to_dec.simps [of 10000] nat_to_dec.simps [of 1000] nat_to_dec.simps [of 100]
      nat_to_dec.simps [of 10] nat_to_dec.simps [of "Suc 0"])

text \<open>One ingested timestamp can push the clock off the wire form.  The timestamp
  \<open>9999-12-31T23:59:59.999999Z\<close> is accepted by the parser, from any peer; after it, the
  clock's next mint lies in the year 10000, whatever the wall clock reads up to then, and
  no string parses to it: the operation that carries it can never be decoded again.\<close>

theorem clock_leaves_wire_form:
  "\<exists>s. hlc_parse s = Some hlc_last \<and>
    (let (h, c) = clock_next (clock_observe clock_default hlc_last) (min now 253402300799999)
     in \<not> wire_year h \<and> hlc_parse (hlc_display h) = None \<and> (\<forall>s. hlc_parse s \<noteq> Some h))"
proof -
  have "hlc_canonical hlc_last" "wire_year hlc_last"
    by (simp_all add: hlc_last_def hlc_canonical_def wire_year_def last_millis_civil LOGICAL_PER_MILLI_def)
  then have first: "hlc_parse (hlc_display hlc_last) = Some hlc_last" by (rule parse_display)
  define h where "h = hlc_new 253402300800000 0"
  have h: "h = \<lparr>hlc_millis = 253402300800000, hlc_logical = 0\<rparr>" by (simp add: h_def hlc_new_def wrap64_def)
  have next_h: "clock_next (clock_observe clock_default hlc_last) (min now 253402300799999) =
      (h, \<lparr>last_millis = 253402300800000, clk_logical = 0\<rparr>)"
    using carry_one [of 999 253402300799999]
    by (simp add: clock_next_def clock_observe_def clock_default_def hlc_last_def h_def wrap64_def LOGICAL_PER_MILLI_def)
  have bad: "\<not> wire_year h" by (simp add: wire_year_def h last_millis_civil)
  then have "hlc_parse s \<noteq> Some h" for s using parse_cases [of s h] by auto
  moreover have "hlc_parse (hlc_display h) = None"
  proof -
    have "length (pad 2 n) = 2" "length (pad 3 n) = 3" if "n \<le> 1" for n
      using that by (simp_all add: pad_facts)
    then have "length (hlc_display h) = 28"
      by (simp add: hlc_display_def h last_millis_civil pad_int_def length_pad_10000)
    then show ?thesis by (simp add: hlc_parse_def hlc_layout_def WIRE_LEN_def)
  qed
  ultimately show ?thesis using first next_h bad by auto
qed

end
