(* ===== verification/Data_Crdt.thy ===== *)
theory Data_Crdt
  imports Hlc Blob_Store
begin

text \<open>
  The records and operations of the data layer and the fold over them:
  \<open>packages/openom-data-model/src/envelope.rs\<close> (the record shapes and the ingest boundary)
  and \<open>packages/openom-data-crdt/src/lib.rs\<close> (operations, their ingest, and
  \<open>materialize\<close>).  A JSON value (\<open>serde_json::Value\<close>) is a type parameter \<open>'v\<close>; the
  derived (de)serializers, the canonical form that is hashed, and the hash are the fields
  of \<open>data_env\<close>.
\<close>

subsection \<open>Records\<close>

datatype claim_error =
    MissingType | MissingId | ReservedId string | IdMismatch | MalformedRecord string string
  | Canonicalization string

record anchor =
  an_id :: string
  an_type :: string
  an_created_at :: Hlc
  an_created_by :: string

record 'v citation =
  ci_source_id :: string
  ci_locator :: "'v option"
  ci_extract :: "string option"

datatype 'v citations = One "'v citation" | Many "'v citation list"

record 'v claim =
  cl_id :: string
  cl_type :: string
  cl_target :: string
  cl_predicate :: string
  cl_value :: 'v
  cl_citation :: "'v citations option"
  cl_created_at :: Hlc
  cl_created_by :: string
  cl_signature :: "string option"

datatype 'v Record = Anchor anchor | Claim "'v claim" | Unknown 'v

text \<open>An operation's embedded replacement is a record once ingested and raw JSON before.\<close>

datatype 'r op_kind = Remove string | Supersede string 'r | Revoke string

record 'r op =
  op_id :: string
  op_type :: string
  op_created_at :: Hlc
  op_created_by :: string
  op_signature :: "string option"
  op_kind_of :: "'r op_kind"

datatype 'v channel_item = Assert "'v Record" | Op "'v Record op"

record 'v data_env =
  js_str :: "'v \<Rightarrow> string \<Rightarrow> string option"
  js_empty :: 'v
  de_claim :: "'v \<Rightarrow> string + 'v claim"
  de_anchor :: "'v \<Rightarrow> string + anchor"
  de_op :: "'v \<Rightarrow> string + 'v op"
  canon_claim :: "'v claim \<Rightarrow> claim_error + bytes"
  canon_op :: "'v Record op \<Rightarrow> claim_error + bytes"
  de_batch :: "bytes \<Rightarrow> string + 'v list"
  en_batch :: "'v channel_item list \<Rightarrow> string + bytes"
  env_hash :: hash_env

definition TYPE_CLAIM :: string where "TYPE_CLAIM = ''openom.org/core/claim/v1''"
definition TYPE_PERSON :: string where "TYPE_PERSON = ''openom.org/core/person/v1''"
definition TYPE_EVENT :: string where "TYPE_EVENT = ''openom.org/core/event/v1''"
definition TYPE_PLACE :: string where "TYPE_PLACE = ''openom.org/core/place/v1''"
definition TYPE_TREE :: string where "TYPE_TREE = ''openom.org/core/tree/v1''"
definition OP_TYPE :: string where "OP_TYPE = ''openom.org/core/op/v1''"
definition PREDICATE_EXISTENCE :: string where
  "PREDICATE_EXISTENCE = ''openom.org/core/existence/v1''"

lemmas type_uris = TYPE_CLAIM_def TYPE_PERSON_def TYPE_EVENT_def TYPE_PLACE_def TYPE_TREE_def OP_TYPE_def

definition hlc_default :: Hlc where
  "hlc_default = \<lparr>hlc_millis = 0, hlc_logical = 0\<rparr>"

definition str_or_empty :: "string option \<Rightarrow> string" where
  "str_or_empty s = (case s of None \<Rightarrow> [] | Some x \<Rightarrow> x)"

fun record_id :: "'v data_env \<Rightarrow> 'v Record \<Rightarrow> string" where
  "record_id E (Anchor a) = an_id a"
| "record_id E (Claim c) = cl_id c"
| "record_id E (Unknown v) = str_or_empty (js_str E v ''id'')"

fun record_created_by :: "'v data_env \<Rightarrow> 'v Record \<Rightarrow> string" where
  "record_created_by E (Anchor a) = an_created_by a"
| "record_created_by E (Claim c) = cl_created_by c"
| "record_created_by E (Unknown v) = str_or_empty (js_str E v ''createdBy'')"

fun record_created_at :: "'v data_env \<Rightarrow> 'v Record \<Rightarrow> Hlc" where
  "record_created_at E (Anchor a) = an_created_at a"
| "record_created_at E (Claim c) = cl_created_at c"
| "record_created_at E (Unknown v) =
     (case js_str E v ''createdAt'' of
        None \<Rightarrow> hlc_default
      | Some s \<Rightarrow> (case hlc_parse s of None \<Rightarrow> hlc_default | Some h \<Rightarrow> h))"

definition claim_new :: "string \<Rightarrow> string \<Rightarrow> 'v \<Rightarrow> string \<Rightarrow> Hlc \<Rightarrow> 'v claim" where
  "claim_new target predicate v created_by created_at =
     \<lparr>cl_id = [], cl_type = TYPE_CLAIM, cl_target = target, cl_predicate = predicate, cl_value = v,
      cl_citation = None, cl_created_at = created_at, cl_created_by = created_by,
      cl_signature = None\<rparr>"

definition content_id :: "'v data_env \<Rightarrow> bytes \<Rightarrow> string" where
  "content_id E b = ''sha256:'' @ hexlower (env_hash E) (sha256 (env_hash E) b)"

definition claim_id :: "'v data_env \<Rightarrow> 'v claim \<Rightarrow> claim_error + string" where
  "claim_id E c = (case canon_claim E c of Inl e \<Rightarrow> Inl e | Inr b \<Rightarrow> Inr (content_id E b))"

definition compute_id :: "'v data_env \<Rightarrow> 'v claim \<Rightarrow> claim_error + 'v claim" where
  "compute_id E c = (case claim_id E c of Inl e \<Rightarrow> Inl e | Inr i \<Rightarrow> Inr (c\<lparr>cl_id := i\<rparr>))"

definition id_is_current :: "'v data_env \<Rightarrow> 'v claim \<Rightarrow> claim_error + bool" where
  "id_is_current E c = (case claim_id E c of Inl e \<Rightarrow> Inl e | Inr i \<Rightarrow> Inr (cl_id c = i))"

definition record_try_from :: "'v data_env \<Rightarrow> 'v \<Rightarrow> claim_error + 'v Record" where
  "record_try_from E v =
     (case js_str E v ''type'' of
        None \<Rightarrow> Inl MissingType
      | Some t \<Rightarrow>
          if t = TYPE_CLAIM then
            (case de_claim E v of
               Inl e \<Rightarrow> Inl (MalformedRecord ''claim'' e)
             | Inr c \<Rightarrow>
                 (case id_is_current E c of
                    Inl e \<Rightarrow> Inl e
                  | Inr ok \<Rightarrow> if \<not> ok then Inl IdMismatch else Inr (Claim c)))
          else if t \<in> {TYPE_PERSON, TYPE_EVENT, TYPE_PLACE, TYPE_TREE} then
            (case de_anchor E v of
               Inl e \<Rightarrow> Inl (MalformedRecord ''anchor'' e)
             | Inr a \<Rightarrow> Inr (Anchor a))
          else (case js_str E v ''id'' of
                  None \<Rightarrow> Inl MissingId
                | Some i \<Rightarrow>
                    if i = [] then Inl MissingId
                    else if prefix ''sha256:'' i then Inl (ReservedId i)
                    else Inr (Unknown v)))"

subsection \<open>Operations\<close>

datatype crdt_error =
  NoType | WrongType string | Malformed string | OpIdMismatch | ClaimErr claim_error

definition op_content_id :: "'v data_env \<Rightarrow> 'v Record op \<Rightarrow> crdt_error + string" where
  "op_content_id E p =
     (case canon_op E p of Inl e \<Rightarrow> Inl (ClaimErr e) | Inr b \<Rightarrow> Inr (content_id E b))"

definition op_new ::
  "'v data_env \<Rightarrow> Hlc \<Rightarrow> string \<Rightarrow> 'v Record op_kind \<Rightarrow> crdt_error + 'v Record op" where
  "op_new E created_at created_by kind =
     (let p = \<lparr>op_id = [], op_type = OP_TYPE, op_created_at = created_at,
               op_created_by = created_by, op_signature = None, op_kind_of = kind\<rparr>
      in case op_content_id E p of Inl e \<Rightarrow> Inl e | Inr i \<Rightarrow> Inr (p\<lparr>op_id := i\<rparr>))"

text \<open>The replacement inside a supersede is ingested by the record's own verifying door.\<close>

definition kind_try_from :: "'v data_env \<Rightarrow> 'v op_kind \<Rightarrow> string + 'v Record op_kind" where
  "kind_try_from E k =
     (case k of
        Remove t \<Rightarrow> Inr (Remove t)
      | Revoke r \<Rightarrow> Inr (Revoke r)
      | Supersede p v \<Rightarrow>
          (case record_try_from E v of Inl e \<Rightarrow> Inl ''replacement'' | Inr r \<Rightarrow> Inr (Supersede p r)))"

definition op_try_from :: "'v data_env \<Rightarrow> 'v \<Rightarrow> crdt_error + 'v Record op" where
  "op_try_from E v =
     (case de_op E v of
        Inl e \<Rightarrow> Inl (Malformed e)
      | Inr raw \<Rightarrow>
          (case kind_try_from E (op_kind_of raw) of
             Inl e \<Rightarrow> Inl (Malformed e)
           | Inr k \<Rightarrow>
               if op_type raw \<noteq> OP_TYPE then Inl (WrongType (op_type raw))
               else let p = \<lparr>op_id = op_id raw, op_type = op_type raw,
                             op_created_at = op_created_at raw, op_created_by = op_created_by raw,
                             op_signature = op_signature raw, op_kind_of = k\<rparr>
                    in case op_content_id E p of
                         Inl e \<Rightarrow> Inl e
                       | Inr i \<Rightarrow> if op_id p \<noteq> i then Inl OpIdMismatch else Inr p))"

definition item_try_from :: "'v data_env \<Rightarrow> 'v \<Rightarrow> crdt_error + 'v channel_item" where
  "item_try_from E v =
     (case js_str E v ''type'' of
        None \<Rightarrow> Inl NoType
      | Some t \<Rightarrow>
          if t = OP_TYPE
          then (case op_try_from E v of Inl e \<Rightarrow> Inl e | Inr p \<Rightarrow> Inr (Op p))
          else (case record_try_from E v of Inl e \<Rightarrow> Inl (ClaimErr e) | Inr r \<Rightarrow> Inr (Assert r)))"

fun item_id :: "'v data_env \<Rightarrow> 'v channel_item \<Rightarrow> string" where
  "item_id E (Assert r) = record_id E r"
| "item_id E (Op p) = op_id p"

fun item_created_by :: "'v data_env \<Rightarrow> 'v channel_item \<Rightarrow> string" where
  "item_created_by E (Assert r) = record_created_by E r"
| "item_created_by E (Op p) = op_created_by p"

fun item_created_at :: "'v data_env \<Rightarrow> 'v channel_item \<Rightarrow> Hlc" where
  "item_created_at E (Assert r) = record_created_at E r"
| "item_created_at E (Op p) = op_created_at p"

subsection \<open>The op-batch codec\<close>

fun decode_items :: "'v data_env \<Rightarrow> 'v list \<Rightarrow> string + 'v channel_item list" where
  "decode_items E [] = Inr []"
| "decode_items E (v # vs) =
     (case item_try_from E v of
        Inl e \<Rightarrow> Inl ''item''
      | Inr i \<Rightarrow> (case decode_items E vs of Inl e \<Rightarrow> Inl e | Inr is \<Rightarrow> Inr (i # is)))"

definition codec_decode :: "'v data_env \<Rightarrow> bytes \<Rightarrow> string + 'v channel_item list" where
  "codec_decode E b = (case de_batch E b of Inl e \<Rightarrow> Inl e | Inr vs \<Rightarrow> decode_items E vs)"

definition codec_encode :: "'v data_env \<Rightarrow> 'v channel_item list \<Rightarrow> string + bytes" where
  "codec_encode E items = en_batch E items"

subsection \<open>The fold\<close>

definition or_insert :: "'k::linorder \<Rightarrow> 'a \<Rightarrow> ('k, 'a) btmap \<Rightarrow> ('k, 'a) btmap" where
  "or_insert k a m = (if bt_get m k = None then bt_insert k a m else m)"

text \<open>The record an item contributes: a bare add, or a supersede's replacement when it is in the
  acting author's own name.\<close>

definition asserted :: "'v data_env \<Rightarrow> 'v channel_item \<Rightarrow> 'v Record option" where
  "asserted E i =
     (case i of
        Assert r \<Rightarrow> Some r
      | Op p \<Rightarrow>
          (case op_kind_of p of
             Supersede prior r \<Rightarrow> if op_created_by p = record_created_by E r then Some r else None
           | Remove t \<Rightarrow> None
           | Revoke t \<Rightarrow> None))"

definition collect_records :: "'v data_env \<Rightarrow> 'v channel_item list \<Rightarrow> (string, 'v Record) btmap" where
  "collect_records E items =
     foldl (\<lambda>m i. case asserted E i of None \<Rightarrow> m | Some r \<Rightarrow> or_insert (record_id E r) r m) [] items"

type_synonym committers = "(string, string btset) btmap"

definition authorized :: "committers \<Rightarrow> string btset \<Rightarrow> 'r op \<Rightarrow> bool" where
  "authorized committers moderators p =
     (case bt_get committers (op_id p) of
        None \<Rightarrow> False
      | Some c \<Rightarrow> list_ex (\<lambda>x. x \<in> set moderators) c)"

definition revoke_target ::
  "committers \<Rightarrow> string btset \<Rightarrow> 'v channel_item \<Rightarrow> string option" where
  "revoke_target cm md i =
     (case i of
        Assert r \<Rightarrow> None
      | Op p \<Rightarrow>
          (case op_kind_of p of
             Revoke removal \<Rightarrow> if authorized cm md p then Some removal else None
           | Remove t \<Rightarrow> None
           | Supersede t r \<Rightarrow> None))"

definition revoked_ops :: "committers \<Rightarrow> string btset \<Rightarrow> 'v channel_item list \<Rightarrow> string btset" where
  "revoked_ops cm md items = bs_of_list (List.map_filter (revoke_target cm md) items)"

definition dead_target ::
  "committers \<Rightarrow> string btset \<Rightarrow> string btset \<Rightarrow> 'v channel_item \<Rightarrow> string option" where
  "dead_target cm md revoked i =
     (case i of
        Assert r \<Rightarrow> None
      | Op p \<Rightarrow>
          if \<not> authorized cm md p then None
          else (case op_kind_of p of
                  Remove t \<Rightarrow> if op_id p \<notin> set revoked then Some t else None
                | Supersede prior r \<Rightarrow> Some prior
                | Revoke t \<Rightarrow> None))"

definition dead_ids :: "committers \<Rightarrow> string btset \<Rightarrow> 'v channel_item list \<Rightarrow> string btset" where
  "dead_ids cm md items =
     bs_of_list (List.map_filter (dead_target cm md (revoked_ops cm md items)) items)"

definition materialize ::
  "'v data_env \<Rightarrow> 'v channel_item list \<Rightarrow> committers \<Rightarrow> string btset \<Rightarrow> 'v Record list" where
  "materialize E items cm md =
     map snd (filter (\<lambda>(i, r). i \<notin> set (dead_ids cm md items)) (collect_records E items))"

text \<open>Items are coherent when an id names one record, as content hashing is meant to ensure.\<close>

definition coherent :: "'v data_env \<Rightarrow> 'v channel_item list \<Rightarrow> bool" where
  "coherent E items \<longleftrightarrow>
     (\<forall>i \<in> set items. \<forall>j \<in> set items. \<forall>r s.
        asserted E i = Some r \<longrightarrow> asserted E j = Some s \<longrightarrow> record_id E r = record_id E s \<longrightarrow> r = s)"

definition contributes :: "'v data_env \<Rightarrow> 'v channel_item list \<Rightarrow> 'v Record \<Rightarrow> bool" where
  "contributes E items r \<longleftrightarrow> (\<exists>i \<in> set items. asserted E i = Some r)"

lemma set_map_filter: "set (List.map_filter f xs) = {y. \<exists>x \<in> set xs. f x = Some y}"
  by (induction xs) (auto simp: List.map_filter_simps split: option.splits)

lemma collect_snoc:
  "collect_records E (items @ [i]) =
     (case asserted E i of None \<Rightarrow> collect_records E items
      | Some r \<Rightarrow> or_insert (record_id E r) r (collect_records E items))"
  by (simp add: collect_records_def split: option.split)

lemma collect_wf: "bt_wf (collect_records E items)"
  by (induction items rule: rev_induct)
    (auto simp: collect_snoc or_insert_def collect_records_def split: option.splits)

lemma collect_get:
  "(\<forall>k r. bt_get (collect_records E items) k = Some r \<longrightarrow> contributes E items r \<and> record_id E r = k) \<and>
   (\<forall>r. contributes E items r \<longrightarrow> bt_get (collect_records E items) (record_id E r) \<noteq> None)"
proof (induction items rule: rev_induct)
  case (snoc i items)
  then show ?case
    by (auto simp: collect_snoc or_insert_def contributes_def split: option.splits if_splits)
qed (simp add: collect_records_def contributes_def)

lemma collect_iff:
  assumes "coherent E items"
  shows "bt_get (collect_records E items) k = Some r \<longleftrightarrow> contributes E items r \<and> record_id E r = k"
proof
  assume c: "contributes E items r \<and> record_id E r = k"
  then obtain r' where r': "bt_get (collect_records E items) k = Some r'"
    using collect_get [of E items] by blast
  then have "contributes E items r' \<and> record_id E r' = k" using collect_get [of E items] by blast
  then have "r' = r" using assms c unfolding coherent_def contributes_def by metis
  then show "bt_get (collect_records E items) k = Some r" using r' by simp
qed (use collect_get [of E items] in blast)

lemma dead_ids_set: "set xs = set ys \<Longrightarrow> dead_ids cm md xs = dead_ids cm md ys"
proof -
  assume eq: "set xs = set ys"
  have "revoked_ops cm md xs = revoked_ops cm md ys"
    unfolding revoked_ops_def by (rule bs_ext) (simp_all add: set_map_filter eq)
  then show ?thesis
    unfolding dead_ids_def by (intro bs_ext) (simp_all add: set_map_filter eq)
qed

lemma collect_set:
  assumes "set xs = set ys" "coherent E xs"
  shows "collect_records E xs = collect_records E ys"
proof (rule bt_ext [OF collect_wf collect_wf])
  have "coherent E ys" using assms by (simp add: coherent_def)
  moreover have "contributes E xs = contributes E ys" using assms(1) by (simp add: contributes_def fun_eq_iff)
  ultimately have "bt_get (collect_records E xs) k = Some r \<longleftrightarrow> bt_get (collect_records E ys) k = Some r" for k r
    using collect_iff [OF assms(2)] collect_iff [of E ys] by simp
  then show "bt_get (collect_records E xs) = bt_get (collect_records E ys)"
    by (metis (no_types, lifting) ext option.exhaust)
qed

lemma materialize_set:
  "set xs = set ys \<Longrightarrow> coherent E xs \<Longrightarrow> materialize E xs cm md = materialize E ys cm md"
  by (simp add: materialize_def collect_set dead_ids_set [of xs ys])

lemma materialize_live:
  assumes "coherent E items"
  shows "set (materialize E items cm md) =
    {r. contributes E items r \<and> record_id E r \<notin> set (dead_ids cm md items)}"
proof -
  have "set (collect_records E items) = {(k, r). contributes E items r \<and> record_id E r = k}"
    using bt_wf_set_eq [OF collect_wf [of E items]] collect_iff [OF assms] by simp
  then show ?thesis by (force simp: materialize_def)
qed

text \<open>The fold is a function of the set of items alone: order and duplication of
  delivery do not matter when ids name records uniquely, and a record is live exactly when
  some item asserts it and no authorized, unrevoked operation names it.\<close>

theorem materialize_convergent:
  assumes "coherent E xs" "set xs = set ys"
  shows "materialize E xs cm md = materialize E ys cm md \<and>
    set (materialize E ys cm md) = {r. contributes E xs r \<and> record_id E r \<notin> set (dead_ids cm md xs)}"
  using materialize_set [OF assms(2,1)] materialize_live [OF assms(1), of cm md] by simp







subsection \<open>A small data environment\<close>

text \<open>JSON objects as field lists, batches looked up in a table: enough to run the fold.\<close>

type_synonym demo_json = "(string \<times> string) list"

definition demo_anchor :: "string \<Rightarrow> string \<Rightarrow> anchor" where
  "demo_anchor i author =
     \<lparr>an_id = i, an_type = TYPE_PERSON, an_created_at = hlc_default, an_created_by = author\<rparr>"

definition demo_claim :: "string \<Rightarrow> demo_json claim" where
  "demo_claim author = (claim_new ''p'' ''name'' [] author hlc_default)\<lparr>cl_id := ''sha256:c''\<rparr>"

definition demo_env :: "(bytes \<times> demo_json list) list \<Rightarrow> demo_json data_env" where
  "demo_env tab =
     \<lparr>js_str = map_of, js_empty = [],
      de_claim = (\<lambda>v. Inr (demo_claim (str_or_empty (map_of v ''createdBy'')))),
      de_anchor = (\<lambda>v. Inr (demo_anchor (str_or_empty (map_of v ''id'')) (str_or_empty (map_of v ''createdBy'')))),
      de_op = (\<lambda>v. Inl ''no operations''),
      canon_claim = (\<lambda>c. Inr []), canon_op = (\<lambda>p. Inr []),
      de_batch = (\<lambda>b. case map_of tab b of None \<Rightarrow> Inl ''json'' | Some vs \<Rightarrow> Inr vs),
      en_batch = (\<lambda>is. Inr []),
      env_hash = \<lparr>sha256 = (\<lambda>b. b), hexlower = (\<lambda>b. ''c'')\<rparr>\<rparr>"

definition demo_remove :: "string \<Rightarrow> demo_json channel_item" where
  "demo_remove target =
     Op \<lparr>op_id = ''sha256:r'', op_type = OP_TYPE, op_created_at = hlc_default,
         op_created_by = ''ed'', op_signature = None, op_kind_of = Remove target\<rparr>"

theorem materialize_convergent_witness:
  "materialize (demo_env []) [Assert (Anchor (demo_anchor ''p'' ''ed'')), demo_remove ''p''] [(''sha256:r'', [''ed''])] [''ed''] =
   materialize (demo_env []) [demo_remove ''p'', Assert (Anchor (demo_anchor ''p'' ''ed''))] [(''sha256:r'', [''ed''])] [''ed'']"
  using materialize_convergent [of "demo_env []"
      "[Assert (Anchor (demo_anchor ''p'' ''ed'')), demo_remove ''p'']"
      "[demo_remove ''p'', Assert (Anchor (demo_anchor ''p'' ''ed''))]"]
  by (auto simp: coherent_def asserted_def demo_remove_def)



end
