(* ===== verification/Data_Tree.thy ===== *)
theory Data_Tree
  imports Data_Crdt Docsync_Coverage
begin

text \<open>
  The claim engine of \<open>packages/openom-data-tree/src/lib.rs\<close> (\<open>Tree\<close>) and its binding to
  the sync loop, \<open>SyncTree\<close> of \<open>packages/openom-docsync/src/sync.rs\<close>, which is proved to
  be a merge engine in the sense of the sync client.  The read model (\<open>project\<close>) is the
  projection crate's and not part of this theory.
\<close>

subsection \<open>The tree\<close>

datatype tree_error = TClaim claim_error | TCrdt crdt_error | TCodec string

record 'v Tree =
  t_created_by :: string
  t_items :: "(string, 'v channel_item) btmap"
  t_moderators :: "string btset"
  t_committers :: committers
  t_pending :: "'v channel_item list"
  t_clock :: HlcClock

definition tree_new :: "string \<Rightarrow> 'v Tree" where
  "tree_new created_by =
     \<lparr>t_created_by = created_by, t_items = [], t_moderators = [created_by], t_committers = [],
      t_pending = [], t_clock = clock_default\<rparr>"

definition record_committer :: "string \<Rightarrow> string \<Rightarrow> 'v Tree \<Rightarrow> 'v Tree" where
  "record_committer i committer t =
     t\<lparr>t_committers := bt_insert i
          (bs_insert committer (case bt_get (t_committers t) i of None \<Rightarrow> [] | Some s \<Rightarrow> s))
          (t_committers t)\<rparr>"

definition tree_author :: "'v Tree \<Rightarrow> string" where
  "tree_author t = t_created_by t"

definition set_moderators :: "string btset \<Rightarrow> 'v Tree \<Rightarrow> 'v Tree" where
  "set_moderators md t = t\<lparr>t_moderators := md\<rparr>"

definition tree_clear :: "'v Tree \<Rightarrow> 'v Tree" where
  "tree_clear t = t\<lparr>t_items := [], t_committers := [], t_pending := []\<rparr>"

definition is_op :: "'v channel_item \<Rightarrow> bool" where
  "is_op i = (case i of Assert _ \<Rightarrow> False | Op _ \<Rightarrow> True)"

definition emit_one :: "'v data_env \<Rightarrow> 'v channel_item \<Rightarrow> 'v Tree \<Rightarrow> 'v Tree" where
  "emit_one E i t =
     (let t1 = (if is_op i then record_committer (item_id E i) (t_created_by t) t else t)
      in t1\<lparr>t_pending := t_pending t1 @ [i], t_items := bt_insert (item_id E i) i (t_items t1)\<rparr>)"

definition emit :: "'v data_env \<Rightarrow> 'v channel_item list \<Rightarrow> 'v Tree \<Rightarrow> 'v Tree" where
  "emit E items t = foldl (\<lambda>t i. emit_one E i t) t items"

definition tick :: "int \<Rightarrow> 'v Tree \<Rightarrow> Hlc \<times> 'v Tree" where
  "tick now t = (case clock_next (t_clock t) now of (h, c) \<Rightarrow> (h, t\<lparr>t_clock := c\<rparr>))"

definition assert_claim ::
  "'v data_env \<Rightarrow> string \<Rightarrow> string \<Rightarrow> 'v \<Rightarrow> int \<Rightarrow> 'v Tree \<Rightarrow> (tree_error + unit) \<times> 'v Tree" where
  "assert_claim E target predicate v now t =
     (case tick now t of (at, t1) \<Rightarrow>
        (case compute_id E (claim_new target predicate v (t_created_by t1) at) of
           Inl e \<Rightarrow> (Inl (TClaim e), t1)
         | Inr c \<Rightarrow> (Inr (), emit E [Assert (Claim c)] t1)))"

definition assert_anchor ::
  "'v data_env \<Rightarrow> string \<Rightarrow> string \<Rightarrow> int \<Rightarrow> 'v Tree \<Rightarrow> (tree_error + unit) \<times> 'v Tree" where
  "assert_anchor E i type_uri now t =
     (case tick now t of (at, t1) \<Rightarrow>
        (case compute_id E (claim_new i PREDICATE_EXISTENCE (js_empty E) (t_created_by t1) at) of
           Inl e \<Rightarrow> (Inl (TClaim e), t1)
         | Inr c \<Rightarrow>
             (Inr (), emit E [Assert (Anchor \<lparr>an_id = i, an_type = type_uri, an_created_at = at,
                                             an_created_by = t_created_by t1\<rparr>),
                              Assert (Claim c)] t1)))"

definition tree_remove ::
  "'v data_env \<Rightarrow> string \<Rightarrow> int \<Rightarrow> 'v Tree \<Rightarrow> (tree_error + string) \<times> 'v Tree" where
  "tree_remove E target now t =
     (case tick now t of (at, t1) \<Rightarrow>
        (case op_new E at (t_created_by t1) (Remove target) of
           Inl e \<Rightarrow> (Inl (TCrdt e), t1)
         | Inr p \<Rightarrow> (Inr (item_id E (Op p)), emit E [Op p] t1)))"

definition supersede_claim ::
  "'v data_env \<Rightarrow> string \<Rightarrow> string \<Rightarrow> string \<Rightarrow> 'v \<Rightarrow> int \<Rightarrow> 'v Tree \<Rightarrow>
     (tree_error + unit) \<times> 'v Tree" where
  "supersede_claim E prior target predicate v now t =
     (case tick now t of (at, t1) \<Rightarrow>
        (case compute_id E (claim_new target predicate v (t_created_by t1) at) of
           Inl e \<Rightarrow> (Inl (TClaim e), t1)
         | Inr c \<Rightarrow>
             (case op_new E at (t_created_by t1) (Supersede prior (Claim c)) of
                Inl e \<Rightarrow> (Inl (TCrdt e), t1)
              | Inr p \<Rightarrow> (Inr (), emit E [Op p] t1))))"

definition tree_revoke ::
  "'v data_env \<Rightarrow> string \<Rightarrow> int \<Rightarrow> 'v Tree \<Rightarrow> (tree_error + unit) \<times> 'v Tree" where
  "tree_revoke E removal_op_id now t =
     (case tick now t of (at, t1) \<Rightarrow>
        (case op_new E at (t_created_by t1) (Revoke removal_op_id) of
           Inl e \<Rightarrow> (Inl (TCrdt e), t1)
         | Inr p \<Rightarrow> (Inr (), emit E [Op p] t1)))"

definition tree_flush :: "'v data_env \<Rightarrow> 'v Tree \<Rightarrow> (tree_error + bytes) \<times> 'v Tree" where
  "tree_flush E t =
     (if t_pending t = [] then (Inr [], t)
      else case codec_encode E (t_pending t) of
             Inl e \<Rightarrow> (Inl (TCodec e), t)
           | Inr b \<Rightarrow> (Inr b, t\<lparr>t_pending := []\<rparr>))"

definition ingest_one :: "'v data_env \<Rightarrow> string \<Rightarrow> 'v channel_item \<Rightarrow> 'v Tree \<Rightarrow> 'v Tree" where
  "ingest_one E committer i t =
     (let t1 = t\<lparr>t_clock := clock_observe (t_clock t) (item_created_at E i)\<rparr>;
          t2 = (if is_op i then record_committer (item_id E i) committer t1 else t1)
      in t2\<lparr>t_items := bt_insert (item_id E i) i (t_items t2)\<rparr>)"

definition ingest :: "'v data_env \<Rightarrow> string \<Rightarrow> 'v channel_item list \<Rightarrow> 'v Tree \<Rightarrow> 'v Tree" where
  "ingest E committer items t = foldl (\<lambda>t i. ingest_one E committer i t) t items"

definition tree_merge ::
  "'v data_env \<Rightarrow> bytes \<Rightarrow> string \<Rightarrow> 'v Tree \<Rightarrow> (tree_error + nat) \<times> 'v Tree" where
  "tree_merge E b committer t =
     (case codec_decode E b of
        Inl e \<Rightarrow> (Inl (TCodec e), t)
      | Inr items \<Rightarrow> (Inr (length items), ingest E committer items t))"

definition materialized :: "'v data_env \<Rightarrow> 'v Tree \<Rightarrow> 'v Record list" where
  "materialized E t = materialize E (map snd (t_items t)) (t_committers t) (t_moderators t)"

definition tree_snapshot :: "'v data_env \<Rightarrow> 'v Tree \<Rightarrow> tree_error + bytes" where
  "tree_snapshot E t =
     (case codec_encode E (map Assert (materialized E t)) of Inl e \<Rightarrow> Inl (TCodec e) | Inr b \<Rightarrow> Inr b)"

definition load_one :: "'v data_env \<Rightarrow> 'v channel_item \<Rightarrow> 'v Tree \<Rightarrow> 'v Tree" where
  "load_one E i t =
     t\<lparr>t_clock := clock_observe (t_clock t) (item_created_at E i),
       t_items := bt_insert (item_id E i) i (t_items t)\<rparr>"

definition load_snapshot :: "'v data_env \<Rightarrow> bytes \<Rightarrow> 'v Tree \<Rightarrow> (tree_error + unit) \<times> 'v Tree" where
  "load_snapshot E b t =
     (case codec_decode E b of
        Inl e \<Rightarrow> (Inl (TCodec e), t)
      | Inr items \<Rightarrow> (Inr (), foldl (\<lambda>t i. load_one E i t) t items))"

definition live_claims_of :: "'v data_env \<Rightarrow> string \<Rightarrow> string \<Rightarrow> 'v Tree \<Rightarrow> 'v claim list" where
  "live_claims_of E target predicate t =
     List.map_filter (\<lambda>r. case r of
         Claim c \<Rightarrow> if cl_target c = target \<and> cl_predicate c = predicate then Some c else None
       | Anchor a \<Rightarrow> None | Unknown v \<Rightarrow> None) (materialized E t)"

definition live_claims_of_any :: "'v data_env \<Rightarrow> string \<Rightarrow> 'v Tree \<Rightarrow> 'v claim list" where
  "live_claims_of_any E target t =
     List.map_filter (\<lambda>r. case r of
         Claim c \<Rightarrow> if cl_target c = target then Some c else None
       | Anchor a \<Rightarrow> None | Unknown v \<Rightarrow> None) (materialized E t)"

record op_view =
  ov_id :: string
  ov_author :: string
  ov_created_at :: Hlc
  ov_kind :: string
  ov_effective :: bool

fun op_kind_label :: "'r op_kind \<Rightarrow> string" where
  "op_kind_label (Remove t) = ''remove''"
| "op_kind_label (Supersede p r) = ''supersede''"
| "op_kind_label (Revoke r) = ''revoke''"

definition op_view_of :: "'v data_env \<Rightarrow> 'v Tree \<Rightarrow> 'v channel_item \<Rightarrow> op_view" where
  "op_view_of E t i =
     (let (kind, eff) = (case i of
            Assert r \<Rightarrow> (''assert'', True)
          | Op p \<Rightarrow> (op_kind_label (op_kind_of p), authorized (t_committers t) (t_moderators t) p))
      in \<lparr>ov_id = item_id E i, ov_author = item_created_by E i, ov_created_at = item_created_at E i,
          ov_kind = kind, ov_effective = eff\<rparr>)"

definition oplog :: "'v data_env \<Rightarrow> 'v Tree \<Rightarrow> op_view list" where
  "oplog E t =
     sort_key (\<lambda>v. (hlc_millis (ov_created_at v), hlc_logical (ov_created_at v), ov_id v))
       (map (op_view_of E t) (map snd (t_items t)))"

subsection \<open>The engine seam\<close>

text \<open>\<open>apply_local\<close> and \<open>snapshot\<close> panic where the code says \<open>expect\<close>; a panic is no value.\<close>

definition sync_apply_local ::
  "'v data_env \<Rightarrow> 'v Tree \<Rightarrow> 'v channel_item list \<Rightarrow> ('v Tree \<times> bytes) option" where
  "sync_apply_local E t edit =
     (if edit = [] then Some (t, [])
      else case codec_encode E edit of
             Inl e \<Rightarrow> None
           | Inr b \<Rightarrow> (case tree_merge E b (tree_author t) t of
                         (Inl e, t1) \<Rightarrow> None | (Inr n, t1) \<Rightarrow> Some (t1, b)))"

definition sync_merge :: "'v data_env \<Rightarrow> 'v Tree \<Rightarrow> bytes \<Rightarrow> string \<Rightarrow> 'v Tree \<times> (string + unit)" where
  "sync_merge E t b committer =
     (case tree_merge E b committer t of
        (Inl e, t1) \<Rightarrow> (t1, Inl ''merge'') | (Inr n, t1) \<Rightarrow> (t1, Inr ()))"

definition sync_snapshot :: "'v data_env \<Rightarrow> 'v Tree \<Rightarrow> bytes option" where
  "sync_snapshot E t = (case tree_snapshot E t of Inl e \<Rightarrow> None | Inr b \<Rightarrow> Some b)"

definition sync_merge_snapshot :: "'v data_env \<Rightarrow> 'v Tree \<Rightarrow> bytes \<Rightarrow> 'v Tree \<times> (string + unit)" where
  "sync_merge_snapshot E t b =
     (case load_snapshot E b t of
        (Inl e, t1) \<Rightarrow> (t1, Inl ''snapshot'') | (Inr n, t1) \<Rightarrow> (t1, Inr ()))"

definition sync_tree_ops :: "'v data_env \<Rightarrow> ('v Tree, 'v channel_item list) engine_ops" where
  "sync_tree_ops E =
     \<lparr>en_apply_local = (\<lambda>t x. the (sync_apply_local E t x)), en_merge = sync_merge E,
      en_author = tree_author, en_snapshot = (\<lambda>t. the (sync_snapshot E t)),
      en_merge_snapshot = sync_merge_snapshot E\<rparr>"

subsection \<open>The tree is a merge engine\<close>

definition tree_absorbed :: "'v data_env \<Rightarrow> 'v Tree \<Rightarrow> bytes \<Rightarrow> bool" where
  "tree_absorbed E t b \<longleftrightarrow>
     (\<exists>items. codec_decode E b = Inr items \<and>
        (\<forall>i \<in> set items. bt_get (t_items t) (item_id E i) \<noteq> None))"

lemma items_record_committer [simp]:
  "t_items (record_committer i c t) = t_items t" "t_clock (record_committer i c t) = t_clock t"
  "t_moderators (record_committer i c t) = t_moderators t"
  by (simp_all add: record_committer_def)

lemma items_ingest_one [simp]:
  "t_items (ingest_one E c i t) = bt_insert (item_id E i) i (t_items t)"
  "t_moderators (ingest_one E c i t) = t_moderators t"
  by (simp_all add: ingest_one_def Let_def)

lemma items_load_one [simp]: "t_items (load_one E i t) = bt_insert (item_id E i) i (t_items t)"
  by (simp add: load_one_def)

lemma ingest_keeps:
  "bt_get (t_items t) k \<noteq> None \<or> k \<in> item_id E ` set items \<longleftrightarrow>
     bt_get (t_items (ingest E c items t)) k \<noteq> None"
proof (induction items arbitrary: t)
  case (Cons i items)
  have "ingest E c (i # items) t = ingest E c items (ingest_one E c i t)" by (simp add: ingest_def)
  then show ?case using Cons.IH [of "ingest_one E c i t", symmetric] by auto
qed (simp add: ingest_def)

lemma load_keeps:
  "bt_get (t_items t) k \<noteq> None \<Longrightarrow> bt_get (t_items (foldl (\<lambda>t i. load_one E i t) t items)) k \<noteq> None"
  by (induction items arbitrary: t) auto

lemma sync_tree_merge_engine: "merge_engine (sync_tree_ops E) (tree_absorbed E)"
proof
  fix e pt cm e' u
  assume "en_merge (sync_tree_ops E) e pt cm = (e', Inr u)"
  then obtain items where "codec_decode E pt = Inr items" "e' = ingest E cm items e"
    by (auto simp: sync_tree_ops_def sync_merge_def tree_merge_def split: sum.splits prod.splits)
  then show "tree_absorbed E e' pt"
    using ingest_keeps [of e _ E items cm] by (force simp: tree_absorbed_def)
next
  fix e pt cm e' q x
  assume "en_merge (sync_tree_ops E) e pt cm = (e', q)" "tree_absorbed E e x"
  then show "tree_absorbed E e' x"
    using ingest_keeps [of e _ E _ cm]
    by (fastforce simp: sync_tree_ops_def sync_merge_def tree_merge_def tree_absorbed_def
        split: sum.splits prod.splits)
next
  fix e b e' q x
  assume "en_merge_snapshot (sync_tree_ops E) e b = (e', q)" "tree_absorbed E e x"
  then show "tree_absorbed E e' x"
    using load_keeps [of e _ E]
    by (fastforce simp: sync_tree_ops_def sync_merge_snapshot_def load_snapshot_def tree_absorbed_def
        split: sum.splits prod.splits)
qed

interpretation sync_tree: merge_engine "sync_tree_ops E" "tree_absorbed E" for E
  by (rule sync_tree_merge_engine)

subsection \<open>Convergence\<close>

text \<open>A history of deliveries: payload bytes with the verified author of the entry that
  carried them.\<close>

definition deliver :: "'v data_env \<Rightarrow> (bytes \<times> string) list \<Rightarrow> 'v Tree \<Rightarrow> 'v Tree" where
  "deliver E ds t = foldl (\<lambda>t d. snd (tree_merge E (fst d) (snd d) t)) t ds"

definition batch_items :: "'v data_env \<Rightarrow> bytes \<times> string \<Rightarrow> ('v channel_item \<times> string) list" where
  "batch_items E d =
     (case codec_decode E (fst d) of Inl e \<Rightarrow> [] | Inr items \<Rightarrow> map (\<lambda>i. (i, snd d)) items)"

definition all_items :: "'v data_env \<Rightarrow> (bytes \<times> string) list \<Rightarrow> ('v channel_item \<times> string) list" where
  "all_items E ds = concat (map (batch_items E) ds)"

definition ingest_pairs :: "'v data_env \<Rightarrow> ('v channel_item \<times> string) list \<Rightarrow> 'v Tree \<Rightarrow> 'v Tree" where
  "ingest_pairs E ps t = foldl (\<lambda>t p. ingest_one E (snd p) (fst p) t) t ps"

lemma deliver_pairs: "deliver E ds t = ingest_pairs E (all_items E ds) t"
proof (induction ds arbitrary: t)
  case (Cons d ds)
  have "snd (tree_merge E (fst d) (snd d) t) = ingest_pairs E (batch_items E d) t"
    by (simp add: tree_merge_def batch_items_def ingest_pairs_def ingest_def foldl_map split: sum.split)
  then show ?case
    using Cons.IH by (simp add: deliver_def all_items_def ingest_pairs_def)
qed (simp add: deliver_def all_items_def ingest_pairs_def)

text \<open>One id, one item.\<close>

definition items_coherent :: "'v data_env \<Rightarrow> ('v channel_item \<times> string) list \<Rightarrow> bool" where
  "items_coherent E ps \<longleftrightarrow>
     (\<forall>p \<in> set ps. \<forall>q \<in> set ps. item_id E (fst p) = item_id E (fst q) \<longrightarrow> fst p = fst q)"

lemma ingest_pairs_snoc:
  "ingest_pairs E (ps @ [p]) t = ingest_one E (snd p) (fst p) (ingest_pairs E ps t)"
  by (simp add: ingest_pairs_def)

lemma pairs_items_wf: "bt_wf (t_items (ingest_pairs E ps (tree_new a)))"
  by (induction ps rule: rev_induct) (auto simp: ingest_pairs_snoc ingest_pairs_def tree_new_def)

lemma pairs_items_get:
  assumes "items_coherent E ps"
  shows "bt_get (t_items (ingest_pairs E ps (tree_new a))) k = Some i \<longleftrightarrow>
    i \<in> fst ` set ps \<and> item_id E i = k"
  using assms
proof (induction ps rule: rev_induct)
  case (snoc p ps)
  have co: "items_coherent E ps" using snoc.prems by (simp add: items_coherent_def)
  have same: "i = fst p" if "i \<in> fst ` set ps" "item_id E i = item_id E (fst p)" for i
    using snoc.prems that by (auto simp: items_coherent_def)
  show ?case
  proof (cases "item_id E (fst p) = k")
    case True
    then have "bt_get (t_items (ingest_pairs E (ps @ [p]) (tree_new a))) k = Some (fst p)"
      by (simp add: ingest_pairs_snoc)
    moreover have "i \<in> fst ` set (ps @ [p]) \<and> item_id E i = k \<longleftrightarrow> i = fst p"
      using same [of i] True by (simp, blast)
    ultimately show ?thesis by auto
  next
    case False
    then show ?thesis using snoc.IH [OF co] by (auto simp: ingest_pairs_snoc)
  qed
qed (simp add: ingest_pairs_def tree_new_def)

definition committers_in :: "'v data_env \<Rightarrow> ('v channel_item \<times> string) list \<Rightarrow> string \<Rightarrow> string set" where
  "committers_in E ps k = {c. \<exists>i. (i, c) \<in> set ps \<and> is_op i \<and> item_id E i = k}"

lemma committers_ingest_one:
  "t_committers (ingest_one E c i t) =
     (if is_op i then bt_insert (item_id E i)
        (bs_insert c (case bt_get (t_committers t) (item_id E i) of None \<Rightarrow> [] | Some s \<Rightarrow> s)) (t_committers t)
      else t_committers t)"
  by (simp add: ingest_one_def record_committer_def)

lemma pairs_committers:
  "bt_wf (t_committers (ingest_pairs E ps (tree_new a))) \<and>
   (\<forall>k. case bt_get (t_committers (ingest_pairs E ps (tree_new a))) k of
          None \<Rightarrow> committers_in E ps k = {}
        | Some s \<Rightarrow> bs_wf s \<and> set s = committers_in E ps k \<and> s \<noteq> [])"
proof (induction ps rule: rev_induct)
  case (snoc p ps)
  let ?m = "t_committers (ingest_pairs E ps (tree_new a))"
  have cin: "committers_in E (ps @ [p]) k =
      (if is_op (fst p) \<and> item_id E (fst p) = k then insert (snd p) (committers_in E ps k)
       else committers_in E ps k)" for k
    by (cases p) (auto simp: committers_in_def)
  define k0 where "k0 = item_id E (fst p)"
  define s0 where "s0 = (case bt_get ?m k0 of None \<Rightarrow> [] | Some s \<Rightarrow> s)"
  have s0: "bs_wf s0 \<and> set s0 = committers_in E ps k0"
    using snoc by (auto simp: s0_def dest!: spec [of _ k0] split: option.splits)
  have new: "bs_insert (snd p) s0 \<noteq> []" by (metis set_bs_insert insert_not_empty list.set(1))
  show ?case
  proof (cases "is_op (fst p)")
    case False
    then have "committers_in E (ps @ [p]) = committers_in E ps" by (simp add: fun_eq_iff cin)
    moreover have "t_committers (ingest_pairs E (ps @ [p]) (tree_new a)) = ?m"
      using False by (simp add: ingest_pairs_snoc committers_ingest_one)
    ultimately show ?thesis using snoc by (simp only: simp_thms)
  next
    case True
    then have m: "t_committers (ingest_pairs E (ps @ [p]) (tree_new a)) = bt_insert k0 (bs_insert (snd p) s0) ?m"
      by (simp add: ingest_pairs_snoc committers_ingest_one k0_def s0_def)
    show ?thesis
    proof (intro conjI allI)
      show "bt_wf (t_committers (ingest_pairs E (ps @ [p]) (tree_new a)))" using snoc m by simp
      fix k
      show "case bt_get (t_committers (ingest_pairs E (ps @ [p]) (tree_new a))) k of
            None \<Rightarrow> committers_in E (ps @ [p]) k = {}
          | Some s \<Rightarrow> bs_wf s \<and> set s = committers_in E (ps @ [p]) k \<and> s \<noteq> []"
      proof (cases "k = k0")
        case True
        then show ?thesis using m s0 new \<open>is_op (fst p)\<close> cin [of k] by (auto simp: k0_def)
      next
        case False
        then have "committers_in E (ps @ [p]) k = committers_in E ps k" by (simp add: cin k0_def)
        moreover have "bt_get (t_committers (ingest_pairs E (ps @ [p]) (tree_new a))) k = bt_get ?m k"
          using m False by simp
        ultimately show ?thesis using snoc by (simp only: simp_thms)
      qed
    qed
  qed
qed (simp add: ingest_pairs_def tree_new_def committers_in_def)

lemma pairs_committers_eq:
  assumes "set ps = set qs"
  shows "t_committers (ingest_pairs E ps (tree_new a)) = t_committers (ingest_pairs E qs (tree_new b))"
    (is "?m = ?n")
proof (rule bt_ext)
  show "bt_wf ?m" "bt_wf ?n" using pairs_committers by blast+
  have ceq: "committers_in E ps k = committers_in E qs k" for k
    using assms by (simp add: committers_in_def)
  show "bt_get ?m = bt_get ?n"
  proof
    fix k
    have m: "case bt_get ?m k of None \<Rightarrow> committers_in E ps k = {}
        | Some s \<Rightarrow> bs_wf s \<and> set s = committers_in E ps k \<and> s \<noteq> []"
      using pairs_committers by blast
    have n: "case bt_get ?n k of None \<Rightarrow> committers_in E qs k = {}
        | Some s \<Rightarrow> bs_wf s \<and> set s = committers_in E qs k \<and> s \<noteq> []"
      using pairs_committers by blast
    show "bt_get ?m k = bt_get ?n k"
      using m n ceq [of k] by (auto split: option.splits intro: bs_ext)
  qed
qed

lemma pairs_items_eq:
  assumes "set ps = set qs" "items_coherent E ps"
  shows "t_items (ingest_pairs E ps (tree_new a)) = t_items (ingest_pairs E qs (tree_new b))"
proof (rule bt_ext [OF pairs_items_wf pairs_items_wf])
  have "items_coherent E qs" using assms by (simp add: items_coherent_def)
  then have "bt_get (t_items (ingest_pairs E ps (tree_new a))) k = Some i \<longleftrightarrow>
      bt_get (t_items (ingest_pairs E qs (tree_new b))) k = Some i" for k i
    using pairs_items_get [OF assms(2)] pairs_items_get [of E qs] assms(1) by simp
  then show "bt_get (t_items (ingest_pairs E ps (tree_new a))) =
      bt_get (t_items (ingest_pairs E qs (tree_new b)))"
    by (metis (no_types, lifting) ext option.exhaust)
qed

text \<open>C23: two fresh replicas that are delivered the same entries, in any order and any number
  of times, hold the same operation set and the same authority record, and so show the
  same live records under the same moderators, provided no id names two items.\<close>

theorem replicas_converge:
  assumes "set ds = set ds'" "items_coherent E (all_items E ds)"
  shows "t_items (deliver E ds (tree_new a)) = t_items (deliver E ds' (tree_new b)) \<and>
    t_committers (deliver E ds (tree_new a)) = t_committers (deliver E ds' (tree_new b)) \<and>
    materialized E (set_moderators md (deliver E ds (tree_new a))) =
      materialized E (set_moderators md (deliver E ds' (tree_new b)))"
proof -
  have eq: "set (all_items E ds) = set (all_items E ds')" using assms(1) by (simp add: all_items_def)
  have it: "t_items (deliver E ds (tree_new a)) = t_items (deliver E ds' (tree_new b))"
    unfolding deliver_pairs by (rule pairs_items_eq [OF eq assms(2)])
  have cm: "t_committers (deliver E ds (tree_new a)) = t_committers (deliver E ds' (tree_new b))"
    unfolding deliver_pairs by (rule pairs_committers_eq [OF eq])
  show ?thesis using it cm by (simp add: materialized_def set_moderators_def)
qed

text \<open>Two batches, each with one item.\<close>

definition demo_table :: "(bytes \<times> demo_json list) list" where
  "demo_table =
     [([1], [[(''type'', TYPE_PERSON), (''id'', ''p''), (''createdBy'', ''ann'')]]),
      ([2], [[(''type'', TYPE_PERSON), (''id'', ''p''), (''createdBy'', ''bob'')]]),
      ([3], [[(''type'', TYPE_CLAIM), (''createdBy'', ''ann'')]]),
      ([4], [[(''type'', TYPE_PERSON), (''id'', ''sha256:c''), (''createdBy'', ''bob'')]])]"

lemma demo_decode:
  "codec_decode (demo_env demo_table) [1] = Inr [Assert (Anchor (demo_anchor ''p'' ''ann''))]"
  "codec_decode (demo_env demo_table) [2] = Inr [Assert (Anchor (demo_anchor ''p'' ''bob''))]"
  "codec_decode (demo_env demo_table) [3] = Inr [Assert (Claim (demo_claim ''ann''))]"
  "codec_decode (demo_env demo_table) [4] = Inr [Assert (Anchor (demo_anchor ''sha256:c'' ''bob''))]"
  by (simp_all add: codec_decode_def demo_env_def demo_table_def item_try_from_def record_try_from_def
      id_is_current_def claim_id_def content_id_def demo_claim_def claim_new_def str_or_empty_def type_uris)

theorem replicas_converge_witness:
  "t_items (deliver (demo_env demo_table) [([1], ''ann''), ([3], ''ann'')] (tree_new ''x'')) =
   t_items (deliver (demo_env demo_table) [([3], ''ann''), ([1], ''ann''), ([3], ''ann'')] (tree_new ''y''))"
  using replicas_converge [of "[([1], ''ann''), ([3], ''ann'')]" "[([3], ''ann''), ([1], ''ann''), ([3], ''ann'')]"
      "demo_env demo_table"]
  by (auto simp: items_coherent_def all_items_def batch_items_def demo_decode demo_anchor_def demo_claim_def)

text \<open>Without that proviso replicas diverge.  An anchor's id is chosen by its author and
  is not a content hash, and the item map keeps the last writer: two replicas that receive
  the same two entries in opposite orders show different records for ever.\<close>

theorem anchors_diverge:
  "let E = demo_env demo_table;
       t = deliver E [([1], ''ann''), ([2], ''bob'')] (tree_new ''x'');
       u = deliver E [([2], ''bob''), ([1], ''ann'')] (tree_new ''x'')
   in materialized E t = [Anchor (demo_anchor ''p'' ''bob'')] \<and>
      materialized E u = [Anchor (demo_anchor ''p'' ''ann'')]"
  by (simp add: deliver_def tree_merge_def demo_decode ingest_def ingest_one_def is_op_def tree_new_def
      materialized_def materialize_def collect_records_def asserted_def or_insert_def dead_ids_def
      revoked_ops_def revoke_target_def dead_target_def map_filter_def bs_of_list_def demo_anchor_def)

lemma pairs_items_keyed:
  "bt_get (t_items (ingest_pairs E ps (tree_new x))) k = Some i \<Longrightarrow> item_id E i = k"
  by (induction ps rule: rev_induct)
    (auto simp: ingest_pairs_snoc ingest_pairs_def tree_new_def split: if_splits)

text \<open>An anchor evicts a claim.  The ingest door refuses a record of unknown type under a
  content address, but not an anchor: whoever sends an anchor with the id of a live claim
  removes that claim from the live set, with no moderator and no operation involved.\<close>

theorem anchor_evicts_claim:
  assumes "t = deliver E ds (tree_new x)" "Claim c \<in> set (materialized E t)"
    and direct: "\<forall>i \<in> snd ` set (t_items t). asserted E i = Some (Claim c) \<longrightarrow> i = Assert (Claim c)"
    and anchor: "codec_decode E b = Inr [Assert (Anchor a)]" "an_id a = cl_id c"
  shows "Claim c \<notin> set (materialized E (snd (tree_merge E b committer t)))"
proof
  let ?t' = "snd (tree_merge E b committer t)"
  have wf: "bt_wf (t_items t)" and keyed: "\<And>k i. bt_get (t_items t) k = Some i \<Longrightarrow> item_id E i = k"
    using assms(1) pairs_items_wf pairs_items_keyed by (auto simp: deliver_pairs)
  have items': "t_items ?t' = bt_insert (an_id a) (Assert (Anchor a)) (t_items t)"
    using anchor by (simp add: tree_merge_def ingest_def)
  assume "Claim c \<in> set (materialized E ?t')"
  then have "contributes E (map snd (t_items ?t')) (Claim c)"
    using collect_get [of E "map snd (t_items ?t')"] bt_get_mem [OF collect_wf]
    by (fastforce simp: materialized_def materialize_def)
  then obtain k i where ki: "(k, i) \<in> set (t_items ?t')" "asserted E i = Some (Claim c)"
    by (auto simp: contributes_def)
  have "bt_get (t_items ?t') k = Some i"
    using ki(1) bt_get_mem [of "t_items ?t'"] wf items' by simp
  then have old: "bt_get (t_items t) k = Some i" "k \<noteq> an_id a"
    using ki(2) items' by (auto simp: asserted_def split: if_splits)
  then have "i = Assert (Claim c)"
    using direct ki(2) bt_get_mem [OF wf] by force
  then show False using keyed [OF old(1)] old(2) anchor(2) by simp
qed

theorem anchor_evicts_claim_witness:
  "let E = demo_env demo_table; t = deliver E [([3], ''ann'')] (tree_new ''x'') in
   Claim (demo_claim ''ann'') \<in> set (materialized E t) \<and>
   Claim (demo_claim ''ann'') \<notin> set (materialized E (snd (tree_merge E [4] ''bob'' t)))"
proof -
  let ?E = "demo_env demo_table"
  let ?t = "deliver ?E [([3], ''ann'')] (tree_new ''x'')"
  have items: "t_items ?t = [(''sha256:c'', Assert (Claim (demo_claim ''ann'')))]"
    by (simp add: deliver_def tree_merge_def demo_decode ingest_def tree_new_def demo_claim_def)
  have live: "Claim (demo_claim ''ann'') \<in> set (materialized ?E ?t)"
    by (simp add: materialized_def items materialize_def collect_records_def asserted_def or_insert_def
        dead_ids_def revoked_ops_def revoke_target_def dead_target_def map_filter_def bs_of_list_def)
  then show ?thesis
    using anchor_evicts_claim [OF refl live _ demo_decode(4), of "''bob''"]
    by (simp add: items demo_anchor_def demo_claim_def)
qed

end
