(* ===== verification/Keyeo_Core.thy ===== *)
theory Keyeo_Core
  imports Prelude
begin

text \<open>
  The engine-neutral core of \<open>packages/keyeo-core\<close>: the M-of-N requirement of
  \<open>quorum.rs\<close>, the retention policy of \<open>retention.rs\<close>, and the signature-scheme and role
  seams as records of their operations.  A \<open>HashSet\<close> is a finite set; byte and item counts
  are naturals.
\<close>

subsection \<open>Quorum requirements\<close>

datatype 'id Requirement =
    Sole 'id
  | AnyOf "'id set"
  | AllOf "'id set"
  | Threshold nat "'id set"
  | Either "'id Requirement" "'id Requirement"

fun satisfied_by :: "'id Requirement \<Rightarrow> 'id set \<Rightarrow> bool" where
  "satisfied_by (Sole i) approvers \<longleftrightarrow> i \<in> approvers"
| "satisfied_by (AnyOf s) approvers \<longleftrightarrow> (\<exists>x \<in> s. x \<in> approvers)"
| "satisfied_by (AllOf s) approvers \<longleftrightarrow> s \<noteq> {} \<and> (\<forall>x \<in> s. x \<in> approvers)"
| "satisfied_by (Threshold m s) approvers \<longleftrightarrow> m \<le> card {x \<in> s. x \<in> approvers}"
| "satisfied_by (Either a b) approvers \<longleftrightarrow> satisfied_by a approvers \<or> satisfied_by b approvers"

text \<open>The ids a requirement can draw on, and whether it asks for anybody at all.\<close>

fun req_ids :: "'id Requirement \<Rightarrow> 'id set" where
  "req_ids (Sole i) = {i}"
| "req_ids (AnyOf s) = s"
| "req_ids (AllOf s) = s"
| "req_ids (Threshold m s) = s"
| "req_ids (Either a b) = req_ids a \<union> req_ids b"

fun asks_somebody :: "'id Requirement \<Rightarrow> bool" where
  "asks_somebody (Threshold m s) \<longleftrightarrow> 0 < m"
| "asks_somebody (Either a b) \<longleftrightarrow> asks_somebody a \<and> asks_somebody b"
| "asks_somebody _ \<longleftrightarrow> True"

lemma satisfied_mono:
  "finite (req_ids r) \<Longrightarrow> A \<subseteq> B \<Longrightarrow> satisfied_by r A \<Longrightarrow> satisfied_by r B"
proof (induction r)
  case (Threshold m s)
  then have "card {x \<in> s. x \<in> A} \<le> card {x \<in> s. x \<in> B}" by (intro card_mono) auto
  with Threshold show ?case by simp
qed auto

lemma satisfied_relevant: "satisfied_by r (A \<inter> req_ids r) = satisfied_by r A"
proof -
  have "req_ids r \<subseteq> D \<Longrightarrow> satisfied_by r (A \<inter> D) = satisfied_by r A" for D
  proof (induction r arbitrary: D)
    case (Threshold m s)
    then have "{x \<in> s. x \<in> A \<inter> D} = {x \<in> s. x \<in> A}" by auto
    then show ?case by simp
  qed auto
  then show ?thesis by blast
qed

lemma satisfied_empty: "asks_somebody r \<Longrightarrow> \<not> satisfied_by r {}"
  by (induction r) auto

text \<open>A requirement depends on the approvals of its own ids only, more approvals never
  hurt, and nobody's approval is enough, unless the requirement is a threshold of zero,
  which nobody's approval meets.\<close>

theorem requirement_closed:
  fixes r :: "'id Requirement"
  assumes "finite (req_ids r)"
  shows "(satisfied_by r A \<longleftrightarrow> satisfied_by r (A \<inter> req_ids r)) \<and>
    (satisfied_by r A \<longrightarrow> satisfied_by r (A \<union> B)) \<and>
    (asks_somebody r \<longrightarrow> \<not> satisfied_by r {}) \<and> satisfied_by (Threshold 0 (req_ids r)) {}"
  using satisfied_relevant [of r A] satisfied_mono [OF assms, of A "A \<union> B"] satisfied_empty [of r] by auto

theorem requirement_closed_witness:
  "satisfied_by (Either (Sole (1::nat)) (Threshold 2 {2, 3, 4})) ({1} \<union> {4})"
  using requirement_closed [of "Either (Sole (1::nat)) (Threshold 2 {2, 3, 4})" "{1}" "{4}"]
  by simp

subsection \<open>Retention\<close>

record RetentionMetrics =
  rm_items :: nat
  rm_bytes :: nat

datatype RetentionPlan = KeepAll | KeepLast nat

datatype Retention = Never | AfterItems nat | AfterBytes nat

fun retention_plan :: "Retention \<Rightarrow> RetentionMetrics \<Rightarrow> RetentionPlan" where
  "retention_plan Never m = KeepAll"
| "retention_plan (AfterItems n) m = (if n < rm_items m then KeepLast n else KeepAll)"
| "retention_plan (AfterBytes b) m =
     (if b < rm_bytes m
      then let avg = max (rm_bytes m div max (rm_items m) 1) 1 in KeepLast (b div avg)
      else KeepAll)"

text \<open>Within its bound a policy prunes nothing; a byte policy keeps at least the items that fit
  the bound at the average size.\<close>

lemma retention_within:
  "rm_items m \<le> n \<Longrightarrow> retention_plan (AfterItems n) m = KeepAll"
  "rm_bytes m \<le> b \<Longrightarrow> retention_plan (AfterBytes b) m = KeepAll"
  by simp_all

subsection \<open>Seams\<close>

record ('pk, 'sig) sig_scheme =
  sg_verify :: "'pk \<Rightarrow> bytes \<Rightarrow> 'sig \<Rightarrow> bool"
  sg_accepts :: "'pk \<Rightarrow> bool"
  sg_key_bytes :: "'pk \<Rightarrow> bytes"

end
