(* ===== verification/Chain_Signing.thy ===== *)
theory Chain_Signing
  imports Keyeo_Core
begin

text \<open>
  The signed bytes and the signature quorums of the linear keyring engine:
  \<open>packages/keyeo-chain/src/signing.rs\<close>, with the types of \<open>lib.rs\<close> they range over.  The
  signature scheme, SHA-256, the role predicates and the postcard encodings of ids and
  roles are the fields of \<open>chain_env\<close>; a \<open>Doc\<close> is the record of its accessor values.
\<close>

subsection \<open>Types\<close>

record ('id, 'r, 'pk) signer =
  s_id :: 'id
  s_role :: 'r
  s_key :: 'pk

record governance =
  g_kind :: u32
  g_threshold :: u32

record ('id, 'r, 'pk) anchor =
  an_group :: bytes
  an_revision :: u32
  an_hash :: bytes
  an_signers :: "('id, 'r, 'pk) signer list"
  an_governance :: governance
  an_recovery :: "'pk option"

record ('id, 'r, 'pk, 'sig) doc =
  d_group :: bytes
  d_revision :: u32
  d_prev_hash :: bytes
  d_layout :: u32
  d_members :: "('id, 'r, 'pk) signer list"
  d_governance :: governance
  d_recovery :: "'pk option"
  d_sigs :: "'sig list"
  d_commitment :: bytes
  d_structure :: "string + unit"

record ('id, 'r, 'pk, 'sig) chain_env =
  ce_scheme :: "('pk, 'sig) sig_scheme"
  ce_sha :: "bytes \<Rightarrow> bytes"
  ce_founder :: "'r \<Rightarrow> bool"
  ce_signer :: "'r \<Rightarrow> bool"
  ce_id_bytes :: "'id \<Rightarrow> bytes"
  ce_role_bytes :: "'r \<Rightarrow> bytes"

abbreviation ce_key :: "('id, 'r, 'pk, 'sig) chain_env \<Rightarrow> 'pk \<Rightarrow> bytes" where
  "ce_key E \<equiv> sg_key_bytes (ce_scheme E)"

abbreviation ce_verify :: "('id, 'r, 'pk, 'sig) chain_env \<Rightarrow> 'pk \<Rightarrow> bytes \<Rightarrow> 'sig \<Rightarrow> bool" where
  "ce_verify E \<equiv> sg_verify (ce_scheme E)"

subsection \<open>The signed bytes\<close>

definition put_bytes :: "bytes \<Rightarrow> bytes" where
  "put_bytes b = u32_be (sat_u32 (length b)) @ b"

text \<open>The ASCII bytes of \<open>keyeo:linear:v1\<close>.\<close>

definition DOMAIN_TAG :: bytes where
  "DOMAIN_TAG = [0x6B, 0x65, 0x79, 0x65, 0x6F, 0x3A, 0x6C, 0x69, 0x6E, 0x65, 0x61, 0x72, 0x3A, 0x76, 0x31]"

definition put_signer :: "('id, 'r, 'pk, 'sig) chain_env \<Rightarrow> ('id, 'r, 'pk) signer \<Rightarrow> bytes" where
  "put_signer E m =
     put_bytes (ce_id_bytes E (s_id m)) @ put_bytes (ce_role_bytes E (s_role m)) @
     put_bytes (ce_key E (s_key m))"

definition put_recovery :: "('id, 'r, 'pk, 'sig) chain_env \<Rightarrow> 'pk option \<Rightarrow> bytes" where
  "put_recovery E r =
     (case r of
        Some k \<Rightarrow> u32_be 1 @ put_bytes (ce_key E k)
      | None \<Rightarrow> u32_be 0 @ put_bytes [])"

definition signing_bytes :: "('id, 'r, 'pk, 'sig) chain_env \<Rightarrow> ('id, 'r, 'pk, 'sig) doc \<Rightarrow> bytes" where
  "signing_bytes E d =
     put_bytes DOMAIN_TAG @ put_bytes (d_group d) @ u32_be (d_revision d) @
     put_bytes (d_prev_hash d) @ u32_be (d_layout d) @
     u32_be (sat_u32 (length (d_members d))) @ concat (map (put_signer E) (d_members d)) @
     u32_be (g_kind (d_governance d)) @ u32_be (g_threshold (d_governance d)) @
     put_recovery E (d_recovery d) @ put_bytes (d_commitment d)"

definition doc_hash :: "('id, 'r, 'pk, 'sig) chain_env \<Rightarrow> ('id, 'r, 'pk, 'sig) doc \<Rightarrow> bytes" where
  "doc_hash E d = ce_sha E (signing_bytes E d)"

text \<open>Sizes the length prefixes can carry.\<close>

definition small :: "bytes \<Rightarrow> bool" where
  "small b \<longleftrightarrow> length b < 2 ^ 32"

definition signer_small :: "('id, 'r, 'pk, 'sig) chain_env \<Rightarrow> ('id, 'r, 'pk) signer \<Rightarrow> bool" where
  "signer_small E m \<longleftrightarrow>
     small (ce_id_bytes E (s_id m)) \<and> small (ce_role_bytes E (s_role m)) \<and> small (ce_key E (s_key m))"

definition doc_small :: "('id, 'r, 'pk, 'sig) chain_env \<Rightarrow> ('id, 'r, 'pk, 'sig) doc \<Rightarrow> bool" where
  "doc_small E d \<longleftrightarrow>
     small (d_group d) \<and> small (d_prev_hash d) \<and> small (d_commitment d) \<and>
     length (d_members d) < 2 ^ 32 \<and> list_all (signer_small E) (d_members d) \<and>
     (case d_recovery d of None \<Rightarrow> True | Some k \<Rightarrow> small (ce_key E k))"

text \<open>The encodings lose nothing.\<close>

definition env_inj :: "('id, 'r, 'pk, 'sig) chain_env \<Rightarrow> bool" where
  "env_inj E \<longleftrightarrow> inj (ce_id_bytes E) \<and> inj (ce_role_bytes E) \<and> inj (ce_key E)"

text \<open>What a signature covers.\<close>

definition same_signed :: "('id, 'r, 'pk, 'sig) doc \<Rightarrow> ('id, 'r, 'pk, 'sig) doc \<Rightarrow> bool" where
  "same_signed d e \<longleftrightarrow>
     d_group d = d_group e \<and> d_revision d = d_revision e \<and> d_prev_hash d = d_prev_hash e \<and>
     d_layout d = d_layout e \<and> d_members d = d_members e \<and> d_governance d = d_governance e \<and>
     d_recovery d = d_recovery e \<and> d_commitment d = d_commitment e"

lemma u32_be_append: "u32_be v @ x = u32_be w @ y \<longleftrightarrow> v = w \<and> x = y"
  by (auto simp: append_eq_append_conv)

lemma put_bytes_append:
  assumes "small a" "small b"
  shows "put_bytes a @ x = put_bytes b @ y \<longleftrightarrow> a = b \<and> x = y"
proof
  assume "put_bytes a @ x = put_bytes b @ y"
  then have "sat_u32 (length a) = sat_u32 (length b)" "a @ x = b @ y"
    by (simp_all add: put_bytes_def u32_be_append)
  moreover have "length a = length b" using calculation(1) assms by (simp add: small_def sat_u32_inj)
  ultimately show "a = b \<and> x = y" by (simp add: append_eq_append_conv)
qed simp

lemma put_signer_append:
  assumes "env_inj E" "signer_small E a" "signer_small E b"
  shows "put_signer E a @ x = put_signer E b @ y \<longleftrightarrow> a = b \<and> x = y"
  using assms
  by (cases a; cases b) (auto simp: put_signer_def put_bytes_append signer_small_def env_inj_def inj_eq)

lemma put_signers_append:
  assumes "env_inj E"
  shows "list_all (signer_small E) as \<Longrightarrow> list_all (signer_small E) bs \<Longrightarrow> length as = length bs \<Longrightarrow>
    concat (map (put_signer E) as) @ x = concat (map (put_signer E) bs) @ y \<longleftrightarrow> as = bs \<and> x = y"
proof (induction as arbitrary: bs)
  case (Cons a as)
  then obtain b bs' where bs: "bs = b # bs'" by (cases bs) auto
  have "signer_small E a" "signer_small E b" "list_all (signer_small E) as" "list_all (signer_small E) bs'"
    using Cons.prems bs by auto
  then show ?case using Cons.IH [of bs'] Cons.prems(3) bs put_signer_append [OF assms] by simp
qed simp

lemma put_recovery_append:
  assumes "env_inj E" "case r of None \<Rightarrow> True | Some k \<Rightarrow> small (ce_key E k)"
    "case q of None \<Rightarrow> True | Some k \<Rightarrow> small (ce_key E k)"
  shows "put_recovery E r @ x = put_recovery E q @ y \<longleftrightarrow> r = q \<and> x = y"
  using assms
  by (cases r; cases q)
    (auto simp: put_recovery_def u32_be_append put_bytes_append env_inj_def inj_eq small_def)

lemma signing_bytes_eq:
  assumes "env_inj E" "doc_small E d" "doc_small E e" "signing_bytes E d = signing_bytes E e"
  shows "same_signed d e"
proof -
  have tag: "small DOMAIN_TAG" by (simp add: small_def DOMAIN_TAG_def)
  have sd: "small (d_group d)" "small (d_prev_hash d)" "small (d_commitment d)"
      "list_all (signer_small E) (d_members d)" "length (d_members d) < 2 ^ 32"
      "case d_recovery d of None \<Rightarrow> True | Some k \<Rightarrow> small (ce_key E k)"
    and se: "small (d_group e)" "small (d_prev_hash e)" "small (d_commitment e)"
      "list_all (signer_small E) (d_members e)" "length (d_members e) < 2 ^ 32"
      "case d_recovery e of None \<Rightarrow> True | Some k \<Rightarrow> small (ce_key E k)"
    using assms(2,3) by (simp_all add: doc_small_def)
  let ?tail = "\<lambda>d. u32_be (g_kind (d_governance d)) @ u32_be (g_threshold (d_governance d)) @
     put_recovery E (d_recovery d) @ put_bytes (d_commitment d)"
  have head: "d_group d = d_group e" "d_revision d = d_revision e" "d_prev_hash d = d_prev_hash e"
      "d_layout d = d_layout e" "sat_u32 (length (d_members d)) = sat_u32 (length (d_members e))"
      "concat (map (put_signer E) (d_members d)) @ ?tail d = concat (map (put_signer E) (d_members e)) @ ?tail e"
    using assms(4) unfolding signing_bytes_def
    by (simp_all only: put_bytes_append [OF tag tag] put_bytes_append [OF sd(1) se(1)]
        put_bytes_append [OF sd(2) se(2)] u32_be_append simp_thms)
  have len: "length (d_members d) = length (d_members e)"
    using head(5) sd(5) se(5) by (simp add: sat_u32_inj)
  have mem: "d_members d = d_members e" and tail: "?tail d = ?tail e"
    using head(6) put_signers_append [OF assms(1) sd(4) se(4) len] by simp_all
  have gov: "g_kind (d_governance d) = g_kind (d_governance e)"
      "g_threshold (d_governance d) = g_threshold (d_governance e)"
      "put_recovery E (d_recovery d) @ put_bytes (d_commitment d) =
       put_recovery E (d_recovery e) @ put_bytes (d_commitment e)"
    using tail by (simp_all only: u32_be_append simp_thms)
  have "d_recovery d = d_recovery e" "put_bytes (d_commitment d) = put_bytes (d_commitment e)"
    using gov(3) put_recovery_append [OF assms(1) sd(6) se(6)] by simp_all
  moreover have "d_commitment d = d_commitment e"
    using calculation(2) put_bytes_append [OF sd(3) se(3), of "[]" "[]"] by simp
  ultimately show ?thesis using head mem gov by (simp add: same_signed_def)
qed

lemma same_signed_bytes: "same_signed d e \<Longrightarrow> signing_bytes E d = signing_bytes E e"
  by (simp add: same_signed_def signing_bytes_def)

subsection \<open>Signature quorums\<close>

fun dedup_keys :: "('id, 'r, 'pk, 'sig) chain_env \<Rightarrow> 'pk list \<Rightarrow> 'pk list \<Rightarrow> 'pk list" where
  "dedup_keys E out [] = out"
| "dedup_keys E out (k # ks) =
     dedup_keys E (if list_ex (\<lambda>e. ce_key E e = ce_key E k) out then out else out @ [k]) ks"

definition verify_any :: "('id, 'r, 'pk, 'sig) chain_env \<Rightarrow> bytes \<Rightarrow> 'sig list \<Rightarrow> 'pk list \<Rightarrow> bool" where
  "verify_any E msg sigs trusted \<longleftrightarrow> list_ex (\<lambda>sg. list_ex (\<lambda>k. ce_verify E k msg sg) trusted) sigs"

definition signed_by :: "('id, 'r, 'pk, 'sig) chain_env \<Rightarrow> bytes \<Rightarrow> 'sig list \<Rightarrow> 'pk \<Rightarrow> bool" where
  "signed_by E msg sigs k \<longleftrightarrow> list_ex (\<lambda>sg. ce_verify E k msg sg) sigs"

definition count_valid :: "('id, 'r, 'pk, 'sig) chain_env \<Rightarrow> bytes \<Rightarrow> 'sig list \<Rightarrow> 'pk list \<Rightarrow> nat" where
  "count_valid E msg sigs required = length (filter (signed_by E msg sigs) (dedup_keys E [] required))"

definition verify_all :: "('id, 'r, 'pk, 'sig) chain_env \<Rightarrow> bytes \<Rightarrow> 'sig list \<Rightarrow> 'pk list \<Rightarrow> bool" where
  "verify_all E msg sigs required \<longleftrightarrow>
     (let d = dedup_keys E [] required in d \<noteq> [] \<and> list_all (signed_by E msg sigs) d)"

definition verify_threshold ::
  "('id, 'r, 'pk, 'sig) chain_env \<Rightarrow> bytes \<Rightarrow> 'sig list \<Rightarrow> 'pk list \<Rightarrow> nat \<Rightarrow> bool" where
  "verify_threshold E msg sigs required m \<longleftrightarrow> m = 0 \<or> m \<le> count_valid E msg sigs required"

lemma verify_any_iff: "verify_any E msg sigs ks \<longleftrightarrow> (\<exists>k \<in> set ks. signed_by E msg sigs k)"
  by (auto simp: verify_any_def signed_by_def list_ex_iff)

lemma dedup_facts:
  assumes "inj (ce_key E)"
  shows "distinct out \<Longrightarrow> distinct (dedup_keys E out ks) \<and> set (dedup_keys E out ks) = set out \<union> set ks"
proof (induction ks arbitrary: out)
  case (Cons k ks)
  have ex: "list_ex (\<lambda>e. ce_key E e = ce_key E k) out \<longleftrightarrow> k \<in> set out"
    using assms by (auto simp: list_ex_iff inj_eq)
  show ?case using Cons.IH [of "if k \<in> set out then out else out @ [k]"] Cons.prems by (auto simp: ex)
qed simp

lemma count_valid_card:
  assumes "inj (ce_key E)"
  shows "count_valid E msg sigs ks = card {k \<in> set ks. signed_by E msg sigs k}"
proof -
  have d: "distinct (dedup_keys E [] ks)" "set (dedup_keys E [] ks) = set ks"
    using dedup_facts [OF assms, of "[]" ks] by simp_all
  have "count_valid E msg sigs ks = card (set (filter (signed_by E msg sigs) (dedup_keys E [] ks)))"
    unfolding count_valid_def using d(1) by (intro distinct_card [symmetric]) simp
  then show ?thesis using d(2) by simp
qed

lemma verify_all_iff:
  assumes "inj (ce_key E)"
  shows "verify_all E msg sigs ks \<longleftrightarrow> ks \<noteq> [] \<and> (\<forall>k \<in> set ks. signed_by E msg sigs k)"
  using dedup_facts [OF assms, of "[]" ks]
  by (auto simp: verify_all_def Let_def list_all_iff)

text \<open>The quorums count people, not entries.  However often a key is listed and however
  often it signs, the tally is the number of distinct trusted keys that signed; any-of,
  unanimity and threshold are read off that set, and an empty trusted set is never
  unanimous.\<close>

theorem quorum_counts_distinct_keys:
  assumes "inj (ce_key E)"
  shows "count_valid E msg sigs ks = card {k \<in> set ks. signed_by E msg sigs k} \<and>
    (verify_any E msg sigs ks \<longleftrightarrow> {k \<in> set ks. signed_by E msg sigs k} \<noteq> {}) \<and>
    (verify_all E msg sigs ks \<longleftrightarrow> set ks \<noteq> {} \<and> {k \<in> set ks. signed_by E msg sigs k} = set ks) \<and>
    (verify_threshold E msg sigs ks m \<longleftrightarrow> m \<le> card {k \<in> set ks. signed_by E msg sigs k})"
  using count_valid_card [OF assms, of msg sigs ks]
  by (auto simp: verify_threshold_def verify_any_iff verify_all_iff [OF assms])

subsection \<open>A small environment\<close>

text \<open>One-byte keys and roles (1 the founder, 2 a co-owner), a signature that names its key and
  message, and an identity for a hash: enough to run the engine.\<close>

definition demo_chain :: "(bytes, u8, u8, u8 \<times> bytes) chain_env" where
  "demo_chain =
     \<lparr>ce_scheme = \<lparr>sg_verify = (\<lambda>k m s. s = (k, m)), sg_accepts = (\<lambda>k. True), sg_key_bytes = (\<lambda>k. [k])\<rparr>,
      ce_sha = (\<lambda>b. b), ce_founder = (\<lambda>r. r = 1), ce_signer = (\<lambda>r. r = 1 \<or> r = 2),
      ce_id_bytes = (\<lambda>i. i), ce_role_bytes = (\<lambda>r. [r])\<rparr>"

lemma demo_chain_inj: "env_inj demo_chain" "inj (ce_key demo_chain)"
  by (simp_all add: env_inj_def demo_chain_def inj_def)

theorem quorum_counts_distinct_keys_witness:
  "count_valid demo_chain [9] [(1, [9]), (1, [9]), (2, [8])] [1, 1, 2] =
     card {k \<in> {1, 2}. signed_by demo_chain [9] [(1, [9]), (1, [9]), (2, [8])] k}"
  using quorum_counts_distinct_keys [OF demo_chain_inj(2), of "[9]" "[(1, [9]), (1, [9]), (2, [8])]" "[1, 1, 2]"]
  by simp

text \<open>The signed bytes determine every field the engine reasons on: two documents with the
  same signed bytes agree on group, revision, link, layout, members with roles and keys,
  governance, recovery authority and payload commitment.  So a signature over one of them
  is a signature over exactly that content.\<close>

theorem signing_bytes_determine:
  assumes "env_inj E" "doc_small E d" "doc_small E e"
  shows "signing_bytes E d = signing_bytes E e \<longleftrightarrow> same_signed d e"
  using signing_bytes_eq [OF assms] same_signed_bytes by blast

definition demo_doc :: "(bytes, u8, u8, u8 \<times> bytes) doc" where
  "demo_doc =
     \<lparr>d_group = [7], d_revision = 1, d_prev_hash = replicate 32 0, d_layout = 1,
      d_members = [\<lparr>s_id = [1], s_role = 1, s_key = 1\<rparr>, \<lparr>s_id = [2], s_role = 2, s_key = 2\<rparr>],
      d_governance = \<lparr>g_kind = 2, g_threshold = 0\<rparr>, d_recovery = None, d_sigs = [],
      d_commitment = [], d_structure = Inr ()\<rparr>"

theorem signing_bytes_determine_witness:
  "signing_bytes demo_chain demo_doc \<noteq> signing_bytes demo_chain (demo_doc\<lparr>d_revision := 2\<rparr>)"
proof -
  have "doc_small demo_chain demo_doc" "doc_small demo_chain (demo_doc\<lparr>d_revision := 2\<rparr>)"
    by (simp_all add: doc_small_def demo_doc_def demo_chain_def signer_small_def small_def)
  then show ?thesis
    using signing_bytes_determine [OF demo_chain_inj(1)] by (simp add: same_signed_def demo_doc_def)
qed

end
