(* ===== verification/Chain.thy ===== *)
theory Chain
  imports Chain_Signing
begin

text \<open>
  The linear keyring engine of \<open>packages/keyeo-chain/src/lib.rs\<close>: which successor document a
  verified anchor accepts, the walk over many, the entry points that establish an anchor,
  and the compaction of the retained revisions.
\<close>

datatype chain_error =
    GroupMismatch | LayoutAhead | BadStructure string | Structure string | NonSequential
  | RevisionOverflow | Fork | UnendorsedOrdinaryChange | UnendorsedSetChange | WrapIncomplete
  | BadBootstrap

type_synonym ('id, 'r, 'pk) verified = "chain_error + ('id, 'r, 'pk) anchor"

subsection \<open>Structure and policy\<close>

text \<open>The loop over the members; \<open>seen\<close> is the slice before the index.\<close>

fun check_members ::
  "('id, 'r, 'pk, 'sig) chain_env \<Rightarrow> ('id, 'r, 'pk) signer list \<Rightarrow> ('id, 'r, 'pk) signer list \<Rightarrow>
     chain_error + unit" where
  "check_members E seen [] = Inr ()"
| "check_members E seen (m # ms) =
     (if list_ex (\<lambda>x. s_id x = s_id m) seen then Inl (BadStructure ''duplicate member'')
      else if ce_signer E (s_role m) \<and> \<not> sg_accepts (ce_scheme E) (s_key m)
      then Inl (BadStructure ''signer key malformed'')
      else if ce_signer E (s_role m) \<and>
              list_ex (\<lambda>x. ce_signer E (s_role x) \<and> ce_key E (s_key x) = ce_key E (s_key m)) seen
      then Inl (BadStructure ''duplicate signer'')
      else check_members E (seen @ [m]) ms)"

definition check_structure_generic ::
  "('id, 'r, 'pk, 'sig) chain_env \<Rightarrow> ('id, 'r, 'pk, 'sig) doc \<Rightarrow> chain_error + unit" where
  "check_structure_generic E d =
     (if length (filter (\<lambda>m. ce_founder E (s_role m)) (d_members d)) \<noteq> 1
      then Inl (BadStructure ''must have exactly one founder'')
      else check_members E [] (d_members d))"

definition derived_signers ::
  "('id, 'r, 'pk, 'sig) chain_env \<Rightarrow> ('id, 'r, 'pk) signer list \<Rightarrow> ('id, 'r, 'pk) signer list" where
  "derived_signers E ms = filter (\<lambda>m. ce_signer E (s_role m)) ms"

definition same_signer ::
  "('id, 'r, 'pk, 'sig) chain_env \<Rightarrow> ('id, 'r, 'pk) signer \<Rightarrow> ('id, 'r, 'pk) signer \<Rightarrow> bool" where
  "same_signer E a b \<longleftrightarrow>
     s_id a = s_id b \<and> s_role a = s_role b \<and> ce_key E (s_key a) = ce_key E (s_key b)"

definition signer_set_differs ::
  "('id, 'r, 'pk, 'sig) chain_env \<Rightarrow> ('id, 'r, 'pk) signer list \<Rightarrow> ('id, 'r, 'pk) signer list \<Rightarrow> bool" where
  "signer_set_differs E prior cand \<longleftrightarrow>
     length prior \<noteq> length cand \<or>
     list_ex (\<lambda>p. \<not> list_ex (\<lambda>c. same_signer E p c) cand) prior \<or>
     list_ex (\<lambda>c. \<not> list_ex (\<lambda>p. same_signer E p c) prior) cand"

definition removed_signers ::
  "('id, 'r, 'pk, 'sig) chain_env \<Rightarrow> ('id, 'r, 'pk) signer list \<Rightarrow> ('id, 'r, 'pk) signer list \<Rightarrow>
     ('id, 'r, 'pk) signer list" where
  "removed_signers E prior cand = filter (\<lambda>p. \<not> list_ex (\<lambda>c. same_signer E p c) cand) prior"

definition is_self_removal ::
  "('id, 'r, 'pk, 'sig) chain_env \<Rightarrow> ('id, 'r, 'pk) signer list \<Rightarrow> ('id, 'r, 'pk) signer list \<Rightarrow>
     bytes \<Rightarrow> 'sig list \<Rightarrow> bool" where
  "is_self_removal E prior cand msg sigs =
     (let removed = removed_signers E prior cand;
          added = list_ex (\<lambda>c. \<not> list_ex (\<lambda>p. same_signer E p c) prior) cand
      in if added \<or> length removed \<noteq> 1 \<or> ce_founder E (s_role (hd removed)) then False
         else verify_any E msg sigs [s_key (hd removed)])"

definition find_founder ::
  "('id, 'r, 'pk, 'sig) chain_env \<Rightarrow> ('id, 'r, 'pk) signer list \<Rightarrow> ('id, 'r, 'pk) signer option" where
  "find_founder E ss = find (\<lambda>s. ce_founder E (s_role s)) ss"

definition co_owner_keys ::
  "('id, 'r, 'pk, 'sig) chain_env \<Rightarrow> ('id, 'r, 'pk) anchor \<Rightarrow> ('id, 'r, 'pk) signer list \<Rightarrow> 'pk list" where
  "co_owner_keys E prior cand =
     (let departing = map s_key (removed_signers E (an_signers prior) cand);
          is_founder_key = (\<lambda>k. case find_founder E (an_signers prior) of
                                  None \<Rightarrow> False | Some f \<Rightarrow> ce_key E (s_key f) = ce_key E k)
      in filter (\<lambda>k. \<not> is_founder_key k \<and> \<not> list_ex (\<lambda>d. ce_key E d = ce_key E k) departing)
           (map s_key (an_signers prior)))"

definition prior_governance_met ::
  "('id, 'r, 'pk, 'sig) chain_env \<Rightarrow> ('id, 'r, 'pk) anchor \<Rightarrow> ('id, 'r, 'pk) signer list \<Rightarrow>
     bytes \<Rightarrow> 'sig list \<Rightarrow> bool" where
  "prior_governance_met E prior cand msg sigs =
     (let founder_signed = (case find_founder E (an_signers prior) of
                              None \<Rightarrow> False | Some f \<Rightarrow> verify_any E msg sigs [s_key f]);
          prior_keys = map s_key (an_signers prior);
          m = unat (g_threshold (an_governance prior));
          kind = g_kind (an_governance prior)
      in if kind = 1 then founder_signed
         else if kind = 2 then founder_signed \<or> verify_threshold E msg sigs (co_owner_keys E prior cand) m
         else if kind = 3 then verify_threshold E msg sigs prior_keys m
         else founder_signed \<or> verify_all E msg sigs prior_keys)"

definition rule_is_satisfiable :: "governance \<Rightarrow> nat \<Rightarrow> bool" where
  "rule_is_satisfiable g signer_count =
     (let m = unat (g_threshold g)
      in if g_kind g \<le> 2 then True
         else if g_kind g = 3 then 0 < m \<and> m \<le> signer_count
         else False)"

definition next_revision :: "u32 \<Rightarrow> u32 option" where
  "next_revision p = (if p = - 1 then None else Some (p + 1))"

definition anchor_from_doc ::
  "('id, 'r, 'pk, 'sig) chain_env \<Rightarrow> ('id, 'r, 'pk, 'sig) doc \<Rightarrow> bytes \<Rightarrow> ('id, 'r, 'pk) anchor" where
  "anchor_from_doc E d msg =
     \<lparr>an_group = d_group d, an_revision = d_revision d, an_hash = ce_sha E msg,
      an_signers = derived_signers E (d_members d), an_governance = d_governance d,
      an_recovery = d_recovery d\<rparr>"

subsection \<open>Entry points\<close>

text \<open>\<open>cand.structure_ok().map_err(Error::Structure)?; check_structure_generic(cand)?\<close>\<close>

definition structure_gate ::
  "('id, 'r, 'pk, 'sig) chain_env \<Rightarrow> ('id, 'r, 'pk, 'sig) doc \<Rightarrow> chain_error + unit" where
  "structure_gate E d =
     (case d_structure d of
        Inl e \<Rightarrow> Inl (Structure e)
      | Inr _ \<Rightarrow> check_structure_generic E d)"

definition privileged ::
  "('id, 'r, 'pk, 'sig) chain_env \<Rightarrow> ('id, 'r, 'pk) anchor \<Rightarrow> ('id, 'r, 'pk, 'sig) doc \<Rightarrow> bool" where
  "privileged E prior cand \<longleftrightarrow>
     signer_set_differs E (an_signers prior) (derived_signers E (d_members cand)) \<or>
     d_governance cand \<noteq> an_governance prior \<or>
     (an_recovery prior = None \<and> d_recovery cand \<noteq> None)"

definition endorsement_error ::
  "('id, 'r, 'pk, 'sig) chain_env \<Rightarrow> ('id, 'r, 'pk) anchor \<Rightarrow> ('id, 'r, 'pk, 'sig) doc \<Rightarrow>
     chain_error option" where
  "endorsement_error E prior cand =
     (let msg = signing_bytes E cand;
          sigs = d_sigs cand;
          cs = derived_signers E (d_members cand);
          signer_change = signer_set_differs E (an_signers prior) cs
      in if privileged E prior cand then
           (if \<not> (signer_change \<and> is_self_removal E (an_signers prior) cs msg sigs \<or>
                   prior_governance_met E prior cs msg sigs)
            then Some UnendorsedSetChange
            else if \<not> rule_is_satisfiable (d_governance cand) (length cs) then Some UnendorsedSetChange
            else None)
         else if \<not> verify_any E msg sigs (map s_key (an_signers prior))
         then Some UnendorsedOrdinaryChange else None)"

definition recovery_error ::
  "('id, 'r, 'pk, 'sig) chain_env \<Rightarrow> ('id, 'r, 'pk) anchor \<Rightarrow> ('id, 'r, 'pk, 'sig) doc \<Rightarrow>
     chain_error option" where
  "recovery_error E prior cand =
     (case an_recovery prior of
        None \<Rightarrow> None
      | Some old \<Rightarrow>
          if d_recovery cand \<noteq> Some old \<and>
             \<not> verify_any E (signing_bytes E cand) (d_sigs cand) [old]
          then Some UnendorsedSetChange else None)"

definition verify_transition ::
  "('id, 'r, 'pk, 'sig) chain_env \<Rightarrow> ('id, 'r, 'pk) anchor \<Rightarrow> ('id, 'r, 'pk, 'sig) doc \<Rightarrow>
     ('id, 'r, 'pk) verified" where
  "verify_transition E prior cand =
     (if d_group cand \<noteq> an_group prior then Inl GroupMismatch
      else case structure_gate E cand of
        Inl e \<Rightarrow> Inl e
      | Inr _ \<Rightarrow>
          (case next_revision (an_revision prior) of
             None \<Rightarrow> Inl RevisionOverflow
           | Some expected \<Rightarrow>
               if d_revision cand \<noteq> expected then Inl NonSequential
               else if d_prev_hash cand \<noteq> an_hash prior then Inl Fork
               else case endorsement_error E prior cand of
                      Some e \<Rightarrow> Inl e
                    | None \<Rightarrow>
                        (case recovery_error E prior cand of
                           Some e \<Rightarrow> Inl e
                         | None \<Rightarrow> Inr (anchor_from_doc E cand (signing_bytes E cand)))))"

fun verify_walk ::
  "('id, 'r, 'pk, 'sig) chain_env \<Rightarrow> ('id, 'r, 'pk) anchor \<Rightarrow> ('id, 'r, 'pk, 'sig) doc list \<Rightarrow>
     ('id, 'r, 'pk) verified" where
  "verify_walk E prior [] = Inr prior"
| "verify_walk E prior (hop # hops) =
     (case verify_transition E prior hop of
        Inl e \<Rightarrow> Inl e
      | Inr a \<Rightarrow> verify_walk E a hops)"

definition verify_reset ::
  "('id, 'r, 'pk, 'sig) chain_env \<Rightarrow> 'pk option \<Rightarrow> ('id, 'r, 'pk, 'sig) doc \<Rightarrow> ('id, 'r, 'pk) verified" where
  "verify_reset E prior_rvk d =
     (case structure_gate E d of
        Inl e \<Rightarrow> Inl e
      | Inr _ \<Rightarrow>
          let msg = signing_bytes E d;
              sigs = d_sigs d;
              keys = map s_key (derived_signers E (d_members d))
          in if \<not> verify_any E msg sigs keys then Inl BadBootstrap
             else case prior_rvk of
                    None \<Rightarrow> Inr (anchor_from_doc E d msg)
                  | Some p \<Rightarrow>
                      (case d_recovery d of
                         None \<Rightarrow> Inl UnendorsedSetChange
                       | Some rvk \<Rightarrow>
                           if ce_key E rvk \<noteq> ce_key E p then Inl UnendorsedSetChange
                           else if \<not> verify_any E msg sigs [p] then Inl UnendorsedSetChange
                           else Inr (anchor_from_doc E d msg)))"

definition bootstrap_genesis ::
  "('id, 'r, 'pk, 'sig) chain_env \<Rightarrow> ('id, 'r, 'pk, 'sig) doc \<Rightarrow> 'pk \<Rightarrow> ('id, 'r, 'pk) verified" where
  "bootstrap_genesis E genesis own_key =
     (case structure_gate E genesis of
        Inl e \<Rightarrow> Inl e
      | Inr _ \<Rightarrow>
          if d_revision genesis \<noteq> 1 \<or> d_prev_hash genesis \<noteq> replicate 32 0 then Inl BadBootstrap
          else case find (\<lambda>m. ce_founder E (s_role m)) (d_members genesis) of
                 None \<Rightarrow> Inl (BadStructure ''no founder'')
               | Some f \<Rightarrow>
                   if ce_key E (s_key f) \<noteq> ce_key E own_key then Inl BadBootstrap
                   else let msg = signing_bytes E genesis
                        in if \<not> verify_any E msg (d_sigs genesis) [own_key] then Inl BadBootstrap
                           else Inr (anchor_from_doc E genesis msg))"

definition bootstrap_pinned ::
  "('id, 'r, 'pk, 'sig) chain_env \<Rightarrow> ('id, 'r, 'pk, 'sig) doc \<Rightarrow> bytes \<Rightarrow> u32 \<Rightarrow> bytes \<Rightarrow>
     ('id, 'r, 'pk) verified" where
  "bootstrap_pinned E head pin_group revision hash =
     (if d_group head \<noteq> pin_group then Inl GroupMismatch
      else case structure_gate E head of
        Inl e \<Rightarrow> Inl e
      | Inr _ \<Rightarrow>
          let msg = signing_bytes E head
          in if d_revision head \<noteq> revision \<or> ce_sha E msg \<noteq> hash then Inl BadBootstrap
             else if \<not> verify_any E msg (d_sigs head) (map s_key (derived_signers E (d_members head)))
             then Inl BadBootstrap
             else Inr (anchor_from_doc E head msg))"

subsection \<open>Compaction\<close>

text \<open>\<open>Retained::new\<close> sorts and deduplicates; a saturating subtraction on revisions.\<close>

definition retained_new :: "u32 list \<Rightarrow> u32 list" where
  "retained_new revisions = remdups_adj (sort revisions)"

definition saturating_sub32 :: "u32 \<Rightarrow> u32 \<Rightarrow> u32" where
  "saturating_sub32 a b = (if a < b then 0 else a - b)"

record compacted =
  cp_checkpoint :: u32
  cp_prune :: "u32 list"

fun max_of :: "u32 list \<Rightarrow> u32 option" where
  "max_of [] = None"
| "max_of (x # xs) = (case max_of xs of None \<Rightarrow> Some x | Some y \<Rightarrow> Some (max x y))"

definition chain_compact :: "u32 list \<Rightarrow> u32 \<Rightarrow> RetentionPlan \<Rightarrow> compacted option" where
  "chain_compact revisions stable_rev plan =
     (case plan of
        KeepAll \<Rightarrow> None
      | KeepLast n \<Rightarrow>
          let keep_last = sat_u32 n
          in case max_of revisions of
               None \<Rightarrow> None
             | Some head \<Rightarrow>
                 let horizon = min (saturating_sub32 head keep_last) stable_rev
                 in case max_of (filter (\<lambda>r. r \<le> horizon) revisions) of
                      None \<Rightarrow> None
                    | Some checkpoint \<Rightarrow>
                        let prune = filter (\<lambda>r. r < checkpoint) revisions
                        in if prune = [] then None
                           else Some \<lparr>cp_checkpoint = checkpoint, cp_prune = prune\<rparr>)"


subsection \<open>What an accepted successor shows\<close>











text \<open>The facts an accepted transition rests on.\<close>

lemma transition_facts:
  assumes "verify_transition E prior cand = Inr a"
  shows "d_group cand = an_group prior" "structure_gate E cand = Inr ()"
    "next_revision (an_revision prior) = Some (d_revision cand)" "d_prev_hash cand = an_hash prior"
    "endorsement_error E prior cand = None" "recovery_error E prior cand = None"
    "a = anchor_from_doc E cand (signing_bytes E cand)"
  using assms by (auto simp: verify_transition_def split: if_splits sum.splits option.splits)

lemma next_revision_unat:
  assumes "next_revision p = Some q"
  shows "unat q = Suc (unat p)"
proof -
  have "p \<noteq> - 1" "q = p + 1" using assms by (auto simp: next_revision_def split: if_splits)
  then have "p < - 1" using word_not_simps(3) [of p] by (simp add: order.strict_iff_order)
  then show ?thesis using \<open>q = p + 1\<close> unat_Suc_less [of p "- 1"] by simp
qed


text \<open>A two-owner keyring and its successors.\<close>

definition demo_anchor :: "governance \<Rightarrow> (bytes, u8, u8) anchor" where
  "demo_anchor g =
     \<lparr>an_group = [7], an_revision = 1, an_hash = [5], an_signers = d_members demo_doc,
      an_governance = g, an_recovery = None\<rparr>"

lemma signing_bytes_sigs [simp]: "signing_bytes E (d\<lparr>d_sigs := x\<rparr>) = signing_bytes E d"
  by (simp add: signing_bytes_def)


lemmas chain_eval = verify_transition_def structure_gate_def check_structure_generic_def
  next_revision_def endorsement_error_def recovery_error_def privileged_def signer_set_differs_def
  derived_signers_def same_signer_def is_self_removal_def removed_signers_def
  prior_governance_met_def rule_is_satisfiable_def find_founder_def co_owner_keys_def
  verify_threshold_def verify_any_def anchor_from_doc_def demo_anchor_def demo_doc_def
  demo_chain_def



subsection \<open>A rule that asks for nobody\<close>

text \<open>C11: the lockout guard admits the rule founder-or-threshold(0), and once it is in force it
  is met by no signature at all: any next document of the group with a sound structure and a
  satisfiable rule is accepted unsigned, whatever signer set it installs, as long as it
  leaves an established recovery authority alone and changes something privileged.\<close>

theorem zero_threshold_takeover:
  assumes "g_kind (an_governance prior) = 2" "g_threshold (an_governance prior) = 0"
    "d_group cand = an_group prior" "structure_gate E cand = Inr ()"
    "next_revision (an_revision prior) = Some (d_revision cand)" "d_prev_hash cand = an_hash prior"
    "privileged E prior cand"
    "rule_is_satisfiable (d_governance cand) (length (derived_signers E (d_members cand)))"
    "an_recovery prior = None \<or> d_recovery cand = an_recovery prior"
  shows "rule_is_satisfiable (an_governance prior) n \<and>
    verify_transition E prior (cand\<lparr>d_sigs := []\<rparr>) = Inr (anchor_from_doc E cand (signing_bytes E cand))"
proof -
  let ?c = "cand\<lparr>d_sigs := []\<rparr>"
  have gate: "structure_gate E ?c = Inr ()"
    using assms(4) by (auto simp: structure_gate_def check_structure_generic_def split: sum.splits if_splits)
  have "prior_governance_met E prior cs m sigs" for cs m sigs
    using assms(1,2) by (simp add: prior_governance_met_def verify_threshold_def)
  moreover have "privileged E prior ?c" using assms(7) by (simp add: privileged_def)
  ultimately have "endorsement_error E prior ?c = None"
    using assms(8) by (simp add: endorsement_error_def Let_def)
  moreover have "recovery_error E prior ?c = None"
    using assms(9) by (auto simp: recovery_error_def split: option.splits)
  ultimately have "verify_transition E prior ?c = Inr (anchor_from_doc E ?c (signing_bytes E ?c))"
    using assms(3,5,6) gate by (simp add: verify_transition_def)
  then show ?thesis using assms(1) by (simp add: anchor_from_doc_def rule_is_satisfiable_def)
qed

definition demo_thief :: "(bytes, u8, u8, u8 \<times> bytes) doc" where
  "demo_thief = demo_doc\<lparr>d_revision := 2, d_prev_hash := [5],
     d_members := [\<lparr>s_id = [9], s_role = 1, s_key = 9\<rparr>]\<rparr>"

theorem zero_threshold_takeover_witness:
  "map s_id (an_signers (demo_anchor \<lparr>g_kind = 2, g_threshold = 0\<rparr>)) = [[1], [2]] \<and>
   verify_transition demo_chain (demo_anchor \<lparr>g_kind = 2, g_threshold = 0\<rparr>) (demo_thief\<lparr>d_sigs := []\<rparr>) =
     Inr (anchor_from_doc demo_chain demo_thief (signing_bytes demo_chain demo_thief)) \<and>
   map s_id (derived_signers demo_chain (d_members demo_thief)) = [[9]]"
proof -
  let ?a = "demo_anchor \<lparr>g_kind = 2, g_threshold = 0\<rparr>"
  have "structure_gate demo_chain demo_thief = Inr ()" "privileged demo_chain ?a demo_thief"
    "rule_is_satisfiable (d_governance demo_thief) (length (derived_signers demo_chain (d_members demo_thief)))"
    "next_revision (an_revision ?a) = Some (d_revision demo_thief)"
    by (simp_all add: chain_eval demo_thief_def)
  moreover have "g_kind (an_governance ?a) = 2" "g_threshold (an_governance ?a) = 0"
    "d_group demo_thief = an_group ?a" "d_prev_hash demo_thief = an_hash ?a" "an_recovery ?a = None"
    by (simp_all add: demo_anchor_def demo_thief_def demo_doc_def)
  ultimately show ?thesis
    using zero_threshold_takeover [of ?a demo_thief demo_chain]
    by (simp add: demo_anchor_def demo_doc_def demo_thief_def derived_signers_def demo_chain_def)
qed

subsection \<open>Walks\<close>

text \<open>The signer set the engine trusts: signers only, each id and each key once, keys the
  scheme admits.\<close>

definition anchor_wf :: "('id, 'r, 'pk, 'sig) chain_env \<Rightarrow> ('id, 'r, 'pk) anchor \<Rightarrow> bool" where
  "anchor_wf E a \<longleftrightarrow>
     distinct (map s_id (an_signers a)) \<and> distinct (map (\<lambda>s. ce_key E (s_key s)) (an_signers a)) \<and>
     list_all (\<lambda>s. ce_signer E (s_role s) \<and> sg_accepts (ce_scheme E) (s_key s)) (an_signers a)"

lemma check_members_sound:
  "check_members E seen ms = Inr u \<Longrightarrow>
     distinct (map s_id ms) \<and> (\<forall>m \<in> set ms. s_id m \<notin> s_id ` set seen) \<and>
     list_all (\<lambda>s. ce_signer E (s_role s) \<longrightarrow> sg_accepts (ce_scheme E) (s_key s)) ms \<and>
     distinct (map (\<lambda>s. ce_key E (s_key s)) (derived_signers E ms)) \<and>
     (\<forall>m \<in> set (derived_signers E ms).
        \<forall>x \<in> set (derived_signers E seen). ce_key E (s_key m) \<noteq> ce_key E (s_key x))"
proof (induction E seen ms rule: check_members.induct)
  case (2 E seen m ms)
  have c: "\<not> list_ex (\<lambda>x. s_id x = s_id m) seen"
      "\<not> (ce_signer E (s_role m) \<and> \<not> sg_accepts (ce_scheme E) (s_key m))"
      "\<not> (ce_signer E (s_role m) \<and>
          list_ex (\<lambda>x. ce_signer E (s_role x) \<and> ce_key E (s_key x) = ce_key E (s_key m)) seen)"
      "check_members E (seen @ [m]) ms = Inr u"
    using "2.prems" by (auto split: if_splits)
  note ih = "2.IH" [OF c]
  show ?case using ih c(1-3) by (auto simp: derived_signers_def list_ex_iff)
qed (simp add: derived_signers_def)

lemma gate_facts:
  assumes "structure_gate E d = Inr u"
  shows "length (filter (\<lambda>m. ce_founder E (s_role m)) (d_members d)) = 1"
    "check_members E [] (d_members d) = Inr u"
  using assms by (auto simp: structure_gate_def check_structure_generic_def split: sum.splits if_splits)

lemma gate_anchor_wf:
  assumes "structure_gate E d = Inr u"
  shows "anchor_wf E (anchor_from_doc E d msg)"
proof -
  note m = check_members_sound [OF gate_facts(2) [OF assms]]
  have "distinct (map s_id (derived_signers E (d_members d)))"
    using m by (simp add: derived_signers_def distinct_map_filter)
  then show ?thesis using m
    by (auto simp: anchor_wf_def anchor_from_doc_def list_all_iff derived_signers_def)
qed

lemma transition_wf:
  assumes "verify_transition E prior cand = Inr a"
  shows "anchor_wf E a" "an_group a = an_group prior"
    "unat (an_revision a) = Suc (unat (an_revision prior))"
    "an_hash a = ce_sha E (signing_bytes E cand)" "d_prev_hash cand = an_hash prior"
    "length (filter (\<lambda>m. ce_founder E (s_role m)) (d_members cand)) = 1"
    "an_signers a = derived_signers E (d_members cand)"
proof -
  note f = transition_facts [OF assms]
  show "anchor_wf E a" using gate_anchor_wf [OF f(2)] f(7) by simp
qed (use transition_facts [OF assms] gate_facts(1) next_revision_unat in
      \<open>auto simp: anchor_from_doc_def\<close>)

lemma walk_snoc:
  "verify_walk E p (xs @ [d]) =
     (case verify_walk E p xs of Inl e \<Rightarrow> Inl e | Inr a \<Rightarrow> verify_transition E a d)"
  by (induction xs arbitrary: p) (auto split: sum.splits)

lemma walk_snoc_ok:
  assumes "verify_walk E p (xs @ [d]) = Inr a"
  obtains b where "verify_walk E p xs = Inr b" "verify_transition E b d = Inr a"
  using assms by (auto simp: walk_snoc split: sum.splits)

lemma walk_revision:
  "verify_walk E p xs = Inr a \<Longrightarrow>
     unat (an_revision a) = unat (an_revision p) + length xs \<and> an_group a = an_group p"
proof (induction xs arbitrary: a rule: rev_induct)
  case (snoc d xs)
  obtain b where b: "verify_walk E p xs = Inr b" "verify_transition E b d = Inr a"
    using snoc.prems by (rule walk_snoc_ok)
  show ?case using snoc.IH [OF b(1)] transition_wf(2,3) [OF b(2)] by simp
qed simp

text \<open>A walk cannot skip.  Verifying n documents from an anchor succeeds only with
  exactly the next n revisions of the same group, and the anchor reached has a sound signer
  set: signers only, no id and no key twice, every key admitted by the scheme, and exactly
  one founder when a founder counts as a signer.\<close>

theorem walk_advances:
  assumes "verify_walk E p xs = Inr a" "xs \<noteq> []"
  shows "unat (an_revision a) = unat (an_revision p) + length xs \<and> an_group a = an_group p \<and>
    anchor_wf E a \<and> an_hash a = doc_hash E (last xs) \<and>
    ((\<forall>r. ce_founder E r \<longrightarrow> ce_signer E r) \<longrightarrow>
       length (filter (\<lambda>m. ce_founder E (s_role m)) (an_signers a)) = 1)"
proof -
  obtain ys d where xs: "xs = ys @ [d]" using assms(2) by (cases xs rule: rev_cases) auto
  obtain b where b: "verify_transition E b d = Inr a"
    using assms(1) unfolding xs by (rule walk_snoc_ok)
  note f = transition_wf [OF b]
  have "filter (\<lambda>m. ce_founder E (s_role m)) (an_signers a) =
      filter (\<lambda>m. ce_founder E (s_role m)) (d_members d)"
    if "\<forall>r. ce_founder E r \<longrightarrow> ce_signer E r"
    using that by (auto simp: f(7) derived_signers_def intro: filter_cong)
  then show ?thesis using walk_revision [OF assms(1)] f by (simp add: xs doc_hash_def)
qed

theorem walk_advances_witness:
  "\<exists>a. verify_walk demo_chain (demo_anchor \<lparr>g_kind = 2, g_threshold = 0\<rparr>) [demo_thief\<lparr>d_sigs := []\<rparr>] = Inr a \<and>
     anchor_wf demo_chain a"
proof -
  have "verify_walk demo_chain (demo_anchor \<lparr>g_kind = 2, g_threshold = 0\<rparr>) [demo_thief\<lparr>d_sigs := []\<rparr>] =
      Inr (anchor_from_doc demo_chain demo_thief (signing_bytes demo_chain demo_thief))"
    by (simp add: chain_eval demo_thief_def)
  then show ?thesis using walk_advances by blast
qed


subsection \<open>One history per head\<close>

text \<open>C10: the head hash pins the whole history.  Two walks from the same anchor that end at
  the same revision with the same hash went over the same documents, field by field, unless
  two of the signed messages collide under the hash.\<close>

theorem history_unique:
  assumes "env_inj E" "inj_on (ce_sha E) (signing_bytes E ` (set xs \<union> set ys))"
    "list_all (doc_small E) xs" "list_all (doc_small E) ys"
    "verify_walk E p xs = Inr a" "verify_walk E p ys = Inr b"
    "an_revision a = an_revision b" "an_hash a = an_hash b"
  shows "list_all2 same_signed xs ys"
proof -
  have len: "length xs = length ys"
    using walk_revision [OF assms(5)] walk_revision [OF assms(6)] assms(7) by simp
  have "length xs = length ys \<Longrightarrow> set xs \<subseteq> X \<Longrightarrow> set ys \<subseteq> X \<Longrightarrow> list_all (doc_small E) xs \<Longrightarrow>
      list_all (doc_small E) ys \<Longrightarrow> verify_walk E p xs = Inr a \<Longrightarrow> verify_walk E p ys = Inr b \<Longrightarrow>
      an_hash a = an_hash b \<Longrightarrow> list_all2 same_signed xs ys"
    if X: "inj_on (ce_sha E) (signing_bytes E ` X)" for X a b
  proof (induction xs arbitrary: ys a b rule: rev_induct)
    case (snoc d xs)
    obtain ys' e where ys: "ys = ys' @ [e]" using snoc.prems(1) by (cases ys rule: rev_cases) auto
    obtain a' where a': "verify_walk E p xs = Inr a'" "verify_transition E a' d = Inr a"
      using snoc.prems(6) by (rule walk_snoc_ok)
    obtain b' where b': "verify_walk E p ys' = Inr b'" "verify_transition E b' e = Inr b"
      using snoc.prems(7) unfolding ys by (rule walk_snoc_ok)
    have "ce_sha E (signing_bytes E d) = ce_sha E (signing_bytes E e)"
      using snoc.prems(8) transition_wf(4) [OF a'(2)] transition_wf(4) [OF b'(2)] by simp
    then have "signing_bytes E d = signing_bytes E e"
      by (rule inj_onD [OF X]) (use snoc.prems(2,3) ys in auto)
    then have same: "same_signed d e"
      using signing_bytes_eq [OF assms(1)] snoc.prems(4,5) ys by simp
    then have "an_hash a' = an_hash b'"
      using transition_wf(5) [OF a'(2)] transition_wf(5) [OF b'(2)] by (simp add: same_signed_def)
    then have "list_all2 same_signed xs ys'"
      using snoc.IH [OF _ _ _ _ _ a'(1) b'(1)] snoc.prems ys by simp
    then show ?case using same ys by (simp add: list_all2_appendI)
  qed simp
  from this [OF assms(2) len _ _ assms(3-6) assms(8)] show ?thesis by blast
qed

theorem history_unique_witness:
  "list_all2 same_signed [demo_thief\<lparr>d_sigs := []\<rparr>] [demo_thief\<lparr>d_sigs := [(3, [])]\<rparr>]"
proof (rule history_unique [OF demo_chain_inj(1)])
  let ?p = "demo_anchor \<lparr>g_kind = 2, g_threshold = 0\<rparr>"
  let ?a = "anchor_from_doc demo_chain demo_thief (signing_bytes demo_chain demo_thief)"
  show "verify_walk demo_chain ?p [demo_thief\<lparr>d_sigs := []\<rparr>] = Inr ?a"
    by (simp add: chain_eval demo_thief_def)
  show "verify_walk demo_chain ?p [demo_thief\<lparr>d_sigs := [(3, [])]\<rparr>] = Inr ?a"
    by (simp add: chain_eval demo_thief_def) (simp add: signing_bytes_def)
  show "inj_on (ce_sha demo_chain) (signing_bytes demo_chain `
      (set [demo_thief\<lparr>d_sigs := []\<rparr>] \<union> set [demo_thief\<lparr>d_sigs := [(3, [])]\<rparr>]))"
    by (simp add: demo_chain_def)
qed (simp_all add: doc_small_def demo_thief_def demo_doc_def demo_chain_def signer_small_def small_def)

subsection \<open>Pruning\<close>

lemma max_of_Some:
  "max_of xs = Some m \<longleftrightarrow> m \<in> set xs \<and> (\<forall>x \<in> set xs. x \<le> m)"
proof (induction xs arbitrary: m)
  case (Cons x xs)
  show ?case
  proof (cases "max_of xs")
    case None
    then have "xs = []" by (cases xs) (auto split: option.splits)
    then show ?thesis by auto
  next
    case (Some y)
    then show ?thesis using Cons.IH [of y] by (auto simp: max_def intro: order.antisym)
  qed
qed simp

lemma saturating_sub32_le: "saturating_sub32 a b \<le> a"
  by (auto simp: saturating_sub32_def word_le_nat_alt unat_sub word_less_nat_alt)

lemma saturating_sub32_back: "c \<le> saturating_sub32 a b \<Longrightarrow> b \<le> a \<Longrightarrow> unat c + unat b \<le> unat a"
  by (auto simp: saturating_sub32_def word_le_nat_alt unat_sub word_less_nat_alt split: if_splits)

text \<open>Compaction never strands a reader.  Its checkpoint is a retained revision at or
  below the stable cut, what it prunes is exactly what is retained below the checkpoint, and
  of the last \<open>keep_last\<close> revisions up to the head none is pruned; under \<open>KeepAll\<close> nothing is.\<close>

theorem chain_compact_safe:
  assumes "chain_compact revisions stable_rev plan = Some c" "max_of revisions = Some head"
  shows "\<exists>n. plan = KeepLast n \<and> cp_checkpoint c \<in> set revisions \<and> cp_checkpoint c \<le> stable_rev \<and>
    set (cp_prune c) = {r \<in> set revisions. r < cp_checkpoint c} \<and> cp_prune c \<noteq> [] \<and>
    (\<forall>r \<in> set (cp_prune c). unat r + min n (2 ^ 32 - 1) < unat head)"
proof -
  obtain n where n: "plan = KeepLast n" using assms(1) by (cases plan) (simp_all add: chain_compact_def)
  let ?h = "min (saturating_sub32 head (sat_u32 n)) stable_rev"
  obtain m where m: "max_of (filter (\<lambda>r. r \<le> ?h) revisions) = Some m"
      "c = \<lparr>cp_checkpoint = m, cp_prune = filter (\<lambda>r. r < m) revisions\<rparr>" "filter (\<lambda>r. r < m) revisions \<noteq> []"
    using assms n by (auto simp: chain_compact_def Let_def split: option.splits if_splits)
  have mf: "m \<in> set revisions" "m \<le> ?h" using m(1) by (auto simp: max_of_Some)
  have sat: "unat (sat_u32 n) = min n (2 ^ 32 - 1)"
    by (auto simp: sat_u32_def unat_of_nat unsigned_minus_1_eq_mask mask_eq_exp_minus_1 min_def)
  have keep: "unat r + min n (2 ^ 32 - 1) < unat head" if r: "r < m" for r
  proof -
    have "r < saturating_sub32 head (sat_u32 n)" using r mf(2) by auto
    moreover from this have "\<not> head < sat_u32 n" by (auto simp: saturating_sub32_def word_less_nat_alt)
    ultimately have "unat r < unat head - unat (sat_u32 n)" "unat (sat_u32 n) \<le> unat head"
      by (auto simp: saturating_sub32_def word_less_nat_alt unat_sub word_le_nat_alt not_less)
    then show ?thesis using sat by simp
  qed
  show ?thesis using n m(2,3) mf keep by (intro exI [of _ n]) auto
qed

theorem chain_compact_safe_witness:
  "unat (2 :: u32) + min 2 (2 ^ 32 - 1) < unat (6 :: u32) \<and>
   unat (3 :: u32) + min 2 (2 ^ 32 - 1) < unat (6 :: u32)"
proof -
  have r: "retained_new [3, 6, 2, 4, 5, 5] = [2, 3, 4, 5, 6]" by (simp add: retained_new_def)
  have m: "max_of (retained_new [3, 6, 2, 4, 5, 5]) = Some 6" by (simp add: r max_def)
  have h: "min (saturating_sub32 6 (sat_u32 2)) 5 = 4"
    by (simp add: saturating_sub32_def sat_u32_def min_def)
  have f: "filter (\<lambda>r. r \<le> 4) [2, 3, 4, 5, 6] = [2, 3, 4 :: u32]"
    "filter (\<lambda>r. r < 4) [2, 3, 4, 5, 6] = [2, 3 :: u32]" "max_of [2, 3, 4] = Some 4"
    by (simp_all add: max_def)
  have "chain_compact (retained_new [3, 6, 2, 4, 5, 5]) 5 (KeepLast 2) = Some \<lparr>cp_checkpoint = 4, cp_prune = [2, 3]\<rparr>"
    unfolding chain_compact_def RetentionPlan.case Let_def m option.case h unfolding r f
    by simp
  from chain_compact_safe [OF this m] obtain n where
    "KeepLast 2 = KeepLast n" "\<forall>r \<in> set [2, 3]. unat (r :: u32) + min n (2 ^ 32 - 1) < unat (6 :: u32)"
    unfolding compacted.simps by blast
  then show ?thesis unfolding RetentionPlan.inject list.set by blast
qed

end
