(* ===== verification/Dag_Types.thy ===== *)
theory Dag_Types
  imports Keyeo_Core
begin

text \<open>
  The membership state of the causal keyring engine and the fold of one action into it:
  \<open>packages/keyeo-dag/src/dag/resolver.rs\<close>, \<open>dag/lamport.rs\<close>, \<open>access.rs\<close>, \<open>op.rs\<close> and the
  policy seam of \<open>quorum.rs\<close>.  A member table is an ordered map: the code's \<open>HashMap\<close> is
  iterated only where the result is sorted or is a set.
\<close>

subsection \<open>Actions, operations and states\<close>

record ('id, 'r, 'pk) member_init =
  mi_id :: 'id
  mi_role :: 'r
  mi_key :: 'pk
  mi_hpke :: bytes

datatype ('id, 'r, 'pk, 'sig) action =
    Create "('id, 'r, 'pk) member_init list"
  | Add 'id 'r 'pk bytes "'sig option"
  | Remove 'id
  | ChangeRole 'id 'r
  | Propose bytes "('id, 'r, 'pk, 'sig) action"
  | Approve bytes
  | Commit bytes
  | ReFound 'id 'pk bytes u64
  | RotateRecoveryAuthority 'pk
  | Retarget 'id 'pk bytes
  | Reseal

record ('o, 'id, 'r, 'pk, 'sig) dag_op =
  op_id :: 'o
  op_group :: bytes
  op_parents :: "'o list"
  op_author :: 'id
  op_action :: "('id, 'r, 'pk, 'sig) action"
  op_sig :: 'sig
  op_key :: 'pk
  op_sealing :: bytes

record ('r, 'pk) member_state =
  ms_role :: 'r
  ms_counter :: u64
  ms_access :: u64
  ms_key :: 'pk
  ms_hpke :: bytes

record ('id, 'r, 'pk) group_state =
  gs_members :: "('id, ('r, 'pk) member_state) btmap"
  gs_reset :: "'pk option"
  gs_group :: bytes

datatype 'id membership_event = MemberAdded 'id | MemberRemoved 'id | RoleChanged 'id

datatype 'id action_error =
    AlreadyActive 'id | NotMember 'id | AlreadyRemoved 'id | NotActive 'id | NotActiveTo 'id string

definition is_active :: "('r, 'pk) member_state \<Rightarrow> bool" where
  "is_active m \<longleftrightarrow> ms_counter m mod 2 = 0"

lemma is_active_even: "is_active m \<longleftrightarrow> even (ms_counter m)"
  by (simp add: is_active_def even_iff_mod_2_eq_zero)

definition member_new :: "'r \<Rightarrow> 'pk \<Rightarrow> bytes \<Rightarrow> ('r, 'pk) member_state" where
  "member_new r k h = \<lparr>ms_role = r, ms_counter = 0, ms_access = 0, ms_key = k, ms_hpke = h\<rparr>"

definition state_new :: "('id, 'r, 'pk) group_state" where
  "state_new = \<lparr>gs_members = [], gs_reset = None, gs_group = []\<rparr>"

definition state_create ::
  "bytes \<Rightarrow> ('id::linorder, 'r, 'pk) member_init list \<Rightarrow> ('id, 'r, 'pk) group_state" where
  "state_create g inits =
     foldl (\<lambda>s i. s\<lparr>gs_members := bt_insert (mi_id i) (member_new (mi_role i) (mi_key i) (mi_hpke i)) (gs_members s)\<rparr>)
       (state_new\<lparr>gs_group := g\<rparr>) inits"

definition with_group_id :: "bytes \<Rightarrow> ('id, 'r, 'pk) group_state \<Rightarrow> ('id, 'r, 'pk) group_state" where
  "with_group_id g s = s\<lparr>gs_group := g\<rparr>"

definition with_reset_authority :: "'pk option \<Rightarrow> ('id, 'r, 'pk) group_state \<Rightarrow> ('id, 'r, 'pk) group_state" where
  "with_reset_authority k s = s\<lparr>gs_reset := k\<rparr>"

text \<open>Filtering the ordered table keeps it sorted by id.\<close>

definition active_members :: "('id, 'r, 'pk) group_state \<Rightarrow> ('id \<times> 'r) list" where
  "active_members s = map (\<lambda>(i, m). (i, ms_role m)) (filter (\<lambda>(i, m). is_active m) (gs_members s))"

definition has_access ::
  "('r \<Rightarrow> 'r \<Rightarrow> bool) \<Rightarrow> ('id, 'r, 'pk) group_state \<Rightarrow> 'id \<Rightarrow> 'r \<Rightarrow> bool" where
  "has_access grants s member min_r =
     (case bt_get (gs_members s) member of
        None \<Rightarrow> False
      | Some m \<Rightarrow> is_active m \<and> grants (ms_role m) min_r)"

text \<open>The registered key at the op's position, or the recovery authority for a re-founding.\<close>

definition key_matches_registration ::
  "('id, 'r, 'pk) group_state \<Rightarrow> ('o, 'id, 'r, 'pk, 'sig) dag_op \<Rightarrow> bool" where
  "key_matches_registration s op =
     (let registered = (case bt_get (gs_members s) (op_author op) of
                          None \<Rightarrow> False | Some m \<Rightarrow> ms_key m = op_key op)
      in case op_action op of
           Create _ \<Rightarrow> True
         | Add member _ _ _ _ \<Rightarrow> if member = op_author op then True else registered
         | ReFound _ _ _ _ \<Rightarrow> gs_reset s = Some (op_key op)
         | _ \<Rightarrow> registered)"

subsection \<open>Folding one action\<close>

type_synonym ('id, 'r, 'pk) apply_result =
  "'id action_error + ('id, 'r, 'pk) group_state \<times> 'id membership_event list"

definition set_member ::
  "'id::linorder \<Rightarrow> ('r, 'pk) member_state \<Rightarrow> ('id, 'r, 'pk) group_state \<Rightarrow> ('id, 'r, 'pk) group_state" where
  "set_member i m s = s\<lparr>gs_members := bt_insert i m (gs_members s)\<rparr>"

definition apply_add ::
  "('id::linorder, 'r, 'pk) group_state \<Rightarrow> 'id \<Rightarrow> 'r \<Rightarrow> 'pk \<Rightarrow> bytes \<Rightarrow> ('id, 'r, 'pk) apply_result" where
  "apply_add s member r k h =
     (case bt_get (gs_members s) member of
        Some m \<Rightarrow>
          if \<not> is_active m
          then Inr (set_member member
                 (m\<lparr>ms_counter := ms_counter m + 1, ms_role := r, ms_key := k, ms_hpke := h\<rparr>) s,
                 [MemberAdded member])
          else Inl (AlreadyActive member)
      | None \<Rightarrow> Inr (set_member member (member_new r k h) s, [MemberAdded member]))"

definition apply_remove ::
  "('id::linorder, 'r, 'pk) group_state \<Rightarrow> 'id \<Rightarrow> ('id, 'r, 'pk) apply_result" where
  "apply_remove s member =
     (case bt_get (gs_members s) member of
        None \<Rightarrow> Inl (NotMember member)
      | Some m \<Rightarrow>
          if \<not> is_active m then Inl (AlreadyRemoved member)
          else Inr (set_member member (m\<lparr>ms_counter := ms_counter m + 1\<rparr>) s, [MemberRemoved member]))"

definition apply_change_role ::
  "('id::linorder, 'r, 'pk) group_state \<Rightarrow> 'id \<Rightarrow> 'r \<Rightarrow> ('id, 'r, 'pk) apply_result" where
  "apply_change_role s member r =
     (case bt_get (gs_members s) member of
        None \<Rightarrow> Inl (NotMember member)
      | Some m \<Rightarrow>
          if \<not> is_active m then Inl (NotActive member)
          else Inr (set_member member (m\<lparr>ms_role := r, ms_access := ms_access m + 1\<rparr>) s, [RoleChanged member]))"

definition retarget_keys ::
  "('id::linorder, 'r, 'pk) group_state \<Rightarrow> 'id \<Rightarrow> 'pk \<Rightarrow> bytes \<Rightarrow> string \<Rightarrow> ('id, 'r, 'pk) apply_result" where
  "retarget_keys s member k h verb =
     (case bt_get (gs_members s) member of
        Some m \<Rightarrow>
          if is_active m
          then Inr (set_member member (m\<lparr>ms_key := k, ms_hpke := h, ms_access := ms_access m + 1\<rparr>) s, [])
          else Inl (NotActiveTo member verb)
      | None \<Rightarrow> Inl (NotActiveTo member verb))"

definition apply_action ::
  "('id::linorder, 'r, 'pk) group_state \<Rightarrow> ('id, 'r, 'pk, 'sig) action \<Rightarrow> ('id, 'r, 'pk) apply_result" where
  "apply_action s a =
     (case a of
        Create inits \<Rightarrow> Inr ((state_create (gs_group s) inits)\<lparr>gs_reset := gs_reset s\<rparr>, [])
      | Add member r k h _ \<Rightarrow> apply_add s member r k h
      | Remove member \<Rightarrow> apply_remove s member
      | ChangeRole member r \<Rightarrow> apply_change_role s member r
      | ReFound member k h _ \<Rightarrow> retarget_keys s member k h ''re-found''
      | Retarget member k h \<Rightarrow> retarget_keys s member k h ''retarget''
      | RotateRecoveryAuthority k \<Rightarrow> Inr (s\<lparr>gs_reset := Some k\<rparr>, [])
      | Reseal \<Rightarrow> Inr (s, [])
      | Propose _ _ \<Rightarrow> Inr (s, [])
      | Approve _ \<Rightarrow> Inr (s, [])
      | Commit _ \<Rightarrow> Inr (s, []))"

definition apply_remove_unsafe ::
  "('id::linorder, 'r, 'pk) group_state \<Rightarrow> 'id \<Rightarrow> ('id, 'r, 'pk) group_state" where
  "apply_remove_unsafe s member =
     (case bt_get (gs_members s) member of
        None \<Rightarrow> s
      | Some m \<Rightarrow> if ms_counter m mod 2 = 0 then set_member member (m\<lparr>ms_counter := ms_counter m + 1\<rparr>) s else s)"

text \<open>\<open>if let Ok((next, _)) = apply_action(..) { state = next }\<close>\<close>

definition fold_action ::
  "('id::linorder, 'r, 'pk, 'sig) action \<Rightarrow> ('id, 'r, 'pk) group_state \<Rightarrow> ('id, 'r, 'pk) group_state" where
  "fold_action a s = (case apply_action s a of Inl _ \<Rightarrow> s | Inr (s', _) \<Rightarrow> s')"

subsection \<open>Access control and quorum policy\<close>

record ('id, 'r, 'pk, 'sig) access_control =
  ac_authorized :: "('id, 'r, 'pk) group_state \<Rightarrow> 'id \<Rightarrow> ('id, 'r, 'pk, 'sig) action \<Rightarrow> bool"
  ac_privileged :: "('id, 'r, 'pk) group_state \<Rightarrow> ('id, 'r, 'pk, 'sig) action \<Rightarrow> bool"

definition default_access :: "('r \<Rightarrow> 'r \<Rightarrow> bool) \<Rightarrow> 'r \<Rightarrow> ('id, 'r, 'pk, 'sig) access_control" where
  "default_access grants min_r =
     \<lparr>ac_authorized = (\<lambda>s author a.
        case a of
          Create inits \<Rightarrow> list_ex (\<lambda>m. mi_id m = author) inits
        | _ \<Rightarrow> has_access grants s author min_r),
      ac_privileged = (\<lambda>s a. False)\<rparr>"

definition dyn_access ::
  "(('id, 'r, 'pk) group_state \<Rightarrow> 'id \<Rightarrow> ('id, 'r, 'pk, 'sig) action \<Rightarrow> bool) \<Rightarrow>
     ('id, 'r, 'pk, 'sig) access_control" where
  "dyn_access f = \<lparr>ac_authorized = f, ac_privileged = (\<lambda>s a. False)\<rparr>"

record ('id, 'r, 'pk, 'sig) quorum_policy =
  qp_eligible :: "('id, 'r, 'pk) group_state \<Rightarrow> ('id, 'r, 'pk, 'sig) action \<Rightarrow> 'id set"
  qp_requirement :: "('id, 'r, 'pk) group_state \<Rightarrow> ('id, 'r, 'pk, 'sig) action \<Rightarrow> 'id Requirement"

definition individual :: "('id, 'r, 'pk, 'sig) quorum_policy" where
  "individual = \<lparr>qp_eligible = (\<lambda>s a. {}), qp_requirement = (\<lambda>s a. AllOf {})\<rparr>"


subsection \<open>What an accepted action does\<close>

definition active_ids :: "('id, 'r, 'pk) group_state \<Rightarrow> 'id set" where
  "active_ids s = {i. case bt_get (gs_members s) i of None \<Rightarrow> False | Some m \<Rightarrow> is_active m}"

definition member_key :: "('id, 'r, 'pk) group_state \<Rightarrow> 'id \<Rightarrow> 'pk option" where
  "member_key s i = map_option ms_key (bt_get (gs_members s) i)"

definition state_wf :: "('id::linorder, 'r, 'pk) group_state \<Rightarrow> bool" where
  "state_wf s \<longleftrightarrow> bt_wf (gs_members s)"

text \<open>\<open>sets_member_key\<close> of \<open>dag/strong_remove.rs\<close>: the four actions that register a key.\<close>

fun sets_member_key :: "('id, 'r, 'pk, 'sig) action \<Rightarrow> 'id \<Rightarrow> bool" where
  "sets_member_key (Create inits) member = list_ex (\<lambda>m. mi_id m = member) inits"
| "sets_member_key (Add m _ _ _ _) member = (m = member)"
| "sets_member_key (ReFound m _ _ _) member = (m = member)"
| "sets_member_key (Retarget m _ _) member = (m = member)"
| "sets_member_key _ member = False"

lemmas action_simps = apply_action_def apply_add_def apply_remove_def apply_change_role_def
  retarget_keys_def set_member_def member_new_def is_active_even

lemma set_member_simps [simp]:
  "gs_reset (set_member i m s) = gs_reset s" "gs_group (set_member i m s) = gs_group s"
  "bt_get (gs_members (set_member i m s)) = (bt_get (gs_members s))(i \<mapsto> m)"
  "state_wf s \<Longrightarrow> state_wf (set_member i m s)"
  by (simp_all add: set_member_def state_wf_def)

lemma is_active_simps [simp]:
  "is_active (member_new r k h)"
  "is_active (m\<lparr>ms_counter := ms_counter m + 1\<rparr>) \<longleftrightarrow> \<not> is_active m"
  "is_active (m\<lparr>ms_counter := ms_counter m + 1, ms_role := r, ms_key := k, ms_hpke := h\<rparr>) \<longleftrightarrow> \<not> is_active m"
  "is_active (m\<lparr>ms_role := r, ms_access := c\<rparr>) \<longleftrightarrow> is_active m"
  "is_active (m\<lparr>ms_key := k, ms_hpke := h, ms_access := c\<rparr>) \<longleftrightarrow> is_active m"
  by (simp_all add: is_active_even member_new_def)

lemma active_ids_set_member [simp]:
  "active_ids (set_member i m s) = (if is_active m then insert i (active_ids s) else active_ids s - {i})"
  by (auto simp: active_ids_def)

lemma active_ids_reset [simp]: "active_ids (s\<lparr>gs_reset := k\<rparr>) = active_ids s"
  by (simp add: active_ids_def)

lemma active_ids_mem: "bt_get (gs_members s) i = Some m \<Longrightarrow> i \<in> active_ids s \<longleftrightarrow> is_active m"
  "bt_get (gs_members s) i = None \<Longrightarrow> i \<notin> active_ids s"
  by (simp_all add: active_ids_def)

lemma state_create_fold:
  "state_wf s \<Longrightarrow>
     state_wf (foldl (\<lambda>s i. s\<lparr>gs_members := bt_insert (mi_id i) (f i) (gs_members s)\<rparr>) s inits) \<and>
     gs_group (foldl (\<lambda>s i. s\<lparr>gs_members := bt_insert (mi_id i) (f i) (gs_members s)\<rparr>) s inits) = gs_group s \<and>
     gs_reset (foldl (\<lambda>s i. s\<lparr>gs_members := bt_insert (mi_id i) (f i) (gs_members s)\<rparr>) s inits) = gs_reset s"
  by (induction inits arbitrary: s) (simp_all add: state_wf_def)

lemma state_create_wf [simp]: "state_wf (state_create g inits)" "gs_group (state_create g inits) = g"
  using state_create_fold [of "state_new\<lparr>gs_group := g\<rparr>"
      "\<lambda>i. member_new (mi_role i) (mi_key i) (mi_hpke i)" inits]
  by (simp_all add: state_create_def state_new_def state_wf_def)

lemma fold_action_wf [simp]: "state_wf s \<Longrightarrow> state_wf (fold_action a s)"
  by (cases a)
    (auto simp: fold_action_def apply_action_def apply_add_def apply_remove_def apply_change_role_def
        retarget_keys_def state_wf_def set_member_def state_create_wf(1) [unfolded state_wf_def]
        split: option.splits sum.splits if_splits)

lemma fold_action_group [simp]: "gs_group (fold_action a s) = gs_group s"
  by (cases a)
    (auto simp: fold_action_def apply_action_def apply_add_def apply_remove_def apply_change_role_def
        retarget_keys_def split: option.splits sum.splits if_splits)

text \<open>A member's key changes only through an action that registers it.\<close>

lemma fold_action_key:
  assumes "\<not> sets_member_key a i" "\<forall>inits. a \<noteq> Create inits"
  shows "member_key (fold_action a s) i = member_key s i"
  using assms
  by (cases a)
    (auto simp: fold_action_def apply_action_def apply_add_def apply_remove_def apply_change_role_def
        retarget_keys_def member_key_def split: option.splits sum.splits if_splits)

text \<open>An accepted action changes the membership by what it names and by nothing else: an
  \<open>Add\<close> makes exactly its member active, a \<open>Remove\<close> exactly its member inactive, every other
  action leaves the active set alone; the events say so; no id ever leaves the table, the
  group id never changes, and only a rotation touches the recovery authority.\<close>

theorem apply_action_effect:
  assumes "apply_action s a = Inr (s', evs)" "\<forall>inits. a \<noteq> Create inits"
  shows "active_ids s' = (case a of Add m _ _ _ _ \<Rightarrow> insert m (active_ids s)
                            | Remove m \<Rightarrow> active_ids s - {m} | _ \<Rightarrow> active_ids s) \<and>
    (\<forall>i. MemberAdded i \<in> set evs \<longleftrightarrow> i \<in> active_ids s' - active_ids s) \<and>
    (\<forall>i. MemberRemoved i \<in> set evs \<longleftrightarrow> i \<in> active_ids s - active_ids s') \<and>
    dom (bt_get (gs_members s)) \<subseteq> dom (bt_get (gs_members s')) \<and> gs_group s' = gs_group s \<and>
    gs_reset s' = (case a of RotateRecoveryAuthority k \<Rightarrow> Some k | _ \<Rightarrow> gs_reset s)"
  using assms
  by (cases a)
    (auto simp: apply_action_def apply_add_def apply_remove_def apply_change_role_def retarget_keys_def
        active_ids_mem split: option.splits if_splits)

definition demo_state :: "(int, int, int) group_state" where
  "demo_state = state_create [7] [\<lparr>mi_id = 1, mi_role = 9, mi_key = 11, mi_hpke = []\<rparr>,
     \<lparr>mi_id = 2, mi_role = 9, mi_key = 12, mi_hpke = []\<rparr>]"

theorem apply_action_effect_witness:
  "active_ids (fold_action (Remove 2 :: (int, int, int, int) action) demo_state) = {1}"
proof -
  have a: "apply_action demo_state (Remove 2 :: (int, int, int, int) action) =
      Inr (fold_action (Remove 2 :: (int, int, int, int) action) demo_state, [MemberRemoved 2])"
    by (simp add: fold_action_def demo_state_def state_create_def state_new_def action_simps)
  have "active_ids demo_state = {1, 2}"
    by (auto simp: active_ids_def demo_state_def state_create_def state_new_def action_simps split: if_splits)
  then show ?thesis using apply_action_effect [OF a] by auto
qed

end
