(* ===== verification/Dag_Canonical.thy ===== *)
theory Dag_Canonical
  imports Dag_Types
begin

text \<open>
  The signed bytes of the causal keyring engine, \<open>packages/keyeo-dag/src/canonical.rs\<close>, and the
  content-addressed ids of \<open>content.rs\<close>.  The postcard encodings of ids and roles, the bytes of
  keys and signatures and SHA-256 are the fields of \<open>codec_env\<close>; \<open>codec_ok\<close> states what the
  code relies on: each of those encodings delimits itself.
\<close>

record ('o, 'id, 'r, 'pk, 'sig) codec_env =
  cd_oid :: "'o \<Rightarrow> bytes"
  cd_id :: "'id \<Rightarrow> bytes"
  cd_role :: "'r \<Rightarrow> bytes"
  cd_pk :: "'pk \<Rightarrow> bytes"
  cd_sig :: "'sig \<Rightarrow> bytes"
  cd_sha :: "bytes \<Rightarrow> bytes"

definition delimited :: "('a \<Rightarrow> bytes) \<Rightarrow> bool" where
  "delimited f \<longleftrightarrow> (\<forall>x y u v. f x @ u = f y @ v \<longrightarrow> x = y)"

definition codec_ok :: "('o, 'id, 'r, 'pk, 'sig) codec_env \<Rightarrow> bool" where
  "codec_ok C \<longleftrightarrow> delimited (cd_oid C) \<and> delimited (cd_id C) \<and> delimited (cd_role C) \<and>
     delimited (cd_pk C) \<and> delimited (cd_sig C)"

definition u64_le :: "u64 \<Rightarrow> bytes" where
  "u64_le w = rev (u64_be w)"

definition len_le :: "'a list \<Rightarrow> bytes" where
  "len_le xs = u64_le (of_nat (length xs))"

subsection \<open>The encoders\<close>

definition write_init :: "('o, 'id, 'r, 'pk, 'sig) codec_env \<Rightarrow> ('id, 'r, 'pk) member_init \<Rightarrow> bytes" where
  "write_init C m = cd_id C (mi_id m) @ cd_role C (mi_role m) @ cd_pk C (mi_key m) @ mi_hpke m"

fun write_action :: "('o, 'id, 'r, 'pk, 'sig) codec_env \<Rightarrow> ('id, 'r, 'pk, 'sig) action \<Rightarrow> bytes" where
  "write_action C (Create inits) = 0 # len_le inits @ concat (map (write_init C) inits)"
| "write_action C (Add member r k h proof_sig) =
     1 # cd_id C member @ cd_role C r @ cd_pk C k @ h @
       (case proof_sig of Some s \<Rightarrow> 1 # cd_sig C s | None \<Rightarrow> [0])"
| "write_action C (Remove member) = 2 # cd_id C member"
| "write_action C (ChangeRole member r) = 3 # cd_id C member @ cd_role C r"
| "write_action C (Propose pid target) = 4 # pid @ write_action C target"
| "write_action C (Approve pid) = 5 # pid"
| "write_action C (Commit pid) = 6 # pid"
| "write_action C (ReFound member k h era) = 7 # cd_id C member @ cd_pk C k @ h @ u64_le era"
| "write_action C (RotateRecoveryAuthority k) = 8 # cd_pk C k"
| "write_action C (Retarget member k h) = 9 # cd_id C member @ cd_pk C k @ h"
| "write_action C Reseal = [10]"

text \<open>The ASCII bytes of \<open>keyeo:op:v3\<close>.\<close>

definition OP_TAG :: bytes where
  "OP_TAG = [0x6B, 0x65, 0x79, 0x65, 0x6F, 0x3A, 0x6F, 0x70, 0x3A, 0x76, 0x33]"

definition canonical_encode ::
  "('o, 'id, 'r, 'pk, 'sig) codec_env \<Rightarrow> bytes \<Rightarrow> 'o list \<Rightarrow> 'id \<Rightarrow> ('id, 'r, 'pk, 'sig) action \<Rightarrow>
     bytes \<Rightarrow> bytes" where
  "canonical_encode C g parents author a sealing =
     OP_TAG @ len_le g @ g @ len_le parents @ concat (map (cd_oid C) parents) @ cd_id C author @
     write_action C a @ len_le sealing @ sealing"

definition op_canonical ::
  "('o, 'id, 'r, 'pk, 'sig) codec_env \<Rightarrow> ('o, 'id, 'r, 'pk, 'sig) dag_op \<Rightarrow> bytes" where
  "op_canonical C op =
     canonical_encode C (op_group op) (op_parents op) (op_author op) (op_action op) (op_sealing op)"

definition write_member :: "('o, 'id, 'r, 'pk, 'sig) codec_env \<Rightarrow> ('r, 'pk) member_state \<Rightarrow> bytes" where
  "write_member C m =
     cd_role C (ms_role m) @ u64_le (ms_counter m) @ u64_le (ms_access m) @ cd_pk C (ms_key m) @ ms_hpke m"

definition write_state :: "('o, 'id, 'r, 'pk, 'sig) codec_env \<Rightarrow> ('id, 'r, 'pk) group_state \<Rightarrow> bytes" where
  "write_state C s =
     len_le (gs_members s) @ concat (map (\<lambda>(i, m). cd_id C i @ write_member C m) (gs_members s)) @
     (case gs_reset s of Some k \<Rightarrow> 1 # cd_pk C k | None \<Rightarrow> [0]) @ len_le (gs_group s) @ gs_group s"

definition content_id ::
  "('o, 'id, 'r, 'pk, 'sig) codec_env \<Rightarrow> ('o, 'id, 'r, 'pk, 'sig) dag_op \<Rightarrow> bytes" where
  "content_id C op = cd_sha C (op_canonical C op @ cd_sig C (op_sig op) @ cd_pk C (op_key op))"

definition verify_content_id ::
  "(bytes, 'id, 'r, 'pk, 'sig) codec_env \<Rightarrow> (bytes, 'id, 'r, 'pk, 'sig) dag_op \<Rightarrow> bool" where
  "verify_content_id C op \<longleftrightarrow> content_id C op = op_id op"

text \<open>What the Rust types fix: 32-byte arrays and lengths below \<open>2 ^ 64\<close>.\<close>

abbreviation fits :: "'a list \<Rightarrow> bool" where
  "fits xs \<equiv> length xs < 2 ^ 64"

fun action_sized :: "('id, 'r, 'pk, 'sig) action \<Rightarrow> bool" where
  "action_sized (Create inits) \<longleftrightarrow> fits inits \<and> list_all (\<lambda>m. length (mi_hpke m) = 32) inits"
| "action_sized (Add _ _ _ h _) \<longleftrightarrow> length h = 32"
| "action_sized (Propose pid target) \<longleftrightarrow> length pid = 32 \<and> action_sized target"
| "action_sized (Approve pid) \<longleftrightarrow> length pid = 32"
| "action_sized (Commit pid) \<longleftrightarrow> length pid = 32"
| "action_sized (ReFound _ _ h _) \<longleftrightarrow> length h = 32"
| "action_sized (Retarget _ _ h) \<longleftrightarrow> length h = 32"
| "action_sized _ \<longleftrightarrow> True"

definition op_sized :: "('o, 'id, 'r, 'pk, 'sig) dag_op \<Rightarrow> bool" where
  "op_sized op \<longleftrightarrow> fits (op_group op) \<and> fits (op_parents op) \<and> fits (op_sealing op) \<and>
     action_sized (op_action op)"

definition state_sized :: "('id, 'r, 'pk) group_state \<Rightarrow> bool" where
  "state_sized s \<longleftrightarrow> fits (gs_members s) \<and> fits (gs_group s) \<and>
     list_all (\<lambda>(i, m). length (ms_hpke m) = 32) (gs_members s)"

subsection \<open>Nothing is lost\<close>

lemma delimited_append: "delimited f \<Longrightarrow> f x @ u = f y @ v \<longleftrightarrow> x = y \<and> u = v"
  by (auto simp: delimited_def)

lemma codec_append:
  assumes "codec_ok C"
  shows "cd_oid C o1 @ u = cd_oid C o2 @ v \<longleftrightarrow> o1 = o2 \<and> u = v"
    "cd_id C i1 @ u = cd_id C i2 @ v \<longleftrightarrow> i1 = i2 \<and> u = v"
    "cd_role C r1 @ u = cd_role C r2 @ v \<longleftrightarrow> r1 = r2 \<and> u = v"
    "cd_pk C k1 @ u = cd_pk C k2 @ v \<longleftrightarrow> k1 = k2 \<and> u = v"
    "cd_sig C s1 @ u = cd_sig C s2 @ v \<longleftrightarrow> s1 = s2 \<and> u = v"
  using assms by (simp_all add: codec_ok_def delimited_append)

lemma u64_le_append [simp]: "u64_le v @ x = u64_le w @ y \<longleftrightarrow> v = w \<and> x = y"
proof
  assume "u64_le v @ x = u64_le w @ y"
  then have "rev (u64_be v) = rev (u64_be w)" "x = y"
    by (simp_all add: u64_le_def append_eq_append_conv)
  then show "v = w \<and> x = y" by (metis nat_of_u64_be rev_rev_ident word_unat_eq_iff)
qed simp

lemma len_le_append: "fits xs \<Longrightarrow> fits ys \<Longrightarrow> len_le xs @ u = len_le ys @ v \<longleftrightarrow> length xs = length ys \<and> u = v"
proof -
  assume f: "fits xs" "fits ys"
  have "(of_nat (length xs) :: u64) = of_nat (length ys) \<longleftrightarrow> length xs = length ys"
    using f by (auto simp: word_unat_eq_iff unat_of_nat)
  then show ?thesis by (simp add: len_le_def)
qed

lemma prefixed_append:
  assumes "fits xs" "fits ys"
  shows "len_le xs @ xs @ u = len_le ys @ ys @ v \<longleftrightarrow> xs = ys \<and> u = v"
  by (auto simp: len_le_append [OF assms] append_eq_append_conv)

lemma concat_append:
  assumes "\<And>a b u v. P a \<Longrightarrow> P b \<Longrightarrow> f a @ u = f b @ v \<longleftrightarrow> a = b \<and> u = (v :: bytes)"
  shows "list_all P xs \<Longrightarrow> list_all P ys \<Longrightarrow> length xs = length ys \<Longrightarrow>
    concat (map f xs) @ u = concat (map f ys) @ v \<longleftrightarrow> xs = ys \<and> u = v"
proof (induction xs arbitrary: ys)
  case (Cons x xs)
  then obtain y ys' where "ys = y # ys'" by (cases ys) auto
  then show ?case using Cons assms by auto
qed simp

lemma write_init_append:
  assumes "codec_ok C" "length (mi_hpke a) = 32" "length (mi_hpke b) = 32"
  shows "write_init C a @ u = write_init C b @ v \<longleftrightarrow> a = b \<and> u = v"
  using assms by (cases a; cases b) (auto simp: write_init_def codec_append append_eq_append_conv)

lemma write_action_append:
  assumes "codec_ok C"
  shows "action_sized a \<Longrightarrow> action_sized b \<Longrightarrow>
    write_action C a @ u = write_action C b @ v \<longleftrightarrow> a = b \<and> u = v"
proof (induction a arbitrary: b)
  case (Create inits)
  have "concat (map (write_init C) inits) @ u = concat (map (write_init C) js) @ v \<longleftrightarrow> inits = js \<and> u = v"
    if "length inits = length js" "list_all (\<lambda>m. length (mi_hpke m) = 32) js" for js
    using concat_append [of "\<lambda>m. length (mi_hpke m) = 32" "write_init C" inits js u v]
      write_init_append [OF assms] Create.prems(1) that by simp
  then show ?case using Create.prems by (cases b) (auto simp: len_le_append)
next
  case (Propose pid target)
  then show ?case by (cases b) (auto simp: append_eq_append_conv)
next
  case (Add m r k h p)
  have "(case p of Some s \<Rightarrow> 1 # cd_sig C s | None \<Rightarrow> [0]) @ u =
      (case q of Some s \<Rightarrow> 1 # cd_sig C s | None \<Rightarrow> [0]) @ v \<longleftrightarrow> p = q \<and> u = v" for q
    by (cases p; cases q) (simp_all add: codec_append [OF assms])
  then show ?case using Add by (cases b) (auto simp: codec_append [OF assms] append_eq_append_conv)
next
  case (Remove m)
  then show ?case by (cases b) (auto simp: codec_append [OF assms] append_eq_append_conv)
next
  case (ChangeRole m r)
  then show ?case by (cases b) (auto simp: codec_append [OF assms] append_eq_append_conv)
next
  case (Approve pid)
  then show ?case by (cases b) (auto simp: codec_append [OF assms] append_eq_append_conv)
next
  case (Commit pid)
  then show ?case by (cases b) (auto simp: codec_append [OF assms] append_eq_append_conv)
next
  case (ReFound m k h era)
  then show ?case by (cases b) (auto simp: codec_append [OF assms] append_eq_append_conv)
next
  case (RotateRecoveryAuthority k)
  then show ?case by (cases b) (auto simp: codec_append [OF assms] append_eq_append_conv)
next
  case (Retarget m k h)
  then show ?case by (cases b) (auto simp: codec_append [OF assms] append_eq_append_conv)
next
  case Reseal
  then show ?case by (cases b) (auto simp: codec_append [OF assms] append_eq_append_conv)
qed

lemma canonical_append:
  assumes "codec_ok C" "op_sized a" "op_sized b"
  shows "op_canonical C a @ u = op_canonical C b @ v \<longleftrightarrow>
    op_group a = op_group b \<and> op_parents a = op_parents b \<and> op_author a = op_author b \<and>
    op_action a = op_action b \<and> op_sealing a = op_sealing b \<and> u = v"
proof -
  have s: "fits (op_group a)" "fits (op_group b)" "fits (op_parents a)" "fits (op_parents b)"
      "fits (op_sealing a)" "fits (op_sealing b)" "action_sized (op_action a)" "action_sized (op_action b)"
    using assms(2,3) by (simp_all add: op_sized_def)
  have p: "concat (map (cd_oid C) (op_parents a)) @ x = concat (map (cd_oid C) (op_parents b)) @ y \<longleftrightarrow>
      op_parents a = op_parents b \<and> x = y"
    if "length (op_parents a) = length (op_parents b)" for x y
    using concat_append [of "\<lambda>_. True" "cd_oid C" "op_parents a" "op_parents b" x y]
      codec_append(1) [OF assms(1)] that by (simp add: list_all_iff)
  show ?thesis
    unfolding op_canonical_def canonical_encode_def append_assoc same_append_eq
      prefixed_append [OF s(1,2)] len_le_append [OF s(3,4)]
    using p by (auto simp: codec_append [OF assms(1)] write_action_append [OF assms(1) s(7,8)]
        prefixed_append [OF s(5,6)])
qed

text \<open>C26: a content id names one operation.  Two operations that both verify under the same id
  are the same operation in every field, the signature and the opaque payload included, unless
  their two preimages collide under SHA-256.\<close>

theorem content_id_names_op:
  assumes "codec_ok C" "op_sized a" "op_sized b" "verify_content_id C a" "verify_content_id C b"
    "op_id a = op_id b"
    "inj_on (cd_sha C) {op_canonical C x @ cd_sig C (op_sig x) @ cd_pk C (op_key x) | x. x \<in> {a, b}}"
  shows "a = b"
proof -
  have "cd_sha C (op_canonical C a @ cd_sig C (op_sig a) @ cd_pk C (op_key a)) =
      cd_sha C (op_canonical C b @ cd_sig C (op_sig b) @ cd_pk C (op_key b))"
    using assms(4-6) by (simp add: verify_content_id_def content_id_def)
  then have "op_canonical C a @ cd_sig C (op_sig a) @ cd_pk C (op_key a) =
      op_canonical C b @ cd_sig C (op_sig b) @ cd_pk C (op_key b)"
    by (rule inj_onD [OF assms(7)]) auto
  then have f: "op_group a = op_group b" "op_parents a = op_parents b" "op_author a = op_author b"
      "op_action a = op_action b" "op_sealing a = op_sealing b"
      "cd_sig C (op_sig a) @ cd_pk C (op_key a) = cd_sig C (op_sig b) @ cd_pk C (op_key b)"
    by (simp_all only: canonical_append [OF assms(1-3)])
  have "op_sig a = op_sig b" "cd_pk C (op_key a) @ [] = cd_pk C (op_key b) @ []"
    using f(6) by (simp_all add: codec_append(5) [OF assms(1)])
  moreover have "op_key a = op_key b" using calculation(2) by (simp only: codec_append(4) [OF assms(1)])
  ultimately show ?thesis using f assms(6) by (cases a; cases b) simp
qed

text \<open>The bytes a checkpoint signs determine the whole resolved state: every member with
  role, counters and keys, the recovery authority and the group.\<close>

theorem state_bytes_determine:
  assumes "codec_ok C" "state_sized s" "state_sized t"
  shows "write_state C s = write_state C t \<longleftrightarrow> s = t"
proof
  assume eq: "write_state C s = write_state C t"
  let ?tail = "\<lambda>s. (case gs_reset s of Some k \<Rightarrow> 1 # cd_pk C k | None \<Rightarrow> [0]) @ len_le (gs_group s) @ gs_group s"
  let ?f = "\<lambda>(i, m). cd_id C i @ write_member C m"
  have f: "?f a @ u = ?f b @ v \<longleftrightarrow> a = b \<and> u = v"
    if "case a of (i, m) \<Rightarrow> length (ms_hpke m) = 32" "case b of (i, m) \<Rightarrow> length (ms_hpke m) = 32" for a b u v
  proof -
    obtain i m j n where ab: "a = (i, m)" "b = (j, n)" by (cases a; cases b)
    show ?thesis using that unfolding ab
      by (cases m; cases n)
        (auto simp: write_member_def codec_append [OF assms(1)] append_eq_append_conv)
  qed
  have s: "fits (gs_members s)" "fits (gs_members t)" "fits (gs_group s)" "fits (gs_group t)"
      "list_all (\<lambda>(i, m). length (ms_hpke m) = 32) (gs_members s)"
      "list_all (\<lambda>(i, m). length (ms_hpke m) = 32) (gs_members t)"
    using assms(2,3) by (simp_all add: state_sized_def)
  have len: "length (gs_members s) = length (gs_members t)"
    and body: "concat (map ?f (gs_members s)) @ ?tail s = concat (map ?f (gs_members t)) @ ?tail t"
    using eq unfolding write_state_def len_le_append [OF s(1,2)] by simp_all
  have m: "gs_members s = gs_members t" and tail: "?tail s = ?tail t"
    using body concat_append [OF f s(5,6) len] by simp_all
  have "gs_reset s = gs_reset t \<and> gs_group s = gs_group t"
    using tail prefixed_append [OF s(3,4), of "[]" "[]"]
    by (auto simp: codec_append [OF assms(1)] split: option.splits)
  then show "s = t" using m by simp
qed simp

text \<open>One-byte ids, roles, keys and signatures, escaped op ids, an identity for the hash.\<close>

definition demo_codec :: "(bytes, u8, u8, u8, u8) codec_env" where
  "demo_codec =
     \<lparr>cd_oid = (\<lambda>b. concat (map (\<lambda>x. [1, x]) b) @ [0]), cd_id = (\<lambda>i. [i]), cd_role = (\<lambda>r. [r]),
      cd_pk = (\<lambda>k. [k]), cd_sig = (\<lambda>s. [s]), cd_sha = id\<rparr>"

lemma escape_delimited: "delimited (\<lambda>b. concat (map (\<lambda>x. [1, x]) b) @ [0 :: u8])"
proof -
  have "concat (map (\<lambda>x. [1, x]) xs) @ 0 # u = concat (map (\<lambda>x. [1, x]) ys) @ 0 # v \<Longrightarrow> xs = ys"
    for xs ys u and v :: bytes
  proof (induction xs arbitrary: ys)
    case Nil then show ?case by (cases ys) auto
  next
    case (Cons x xs) then show ?case by (cases ys) auto
  qed
  from this show ?thesis unfolding delimited_def append_assoc append_Cons append_Nil by blast
qed

lemma single_delimited: "delimited (\<lambda>x. [x])"
  by (simp add: delimited_def)

lemma demo_codec_ok: "codec_ok demo_codec"
  using escape_delimited single_delimited by (simp add: codec_ok_def demo_codec_def)

definition demo_op :: "(bytes, u8, u8, u8, u8) dag_op" where
  "demo_op = \<lparr>op_id = [], op_group = [7], op_parents = [], op_author = 1, op_action = Remove 2,
     op_sig = 5, op_key = 6, op_sealing = []\<rparr>"

definition stamped :: "(bytes, u8, u8, u8, u8) dag_op \<Rightarrow> (bytes, u8, u8, u8, u8) dag_op" where
  "stamped op = op\<lparr>op_id := content_id demo_codec op\<rparr>"

theorem content_id_names_op_witness:
  "content_id demo_codec demo_op \<noteq> content_id demo_codec (demo_op\<lparr>op_action := Remove 3\<rparr>)"
proof
  let ?a = "stamped demo_op" and ?b = "stamped (demo_op\<lparr>op_action := Remove 3\<rparr>)"
  assume same: "content_id demo_codec demo_op = content_id demo_codec (demo_op\<lparr>op_action := Remove 3\<rparr>)"
  have v: "verify_content_id demo_codec (stamped op)" for op
    by (simp add: verify_content_id_def stamped_def content_id_def op_canonical_def)
  have "op_sized ?a" "op_sized ?b" by (simp_all add: op_sized_def stamped_def demo_op_def)
  moreover have "op_id ?a = op_id ?b" using same by (simp add: stamped_def)
  moreover have "inj_on (cd_sha demo_codec) X" for X by (simp add: demo_codec_def)
  ultimately have "?a = ?b" using content_id_names_op [OF demo_codec_ok _ _ v v] by blast
  then show False by (simp add: stamped_def demo_op_def)
qed

theorem state_bytes_determine_witness:
  "write_state demo_codec (state_new\<lparr>gs_reset := Some 3\<rparr>) \<noteq> write_state demo_codec state_new"
  using state_bytes_determine [OF demo_codec_ok, of "state_new\<lparr>gs_reset := Some 3\<rparr>" state_new]
  by (simp add: state_sized_def state_new_def)

end
