(* ===== verification/Dag_Graph.thy ===== *)
theory Dag_Graph
  imports Prelude
begin

text \<open>
  The hash-pointer graph of \<open>packages/keyeo-dag/src/blocklace.rs\<close>.  The graph library's
  \<open>has_path_connecting\<close> is the parameter \<open>R\<close>, of which the code relies on \<open>reach_ok\<close>: it decides
  reachability over the edges.  Nodes keep their insertion order.
\<close>

record 'o graph =
  g_nodes :: "'o list"
  g_edges :: "('o \<times> 'o) list"

definition graph_new :: "'o graph" where
  "graph_new = \<lparr>g_nodes = [], g_edges = []\<rparr>"

definition add_node :: "'o \<Rightarrow> 'o graph \<Rightarrow> 'o graph" where
  "add_node n g = (if n \<in> set (g_nodes g) then g else g\<lparr>g_nodes := g_nodes g @ [n]\<rparr>)"

definition add_edge :: "'o \<Rightarrow> 'o \<Rightarrow> 'o graph \<Rightarrow> 'o graph" where
  "add_edge p c g =
     (let g' = add_node c (add_node p g)
      in if (p, c) \<in> set (g_edges g') then g' else g'\<lparr>g_edges := g_edges g' @ [(p, c)]\<rparr>)"

definition graph_frontier :: "'o graph \<Rightarrow> 'o list" where
  "graph_frontier g = filter (\<lambda>n. \<not> list_ex (\<lambda>e. fst e = n) (g_edges g)) (g_nodes g)"

type_synonym 'o reach = "('o \<times> 'o) list \<Rightarrow> 'o \<Rightarrow> 'o \<Rightarrow> bool"

definition has_path :: "'o reach \<Rightarrow> 'o graph \<Rightarrow> 'o \<Rightarrow> 'o \<Rightarrow> bool" where
  "has_path R g a b \<longleftrightarrow> a \<noteq> b \<and> R (g_edges g) a b"

definition concurrent_by :: "('o \<Rightarrow> 'o \<Rightarrow> bool) \<Rightarrow> 'o \<Rightarrow> 'o \<Rightarrow> bool" where
  "concurrent_by path a b \<longleftrightarrow> a \<noteq> b \<and> \<not> path a b \<and> \<not> path b a"

definition is_concurrent :: "'o reach \<Rightarrow> 'o graph \<Rightarrow> 'o \<Rightarrow> 'o \<Rightarrow> bool" where
  "is_concurrent R g a b \<longleftrightarrow> concurrent_by (has_path R g) a b"

definition reach_ok :: "'o reach \<Rightarrow> bool" where
  "reach_ok R \<longleftrightarrow> (\<forall>E a b. R E a b = ((a, b) \<in> (set E)\<^sup>*))"

text \<open>A reachability that computes, to run the engine with.\<close>

fun reach_within :: "('o \<times> 'o) list \<Rightarrow> nat \<Rightarrow> 'o list \<Rightarrow> 'o list" where
  "reach_within E 0 seen = seen"
| "reach_within E (Suc k) seen =
     reach_within E k (seen @ map snd (filter (\<lambda>e. fst e \<in> set seen \<and> snd e \<notin> set seen) E))"

definition reach_exec :: "'o reach" where
  "reach_exec E a b \<longleftrightarrow> b \<in> set (reach_within E (length E) [a])"

lemma reach_within_mono: "x \<in> set seen \<Longrightarrow> x \<in> set (reach_within E k seen)"
  by (induction k arbitrary: seen) simp_all

lemma reach_within_sound:
  "(\<And>x. x \<in> set seen \<Longrightarrow> (a, x) \<in> (set E)\<^sup>*) \<Longrightarrow> x \<in> set (reach_within E k seen) \<Longrightarrow> (a, x) \<in> (set E)\<^sup>*"
proof (induction k arbitrary: seen)
  case (Suc k)
  let ?s = "seen @ map snd (filter (\<lambda>e. fst e \<in> set seen \<and> snd e \<notin> set seen) E)"
  have "(a, y) \<in> (set E)\<^sup>*" if "y \<in> set ?s" for y
    using that Suc.prems(1) by (auto dest!: Suc.prems(1) intro: rtrancl_into_rtrancl)
  then show ?case using Suc.IH [of ?s] Suc.prems(2) by simp
qed simp

lemma reach_within_stable:
  "filter (\<lambda>e. fst e \<in> set seen \<and> snd e \<notin> set seen) E = [] \<Longrightarrow> reach_within E k seen = seen"
  by (induction k) simp_all

lemma reach_within_closed:
  "length (filter (\<lambda>e. snd e \<notin> set seen) E) \<le> k \<Longrightarrow> (p, c) \<in> set E \<Longrightarrow>
     p \<in> set (reach_within E k seen) \<Longrightarrow> c \<in> set (reach_within E k seen)"
proof (induction k arbitrary: seen)
  case 0
  then have "filter (\<lambda>e. snd e \<notin> set seen) E = []" by simp
  then show ?case using 0(2) by (force simp: filter_empty_conv)
next
  case (Suc k)
  let ?new = "filter (\<lambda>e. fst e \<in> set seen \<and> snd e \<notin> set seen) E"
  let ?s = "seen @ map snd ?new"
  show ?case
  proof (cases "?new = []")
    case True
    then show ?thesis using Suc.prems reach_within_stable [OF True, of "Suc k"]
      by (force simp: filter_empty_conv)
  next
    case False
    then obtain e where e: "e \<in> set ?new" by (cases ?new) auto
    have "length (filter (\<lambda>e. snd e \<notin> set ?s) E) < length (filter (\<lambda>e. snd e \<notin> set seen) E)"
    proof -
      have "filter (\<lambda>e. snd e \<notin> set ?s) E = filter (\<lambda>e. snd e \<notin> set ?s) (filter (\<lambda>e. snd e \<notin> set seen) E)"
        by (auto simp: filter_filter intro: filter_cong)
      moreover have "e \<in> set (filter (\<lambda>e. snd e \<notin> set seen) E)" "\<not> snd e \<notin> set ?s" using e by auto
      ultimately show ?thesis by (metis (no_types, lifting) length_filter_less)
    qed
    then show ?thesis using Suc.IH [of ?s] Suc.prems by simp
  qed
qed

lemma reach_exec_ok: "reach_ok reach_exec"
proof -
  have "b \<in> set (reach_within E (length E) [a])" if "(a, b) \<in> (set E)\<^sup>*" for E and a b :: 'a
    using that
  proof (induction rule: rtrancl_induct)
    case base
    then show ?case by (simp add: reach_within_mono)
  next
    case (step y z)
    then show ?case using reach_within_closed [of "[a]" E "length E" y z] by simp
  qed
  moreover have "(a, b) \<in> (set E)\<^sup>*" if "b \<in> set (reach_within E (length E) [a])" for E and a b :: 'a
    using reach_within_sound [of "[a]" a E b "length E"] that by simp
  ultimately show ?thesis by (auto simp: reach_ok_def reach_exec_def)
qed

lemma graph_simps [simp]:
  "g_edges (add_node n g) = g_edges g" "set (g_edges (add_edge p c g)) = insert (p, c) (set (g_edges g))"
  "set (g_nodes (add_node n g)) = insert n (set (g_nodes g))"
  "set (g_nodes (add_edge p c g)) = insert p (insert c (set (g_nodes g)))"
  by (auto simp: add_node_def add_edge_def Let_def)

lemma concurrent_by_sym: "concurrent_by path a b \<longleftrightarrow> concurrent_by path b a"
  by (auto simp: concurrent_by_def)

end
