(* ===== verification/Dag_Order.thy ===== *)
theory Dag_Order
  imports Dag_Types Dag_Graph "HOL-Library.Multiset"
begin

text \<open>
  Depths, authorization and the state at a causal position:
  the memoised recursions of \<open>packages/keyeo-dag/src/dag/strong_remove.rs\<close>.  The \<open>HashMap\<close> of
  ops is a list of ops with distinct ids whose order is the iteration order of the map; the
  graph enters through its \<open>has_path\<close>.
\<close>

record ('o, 'id, 'r, 'pk, 'sig) rctx =
  rx_ops :: "('o, 'id, 'r, 'pk, 'sig) dag_op list"
  rx_path :: "'o \<Rightarrow> 'o \<Rightarrow> bool"
  rx_ac :: "('id, 'r, 'pk, 'sig) access_control"
  rx_genesis :: "('id, 'r, 'pk) group_state"

definition find_op :: "('o, 'id, 'r, 'pk, 'sig) dag_op list \<Rightarrow> 'o \<Rightarrow> ('o, 'id, 'r, 'pk, 'sig) dag_op option" where
  "find_op ops i = find (\<lambda>op. op_id op = i) ops"

definition op_ids :: "('o, 'id, 'r, 'pk, 'sig) dag_op list \<Rightarrow> 'o list" where
  "op_ids ops = map op_id ops"

text \<open>\<open>*map.get(id).unwrap_or(&0)\<close> and \<open>.unwrap_or(false)\<close>\<close>

definition depth_of :: "('o \<times> nat) list \<Rightarrow> 'o \<Rightarrow> nat" where
  "depth_of D i = (case map_of D i of None \<Rightarrow> 0 | Some d \<Rightarrow> d)"

definition auth_of :: "('o \<times> bool) list \<Rightarrow> 'o \<Rightarrow> bool" where
  "auth_of A i = (case map_of A i of None \<Rightarrow> False | Some b \<Rightarrow> b)"

text \<open>\<open>sort_by_key(|o| (depth(o), o))\<close>\<close>

definition by_depth :: "('o \<times> nat) list \<Rightarrow> 'o::linorder list \<Rightarrow> 'o list" where
  "by_depth D xs = sort_key (\<lambda>o'. (depth_of D o', o')) xs"

lemma find_op_Some: "find_op ops i = Some op \<Longrightarrow> op \<in> set ops \<and> op_id op = i"
  by (auto simp: find_op_def find_Some_iff)

lemma find_op_None: "find_op ops i = None \<longleftrightarrow> i \<notin> set (op_ids ops)"
  by (auto simp: find_op_def find_None_iff op_ids_def)

lemma find_op_in: "distinct (op_ids ops) \<Longrightarrow> op \<in> set ops \<Longrightarrow> find_op ops (op_id op) = Some op"
proof (induction ops)
  case (Cons a ops)
  then show ?case by (auto simp: find_op_def op_ids_def)
qed simp

lemma ops_stack_less:
  assumes "find_op ops i = Some op" "i \<notin> set stack"
  shows "card (set (op_ids ops) - insert i (set stack)) < card (set (op_ids ops) - set stack)"
proof -
  have "i \<in> set (op_ids ops)" using assms(1) by (auto dest: find_op_Some simp: op_ids_def)
  then show ?thesis using assms(2) by (intro psubset_card_mono) auto
qed

subsection \<open>Lamport depths\<close>

text \<open>\<open>go\<close> threads the memo table and carries the recursion stack; \<open>depth_gos\<close> maps it over the
  parents that are known.\<close>

definition known_parents ::
  "('o, 'id, 'r, 'pk, 'sig) dag_op list \<Rightarrow> ('o \<times> nat) list \<Rightarrow> ('o, 'id, 'r, 'pk, 'sig) dag_op \<Rightarrow> 'o list" where
  "known_parents ops base op =
     filter (\<lambda>p. p \<in> set (op_ids ops) \<or> p \<in> fst ` set base) (op_parents op)"

definition max_or_0 :: "nat list \<Rightarrow> nat" where
  "max_or_0 ds = foldr max ds 0"

function depth_go ::
  "('o, 'id, 'r, 'pk, 'sig) dag_op list \<Rightarrow> ('o \<times> nat) list \<Rightarrow> 'o list \<Rightarrow> ('o \<times> nat) list \<Rightarrow> 'o \<Rightarrow>
     nat \<times> ('o \<times> nat) list"
  and depth_gos ::
  "('o, 'id, 'r, 'pk, 'sig) dag_op list \<Rightarrow> ('o \<times> nat) list \<Rightarrow> 'o list \<Rightarrow> ('o \<times> nat) list \<Rightarrow> 'o list \<Rightarrow>
     nat list \<times> ('o \<times> nat) list" where
  "depth_go ops base stack memo i =
     (case map_of memo i of
        Some d \<Rightarrow> (d, memo)
      | None \<Rightarrow>
          if i \<in> set stack then (0, memo)
          else case find_op ops i of
                 None \<Rightarrow> (depth_of base i, (i, depth_of base i) # memo)
               | Some op \<Rightarrow>
                   (case depth_gos ops base (i # stack) memo (known_parents ops base op) of
                      (ds, memo') \<Rightarrow> (max_or_0 ds, (i, max_or_0 ds) # memo')))"
| "depth_gos ops base stack memo [] = ([], memo)"
| "depth_gos ops base stack memo (p # ps) =
     (case depth_go ops base stack memo p of
        (d, memo1) \<Rightarrow>
          (case depth_gos ops base stack memo1 ps of (ds, memo2) \<Rightarrow> (Suc d # ds, memo2)))"
  by pat_completeness auto

termination
  by (relation "measures
      [\<lambda>x. case x of Inl (ops, base, stack, memo, i) \<Rightarrow> card (set (op_ids ops) - set stack)
         | Inr (ops, base, stack, memo, ps) \<Rightarrow> card (set (op_ids ops) - set stack),
       \<lambda>x. case x of Inl _ \<Rightarrow> 0 | Inr (ops, base, stack, memo, ps) \<Rightarrow> Suc (length ps)]")
    (auto simp: ops_stack_less simp del: card_Diff_insert)

declare depth_go.simps [simp del]

definition compute_depths ::
  "('o, 'id, 'r, 'pk, 'sig) dag_op list \<Rightarrow> ('o \<times> nat) list \<Rightarrow> ('o \<times> nat) list" where
  "compute_depths ops base = foldl (\<lambda>memo op. snd (depth_go ops base [] memo (op_id op))) [] ops"

subsection \<open>Authorization at a causal position\<close>

definition ancestors ::
  "('o::linorder, 'id, 'r, 'pk, 'sig) rctx \<Rightarrow> ('o \<times> nat) list \<Rightarrow> 'o \<Rightarrow> 'o list" where
  "ancestors X D i = by_depth D (filter (\<lambda>a. rx_path X a i) (op_ids (rx_ops X)))"

text \<open>The decision itself: access control, and the registered key.\<close>

definition judge ::
  "('o, 'id, 'r, 'pk, 'sig) rctx \<Rightarrow> ('id, 'r, 'pk) group_state \<Rightarrow> ('o, 'id, 'r, 'pk, 'sig) dag_op \<Rightarrow> bool" where
  "judge X s op \<longleftrightarrow> ac_authorized (rx_ac X) s (op_author op) (op_action op) \<and> key_matches_registration s op"

definition fold_op ::
  "('o, 'id::linorder, 'r, 'pk, 'sig) rctx \<Rightarrow> 'o \<Rightarrow> ('id, 'r, 'pk) group_state \<Rightarrow> ('id, 'r, 'pk) group_state" where
  "fold_op X a s = (case find_op (rx_ops X) a of None \<Rightarrow> s | Some op \<Rightarrow> fold_action (op_action op) s)"

function authorized_at ::
  "('o::linorder, 'id::linorder, 'r, 'pk, 'sig) rctx \<Rightarrow> ('o \<times> nat) list \<Rightarrow> 'o list \<Rightarrow> ('o \<times> bool) list \<Rightarrow> 'o \<Rightarrow>
     bool \<times> ('o \<times> bool) list"
  and authorized_fold ::
  "('o::linorder, 'id::linorder, 'r, 'pk, 'sig) rctx \<Rightarrow> ('o \<times> nat) list \<Rightarrow> 'o list \<Rightarrow> ('o \<times> bool) list \<Rightarrow> 'o list \<Rightarrow>
     ('id, 'r, 'pk) group_state \<Rightarrow> ('id, 'r, 'pk) group_state \<times> ('o \<times> bool) list" where
  "authorized_at X D stack memo i =
     (case map_of memo i of
        Some b \<Rightarrow> (b, memo)
      | None \<Rightarrow>
          if i \<in> set stack then (False, memo)
          else case find_op (rx_ops X) i of
                 None \<Rightarrow> (False, memo)
               | Some op \<Rightarrow>
                   (case authorized_fold X D (i # stack) memo (ancestors X D i) (rx_genesis X) of
                      (s, memo') \<Rightarrow> (judge X s op, (i, judge X s op) # memo')))"
| "authorized_fold X D stack memo [] s = (s, memo)"
| "authorized_fold X D stack memo (a # as) s =
     (case authorized_at X D stack memo a of
        (b, memo1) \<Rightarrow> authorized_fold X D stack memo1 as (if b then fold_op X a s else s))"
  by pat_completeness auto

termination
  by (relation "measures
      [\<lambda>x. case x of Inl (X, D, stack, memo, i) \<Rightarrow> card (set (op_ids (rx_ops X)) - set stack)
         | Inr (X, D, stack, memo, as, s) \<Rightarrow> card (set (op_ids (rx_ops X)) - set stack),
       \<lambda>x. case x of Inl _ \<Rightarrow> 0 | Inr (X, D, stack, memo, as, s) \<Rightarrow> Suc (length as)]")
    (auto simp: ops_stack_less simp del: card_Diff_insert)

declare authorized_at.simps [simp del]

definition authorized_map ::
  "('o::linorder, 'id::linorder, 'r, 'pk, 'sig) rctx \<Rightarrow> ('o \<times> nat) list \<Rightarrow> ('o \<times> bool) list" where
  "authorized_map X D = foldl (\<lambda>memo op. snd (authorized_at X D [] memo (op_id op))) [] (rx_ops X)"

definition resolved_state_before ::
  "('o::linorder, 'id::linorder, 'r, 'pk, 'sig) rctx \<Rightarrow> ('o \<times> nat) list \<Rightarrow> ('o \<times> bool) list \<Rightarrow> 'o \<Rightarrow>
     ('id, 'r, 'pk) group_state" where
  "resolved_state_before X D A target =
     foldl (\<lambda>s a. if auth_of A a then fold_op X a s else s) (rx_genesis X) (ancestors X D target)"

definition op_authorized_at_position ::
  "('o::linorder, 'id::linorder, 'r, 'pk, 'sig) rctx \<Rightarrow> ('o \<times> nat) list \<Rightarrow> 'o \<Rightarrow> bool option" where
  "op_authorized_at_position X base i =
     (if i \<notin> set (op_ids (rx_ops X)) then None
      else map_of (authorized_map X (compute_depths (rx_ops X) base)) i)"


subsection \<open>The recursions meet their equations\<close>

text \<open>\<open>causal\<close>: ids are unique, the parent pointers form no cycle, and \<open>has_path\<close> is their
  transitive closure.\<close>

definition parent_rel :: "('o, 'id, 'r, 'pk, 'sig) dag_op list \<Rightarrow> ('o \<times> 'o) set" where
  "parent_rel ops = {(p, op_id op) | p op. op \<in> set ops \<and> p \<in> set (op_parents op)}"

definition causal :: "('o, 'id, 'r, 'pk, 'sig) rctx \<Rightarrow> bool" where
  "causal X \<longleftrightarrow> distinct (op_ids (rx_ops X)) \<and> acyclic (parent_rel (rx_ops X)) \<and>
     (\<forall>a b. rx_path X a b \<longleftrightarrow> (a, b) \<in> (parent_rel (rx_ops X))\<^sup>+)"

lemma causal_order:
  assumes "causal X"
  shows "\<not> rx_path X a a" "rx_path X a b \<Longrightarrow> rx_path X b c \<Longrightarrow> rx_path X a c"
    "op \<in> set (rx_ops X) \<Longrightarrow> p \<in> set (op_parents op) \<Longrightarrow> rx_path X p (op_id op)"
  using assms by (auto simp: causal_def acyclic_def parent_rel_def intro: trancl_trans)

lemma set_by_depth [simp]: "set (by_depth D xs) = set xs"
  by (simp add: by_depth_def)

lemma set_ancestors: "set (ancestors X D i) = {a \<in> set (op_ids (rx_ops X)). rx_path X a i}"
  by (auto simp: ancestors_def)

definition depth_memo_ok ::
  "('o, 'id, 'r, 'pk, 'sig) dag_op list \<Rightarrow> ('o \<times> nat) list \<Rightarrow> ('o \<times> nat) list \<Rightarrow> bool" where
  "depth_memo_ok ops base memo \<longleftrightarrow>
     (\<forall>i d. map_of memo i = Some d \<longrightarrow>
        (case find_op ops i of
           None \<Rightarrow> d = depth_of base i
         | Some op \<Rightarrow> set (known_parents ops base op) \<subseteq> dom (map_of memo) \<and>
             d = max_or_0 (map (\<lambda>p. Suc (depth_of memo p)) (known_parents ops base op))))"

lemma depth_of_mono: "map_of m \<subseteq>\<^sub>m map_of m' \<Longrightarrow> p \<in> dom (map_of m) \<Longrightarrow> depth_of m' p = depth_of m p"
  by (auto simp: depth_of_def map_le_def dom_def split: option.splits)

lemma auth_of_mono: "map_of m \<subseteq>\<^sub>m map_of m' \<Longrightarrow> p \<in> dom (map_of m) \<Longrightarrow> auth_of m' p = auth_of m p"
  by (auto simp: auth_of_def map_le_def dom_def split: option.splits)

lemma map_le_insert: "map_of m i = None \<or> map_of m i = Some v \<Longrightarrow> map_of m \<subseteq>\<^sub>m map_of ((i, v) # m)"
  by (auto simp: map_le_def)

lemma depth_memo_mono:
  assumes "depth_memo_ok ops base m" "map_of m \<subseteq>\<^sub>m map_of m'" "map_of m i = Some d" "find_op ops i = Some op"
  shows "set (known_parents ops base op) \<subseteq> dom (map_of m')"
    "d = max_or_0 (map (\<lambda>p. Suc (depth_of m' p)) (known_parents ops base op))"
proof -
  have k: "set (known_parents ops base op) \<subseteq> dom (map_of m)"
      "d = max_or_0 (map (\<lambda>p. Suc (depth_of m p)) (known_parents ops base op))"
    using assms(1) [unfolded depth_memo_ok_def, rule_format, OF assms(3)] assms(4) by simp_all
  show "set (known_parents ops base op) \<subseteq> dom (map_of m')" using k(1) map_le_implies_dom_le [OF assms(2)] by blast
  have "map (\<lambda>p. Suc (depth_of m' p)) (known_parents ops base op) =
      map (\<lambda>p. Suc (depth_of m p)) (known_parents ops base op)"
    using k(1) by (auto simp: subset_iff depth_of_mono [OF assms(2)])
  then show "d = max_or_0 (map (\<lambda>p. Suc (depth_of m' p)) (known_parents ops base op))" using k(2) by (simp only:)
qed

lemma depth_memo_insert:
  assumes "depth_memo_ok ops base m"
    "case find_op ops i of None \<Rightarrow> v = depth_of base i
       | Some op \<Rightarrow> set (known_parents ops base op) \<subseteq> dom (map_of m) \<and>
           v = max_or_0 (map (\<lambda>p. Suc (depth_of m p)) (known_parents ops base op))"
  shows "depth_memo_ok ops base ((i, v) # m)" "map_of m \<subseteq>\<^sub>m map_of ((i, v) # m)"
proof -
  have "map_of m i = None \<or> map_of m i = Some v"
  proof (cases "map_of m i")
    case (Some d)
    then show ?thesis
      using assms(1) [unfolded depth_memo_ok_def, rule_format, OF Some] assms(2)
      by (cases "find_op ops i") simp_all
  qed simp
  then show le: "map_of m \<subseteq>\<^sub>m map_of ((i, v) # m)" by (rule map_le_insert)
  show "depth_memo_ok ops base ((i, v) # m)"
    unfolding depth_memo_ok_def
  proof (intro allI impI)
    fix j d assume j: "map_of ((i, v) # m) j = Some d"
    show "case find_op ops j of None \<Rightarrow> d = depth_of base j
         | Some op \<Rightarrow> set (known_parents ops base op) \<subseteq> dom (map_of ((i, v) # m)) \<and>
             d = max_or_0 (map (\<lambda>p. Suc (depth_of ((i, v) # m) p)) (known_parents ops base op))"
    proof (cases "find_op ops j")
      case None
      show ?thesis
      proof (cases "j = i")
        case True
        then show ?thesis using j None assms(2) by simp
      next
        case False
        then have "map_of m j = Some d" using j by simp
        from assms(1) [unfolded depth_memo_ok_def, rule_format, OF this] show ?thesis using None by simp
      qed
    next
      case (Some op)
      let ?ps = "known_parents ops base op"
      have old: "set ?ps \<subseteq> dom (map_of m) \<and> d = max_or_0 (map (\<lambda>p. Suc (depth_of m p)) ?ps)"
      proof (cases "j = i")
        case True
        then show ?thesis using j Some assms(2) by simp
      next
        case False
        then have "map_of m j = Some d" using j by simp
        from assms(1) [unfolded depth_memo_ok_def, rule_format, OF this] show ?thesis using Some by simp
      qed
      have "map (\<lambda>p. Suc (depth_of ((i, v) # m) p)) ?ps = map (\<lambda>p. Suc (depth_of m p)) ?ps"
        using old by (auto simp: subset_iff depth_of_mono [OF le] simp del: map_of.simps)
      moreover have "set ?ps \<subseteq> dom (map_of ((i, v) # m))" using old map_le_implies_dom_le [OF le] by blast
      ultimately show ?thesis using old Some by (simp only: option.simps simp_thms)
    qed
  qed
qed

lemma depth_go_ok:
  assumes "causal X"
  shows "rx_ops X = ops \<Longrightarrow> depth_memo_ok ops base memo \<Longrightarrow> \<forall>x \<in> set stack. rx_path X i x \<Longrightarrow>
      depth_go ops base stack memo i = (d, memo') \<Longrightarrow>
      depth_memo_ok ops base memo' \<and> map_of memo \<subseteq>\<^sub>m map_of memo' \<and> map_of memo' i = Some d"
    and "rx_ops X = ops \<Longrightarrow> depth_memo_ok ops base memo \<Longrightarrow> \<forall>x \<in> set stack. \<forall>p \<in> set ps. rx_path X p x \<Longrightarrow>
      depth_gos ops base stack memo ps = (ds, memo') \<Longrightarrow>
      depth_memo_ok ops base memo' \<and> map_of memo \<subseteq>\<^sub>m map_of memo' \<and> set ps \<subseteq> dom (map_of memo') \<and>
      ds = map (\<lambda>p. Suc (depth_of memo' p)) ps"
proof (induction ops base stack memo i and ops base stack memo ps arbitrary: d memo' and ds memo'
      rule: depth_go_depth_gos.induct)
  case (1 ops base stack memo i)
  have ns: "i \<notin> set stack" using "1.prems"(3) causal_order(1) [OF assms] by blast
  show ?case
  proof (cases "map_of memo i")
    case (Some v)
    then show ?thesis using "1.prems" by (simp add: depth_go.simps)
  next
    case None
    note fresh = None
    show ?thesis
    proof (cases "find_op ops i")
      case None
      then show ?thesis using "1.prems" fresh ns depth_memo_insert [where ops = ops and base = base and m = memo and i = i and v = "depth_of base i"]
        by (auto simp: depth_go.simps map_le_def)
    next
      case (Some op)
      obtain ds m where r: "depth_gos ops base (i # stack) memo (known_parents ops base op) = (ds, m)"
        by (cases "depth_gos ops base (i # stack) memo (known_parents ops base op)")
      have op: "op \<in> set (rx_ops X)" "op_id op = i" using find_op_Some [OF Some] "1.prems"(1) by auto
      have ps: "rx_path X p i" if "p \<in> set (known_parents ops base op)" for p
        using causal_order(3) [OF assms op(1), of p] that op(2) by (auto simp: known_parents_def)
      have "\<forall>x \<in> set (i # stack). \<forall>p \<in> set (known_parents ops base op). rx_path X p x"
        using ps "1.prems"(3) causal_order(2) [OF assms] by (metis set_ConsD)
      from "1.IH" [OF fresh ns Some "1.prems"(1,2) this r]
      have ih: "depth_memo_ok ops base m" "map_of memo \<subseteq>\<^sub>m map_of m"
          "set (known_parents ops base op) \<subseteq> dom (map_of m)"
          "ds = map (\<lambda>p. Suc (depth_of m p)) (known_parents ops base op)" by blast+
      have res: "d = max_or_0 ds" "memo' = (i, max_or_0 ds) # m"
        using "1.prems"(4) fresh ns Some r by (auto simp: depth_go.simps)
      have "depth_memo_ok ops base memo'" "map_of m \<subseteq>\<^sub>m map_of memo'"
        unfolding res by (rule depth_memo_insert [OF ih(1)], simp add: Some ih(3,4))+
      moreover from this have "map_of memo \<subseteq>\<^sub>m map_of memo'" using ih(2) map_le_trans by blast
      ultimately show ?thesis by (simp add: res fun_upd_def)
    qed
  qed
next
  case (2 ops base stack memo)
  then show ?case by simp
next
  case (3 ops base stack memo p ps)
  obtain v m1 where r1: "depth_go ops base stack memo p = (v, m1)" by (cases "depth_go ops base stack memo p")
  obtain vs m2 where r2: "depth_gos ops base stack m1 ps = (vs, m2)" by (cases "depth_gos ops base stack m1 ps")
  have i1: "depth_memo_ok ops base m1" "map_of memo \<subseteq>\<^sub>m map_of m1" "map_of m1 p = Some v"
    using "3.IH"(1) [OF "3.prems"(1,2) _ r1] "3.prems"(3) by auto
  have i2: "depth_memo_ok ops base m2" "map_of m1 \<subseteq>\<^sub>m map_of m2" "set ps \<subseteq> dom (map_of m2)"
      "vs = map (\<lambda>p. Suc (depth_of m2 p)) ps"
    using "3.IH"(2) [OF r1 [symmetric] "3.prems"(1) i1(1) _ r2] "3.prems"(3) by auto
  have p2: "map_of m2 p = Some v" using i1(3) i2(2) by (auto simp: map_le_def dom_def)
  have "ds = Suc v # vs" "memo' = m2" using "3.prems"(4) r1 r2 by simp_all
  then show ?case using i1 i2 p2 by (auto simp: depth_of_def intro: map_le_trans)
qed


lemma compute_depths_ok:
  assumes "causal X"
  shows "depth_memo_ok (rx_ops X) base (compute_depths (rx_ops X) base)"
    "set (op_ids (rx_ops X)) \<subseteq> dom (map_of (compute_depths (rx_ops X) base))"
proof -
  let ?f = "\<lambda>memo op. snd (depth_go (rx_ops X) base [] memo (op_id op))"
  have "depth_memo_ok (rx_ops X) base m \<Longrightarrow> depth_memo_ok (rx_ops X) base (foldl ?f m xs) \<and>
      map_of m \<subseteq>\<^sub>m map_of (foldl ?f m xs) \<and> op_id ` set xs \<subseteq> dom (map_of (foldl ?f m xs))" for m xs
  proof (induction xs arbitrary: m)
    case (Cons op xs)
    obtain d m' where r: "depth_go (rx_ops X) base [] m (op_id op) = (d, m')"
      by (cases "depth_go (rx_ops X) base [] m (op_id op)")
    have s: "depth_memo_ok (rx_ops X) base m'" "map_of m \<subseteq>\<^sub>m map_of m'" "map_of m' (op_id op) = Some d"
      using depth_go_ok(1) [OF assms(1) refl Cons.prems _ r] by simp_all
    from Cons.IH [OF s(1)] have "map_of m' \<subseteq>\<^sub>m map_of (foldl ?f m' xs)"
        "depth_memo_ok (rx_ops X) base (foldl ?f m' xs)" "op_id ` set xs \<subseteq> dom (map_of (foldl ?f m' xs))"
      by blast+
    moreover from this have "op_id op \<in> dom (map_of (foldl ?f m' xs))"
      using s(3) map_le_implies_dom_le by blast
    ultimately show ?case using s(2) by (auto simp: r intro: map_le_trans)
  qed simp
  moreover have "depth_memo_ok (rx_ops X) base []" by (simp add: depth_memo_ok_def)
  ultimately have "depth_memo_ok (rx_ops X) base (foldl ?f [] (rx_ops X)) \<and>
      op_id ` set (rx_ops X) \<subseteq> dom (map_of (foldl ?f [] (rx_ops X)))" by blast
  then show "depth_memo_ok (rx_ops X) base (compute_depths (rx_ops X) base)"
    "set (op_ids (rx_ops X)) \<subseteq> dom (map_of (compute_depths (rx_ops X) base))"
    by (simp_all add: compute_depths_def op_ids_def)
qed

lemma depth_equation:
  assumes "causal X" "op \<in> set (rx_ops X)"
  shows "depth_of (compute_depths (rx_ops X) base) (op_id op) =
    max_or_0 (map (\<lambda>p. Suc (depth_of (compute_depths (rx_ops X) base) p)) (known_parents (rx_ops X) base op))"
proof -
  let ?D = "compute_depths (rx_ops X) base"
  have f: "find_op (rx_ops X) (op_id op) = Some op"
    using assms by (simp add: causal_def find_op_in)
  obtain d where d: "map_of ?D (op_id op) = Some d"
    using compute_depths_ok(2) [OF assms(1), of base] assms(2) by (auto simp: op_ids_def)
  show ?thesis
    using compute_depths_ok(1) [OF assms(1), of base, unfolded depth_memo_ok_def, rule_format, OF d] f d
    by (simp add: depth_of_def [of _ "op_id op"])
qed

lemma max_or_0_ge: "d \<in> set ds \<Longrightarrow> d \<le> max_or_0 ds"
  by (induction ds) (auto simp: max_or_0_def)

text \<open>Happens-before is growth of depth, so sorting by depth is a causal order.\<close>

lemma depth_less:
  assumes "causal X" "rx_path X a b" "a \<in> set (op_ids (rx_ops X))"
  shows "depth_of (compute_depths (rx_ops X) base) a < depth_of (compute_depths (rx_ops X) base) b"
proof -
  let ?D = "compute_depths (rx_ops X) base"
  have edge: "depth_of ?D p < depth_of ?D c"
    if "(p, c) \<in> parent_rel (rx_ops X)" "p \<in> set (op_ids (rx_ops X))" for p c
  proof -
    obtain op where op: "op \<in> set (rx_ops X)" "op_id op = c" "p \<in> set (op_parents op)"
      using \<open>(p, c) \<in> parent_rel (rx_ops X)\<close> by (auto simp: parent_rel_def)
    have "Suc (depth_of ?D p) \<in> set (map (\<lambda>p. Suc (depth_of ?D p)) (known_parents (rx_ops X) base op))"
      using op(3) that(2) by (auto simp: known_parents_def)
    then show ?thesis using depth_equation [OF assms(1) op(1), of base] op(2) max_or_0_ge by fastforce
  qed
  have "(a, b) \<in> (parent_rel (rx_ops X))\<^sup>+" using assms(1,2) by (simp add: causal_def)
  then show ?thesis
  proof (induction rule: trancl_induct)
    case (base y)
    then show ?case using edge assms(3) by blast
  next
    case (step y z)
    obtain x where "(x, y) \<in> parent_rel (rx_ops X)" using step(1) by (auto elim: tranclE)
    then have "y \<in> set (op_ids (rx_ops X))" by (auto simp: parent_rel_def op_ids_def)
    then show ?case using step(3) edge [OF step(2)] by simp
  qed
qed

definition auth_memo_ok ::
  "('o::linorder, 'id::linorder, 'r, 'pk, 'sig) rctx \<Rightarrow> ('o \<times> nat) list \<Rightarrow> ('o \<times> bool) list \<Rightarrow> bool" where
  "auth_memo_ok X D memo \<longleftrightarrow>
     (\<forall>i b. map_of memo i = Some b \<longrightarrow>
        set (ancestors X D i) \<subseteq> dom (map_of memo) \<and>
        (\<exists>op. find_op (rx_ops X) i = Some op \<and> b = judge X (resolved_state_before X D memo i) op))"

lemma resolved_mono:
  assumes "map_of m \<subseteq>\<^sub>m map_of m'" "set as \<subseteq> dom (map_of m)"
  shows "foldl (\<lambda>s a. if auth_of m' a then fold_op X a s else s) s as =
    foldl (\<lambda>s a. if auth_of m a then fold_op X a s else s) s as"
  using assms(2) by (induction as arbitrary: s) (simp_all add: auth_of_mono [OF assms(1)])

lemma auth_memo_insert:
  assumes "auth_memo_ok X D m" "find_op (rx_ops X) i = Some op" "set (ancestors X D i) \<subseteq> dom (map_of m)"
    "v = judge X (resolved_state_before X D m i) op"
  shows "auth_memo_ok X D ((i, v) # m)" "map_of m \<subseteq>\<^sub>m map_of ((i, v) # m)"
proof -
  have old: "set (ancestors X D j) \<subseteq> dom (map_of m) \<and>
      (\<exists>op. find_op (rx_ops X) j = Some op \<and> b = judge X (resolved_state_before X D m j) op)"
    if "map_of m j = Some b" for j b
    using assms(1) [unfolded auth_memo_ok_def, rule_format, OF that] .
  have "map_of m i = None \<or> map_of m i = Some v"
  proof (cases "map_of m i")
    case (Some b)
    then show ?thesis using old [OF Some] assms(2,4) by simp
  qed simp
  then show le: "map_of m \<subseteq>\<^sub>m map_of ((i, v) # m)" by (rule map_le_insert)
  have same: "resolved_state_before X D ((i, v) # m) j = resolved_state_before X D m j"
    if "set (ancestors X D j) \<subseteq> dom (map_of m)" for j
    unfolding resolved_state_before_def by (rule resolved_mono [OF le that])
  show "auth_memo_ok X D ((i, v) # m)"
    unfolding auth_memo_ok_def
  proof (intro allI impI)
    fix j b assume j: "map_of ((i, v) # m) j = Some b"
    have "set (ancestors X D j) \<subseteq> dom (map_of m) \<and>
        (\<exists>op. find_op (rx_ops X) j = Some op \<and> b = judge X (resolved_state_before X D m j) op)"
      using j old [of j b] assms(2-4) by (cases "j = i") simp_all
    then show "set (ancestors X D j) \<subseteq> dom (map_of ((i, v) # m)) \<and>
        (\<exists>op. find_op (rx_ops X) j = Some op \<and> b = judge X (resolved_state_before X D ((i, v) # m) j) op)"
      using same [of j] map_le_implies_dom_le [OF le] by auto
  qed
qed

lemma authorized_at_ok:
  assumes "causal Y"
  shows "X = Y \<Longrightarrow> auth_memo_ok X D memo \<Longrightarrow> i \<in> set (op_ids (rx_ops X)) \<Longrightarrow> \<forall>x \<in> set stack. rx_path X i x \<Longrightarrow>
      authorized_at X D stack memo i = (b, memo') \<Longrightarrow>
      auth_memo_ok X D memo' \<and> map_of memo \<subseteq>\<^sub>m map_of memo' \<and> map_of memo' i = Some b"
    and "X = Y \<Longrightarrow> auth_memo_ok X D memo \<Longrightarrow>
      \<forall>a \<in> set as. a \<in> set (op_ids (rx_ops X)) \<and> (\<forall>x \<in> set stack. rx_path X a x) \<Longrightarrow>
      authorized_fold X D stack memo as s = (s', memo') \<Longrightarrow>
      auth_memo_ok X D memo' \<and> map_of memo \<subseteq>\<^sub>m map_of memo' \<and> set as \<subseteq> dom (map_of memo') \<and>
      s' = foldl (\<lambda>s a. if auth_of memo' a then fold_op X a s else s) s as"
proof (induction X D stack memo i and X D stack memo as s arbitrary: b memo' and s' memo'
      rule: authorized_at_authorized_fold.induct)
  case (1 X D stack memo i)
  have ns: "i \<notin> set stack" using "1.prems"(1,4) causal_order(1) [OF assms] by blast
  obtain op where op: "find_op (rx_ops X) i = Some op"
    using "1.prems"(3) find_op_None [of "rx_ops X" i] by (cases "find_op (rx_ops X) i") auto
  show ?case
  proof (cases "map_of memo i")
    case (Some v)
    then show ?thesis using "1.prems" by (simp add: authorized_at.simps)
  next
    case None
    obtain s m where r: "authorized_fold X D (i # stack) memo (ancestors X D i) (rx_genesis X) = (s, m)"
      by (cases "authorized_fold X D (i # stack) memo (ancestors X D i) (rx_genesis X)")
    have "\<forall>a \<in> set (ancestors X D i). a \<in> set (op_ids (rx_ops X)) \<and> (\<forall>x \<in> set (i # stack). rx_path X a x)"
      using "1.prems"(1,4) causal_order(2) [OF assms] unfolding set_ancestors by (metis (no_types, lifting) mem_Collect_eq set_ConsD)
    from "1.IH" [OF None ns op "1.prems"(1,2) this r]
    have ih: "auth_memo_ok X D m" "map_of memo \<subseteq>\<^sub>m map_of m" "set (ancestors X D i) \<subseteq> dom (map_of m)"
        "s = resolved_state_before X D m i" by (simp_all add: resolved_state_before_def)
    have res: "b = judge X s op" "memo' = (i, b) # m"
      using "1.prems"(5) None ns op r by (auto simp: authorized_at.simps)
    have "auth_memo_ok X D memo'" "map_of m \<subseteq>\<^sub>m map_of memo'"
      unfolding res(2) by (rule auth_memo_insert [OF ih(1) op ih(3)], simp add: res(1) ih(4))+
    moreover from this have "map_of memo \<subseteq>\<^sub>m map_of memo'" using ih(2) map_le_trans by blast
    ultimately show ?thesis by (simp add: res(2) fun_upd_def)
  qed
next
  case (2 X D stack memo s)
  then show ?case by simp
next
  case (3 X D stack memo a as s)
  obtain v m1 where r1: "authorized_at X D stack memo a = (v, m1)" by (cases "authorized_at X D stack memo a")
  have i1: "auth_memo_ok X D m1" "map_of memo \<subseteq>\<^sub>m map_of m1" "map_of m1 a = Some v"
    using "3.IH"(1) [OF "3.prems"(1,2) _ _ r1] "3.prems"(3) by auto
  have r2: "authorized_fold X D stack m1 as (if v then fold_op X a s else s) = (s', memo')"
    using "3.prems"(4) r1 by simp
  have i2: "auth_memo_ok X D memo'" "map_of m1 \<subseteq>\<^sub>m map_of memo'" "set as \<subseteq> dom (map_of memo')"
      "s' = foldl (\<lambda>s a. if auth_of memo' a then fold_op X a s else s) (if v then fold_op X a s else s) as"
    using "3.IH"(2) [OF r1 [symmetric] "3.prems"(1) i1(1) _ r2] "3.prems"(3) by auto
  have p2: "map_of memo' a = Some v" using i1(3) i2(2) by (auto simp: map_le_def dom_def)
  then show ?case using i1 i2 by (auto simp: auth_of_def intro: map_le_trans)
qed


lemma authorized_map_ok:
  assumes "causal X"
  shows "auth_memo_ok X D (authorized_map X D)" "set (op_ids (rx_ops X)) \<subseteq> dom (map_of (authorized_map X D))"
proof -
  let ?f = "\<lambda>memo op. snd (authorized_at X D [] memo (op_id op))"
  have all: "auth_memo_ok X D m \<Longrightarrow> op_id ` set xs \<subseteq> set (op_ids (rx_ops X)) \<Longrightarrow>
      auth_memo_ok X D (foldl ?f m xs) \<and>
      map_of m \<subseteq>\<^sub>m map_of (foldl ?f m xs) \<and> op_id ` set xs \<subseteq> dom (map_of (foldl ?f m xs))" for m xs
  proof (induction xs arbitrary: m)
    case (Cons op xs)
    obtain b m' where r: "authorized_at X D [] m (op_id op) = (b, m')"
      by (cases "authorized_at X D [] m (op_id op)")
    have s: "auth_memo_ok X D m'" "map_of m \<subseteq>\<^sub>m map_of m'" "map_of m' (op_id op) = Some b"
      using authorized_at_ok(1) [OF assms refl Cons.prems(1) _ _ r] Cons.prems(2) by simp_all
    from Cons.IH [OF s(1)] Cons.prems(2) have t: "map_of m' \<subseteq>\<^sub>m map_of (foldl ?f m' xs)"
        "auth_memo_ok X D (foldl ?f m' xs)" "op_id ` set xs \<subseteq> dom (map_of (foldl ?f m' xs))"
      by simp_all
    have "op_id op \<in> dom (map_of (foldl ?f m' xs))" using s(3) map_le_implies_dom_le [OF t(1)] by blast
    then show ?case using s(2) t by (auto simp: r intro: map_le_trans)
  qed simp
  have "auth_memo_ok X D []" by (simp add: auth_memo_ok_def)
  from all [OF this, of "rx_ops X"] have "auth_memo_ok X D (foldl ?f [] (rx_ops X)) \<and>
      op_id ` set (rx_ops X) \<subseteq> dom (map_of (foldl ?f [] (rx_ops X)))"
    by (simp add: op_ids_def)
  then show "auth_memo_ok X D (authorized_map X D)" "set (op_ids (rx_ops X)) \<subseteq> dom (map_of (authorized_map X D))"
    by (simp_all add: authorized_map_def op_ids_def)
qed

lemma authorized_equation:
  assumes "causal X" "op \<in> set (rx_ops X)"
  shows "auth_of (authorized_map X D) (op_id op) =
    judge X (resolved_state_before X D (authorized_map X D) (op_id op)) op"
proof -
  let ?A = "authorized_map X D"
  have f: "find_op (rx_ops X) (op_id op) = Some op"
    using assms(1,2) by (simp add: causal_def find_op_in)
  obtain b where b: "map_of ?A (op_id op) = Some b"
    using authorized_map_ok(2) [OF assms(1), of D] assms(2) by (force simp: op_ids_def)
  show ?thesis
    using authorized_map_ok(1) [OF assms(1), of D, unfolded auth_memo_ok_def, rule_format, OF b] f b
    by (simp add: auth_of_def [of _ "op_id op"])
qed

lemma authorized_ids: "causal X \<Longrightarrow> auth_of (authorized_map X D) i \<Longrightarrow> i \<in> set (op_ids (rx_ops X))"
proof -
  assume c: "causal X" and a: "auth_of (authorized_map X D) i"
  then obtain b where b: "map_of (authorized_map X D) i = Some b" by (auto simp: auth_of_def split: option.splits)
  from authorized_map_ok(1) [OF c, of D, unfolded auth_memo_ok_def, rule_format, OF b]
  obtain op where "find_op (rx_ops X) i = Some op" by blast
  then show ?thesis by (auto dest: find_op_Some simp: op_ids_def)
qed

lemma position_decided:
  assumes "causal X" "op \<in> set (rx_ops X)"
  shows "op_authorized_at_position X base (op_id op) =
    Some (auth_of (authorized_map X (compute_depths (rx_ops X) base)) (op_id op))"
proof -
  let ?A = "authorized_map X (compute_depths (rx_ops X) base)"
  obtain b where "map_of ?A (op_id op) = Some b"
    using authorized_map_ok(2) [OF assms(1)] assms(2) by (force simp: op_ids_def)
  then show ?thesis using assms(2) by (simp add: op_authorized_at_position_def op_ids_def auth_of_def)
qed

text \<open>C27: authority is a function of the causal past.  The memoised recursion terminates and, on
  an acyclic op set, decides every op by exactly the state its authorized ancestors fold to:
  the author passes access control there and signs with the key registered there.\<close>

theorem authority_from_past:
  assumes "causal X" "op \<in> set (rx_ops X)"
  shows "op_authorized_at_position X base (op_id op) =
    (let D = compute_depths (rx_ops X) base; A = authorized_map X D;
         s = foldl (\<lambda>s a. if auth_of A a then fold_op X a s else s) (rx_genesis X) (ancestors X D (op_id op))
     in Some (ac_authorized (rx_ac X) s (op_author op) (op_action op) \<and> key_matches_registration s op))"
  using position_decided [OF assms, of base]
    authorized_equation [OF assms, of "compute_depths (rx_ops X) base"]
  by (simp add: Let_def judge_def resolved_state_before_def)

subsection \<open>Iteration order does not matter to the recursions\<close>

definition same_dag :: "('o, 'id, 'r, 'pk, 'sig) rctx \<Rightarrow> ('o, 'id, 'r, 'pk, 'sig) rctx \<Rightarrow> bool" where
  "same_dag X Y \<longleftrightarrow> mset (rx_ops X) = mset (rx_ops Y) \<and> rx_path X = rx_path Y \<and>
     rx_ac X = rx_ac Y \<and> rx_genesis X = rx_genesis Y"

lemma same_dag_facts:
  assumes "same_dag X Y"
  shows "set (rx_ops X) = set (rx_ops Y)" "mset (op_ids (rx_ops X)) = mset (op_ids (rx_ops Y))"
    "set (op_ids (rx_ops X)) = set (op_ids (rx_ops Y))" "causal X \<Longrightarrow> causal Y"
    "length (rx_ops X) = length (rx_ops Y)"
proof -
  have m: "mset (rx_ops X) = mset (rx_ops Y)" using assms by (simp add: same_dag_def)
  show s: "set (rx_ops X) = set (rx_ops Y)" using m by (rule mset_eq_setD)
  show i: "mset (op_ids (rx_ops X)) = mset (op_ids (rx_ops Y))" using m by (simp add: op_ids_def)
  show "set (op_ids (rx_ops X)) = set (op_ids (rx_ops Y))" using i by (rule mset_eq_setD)
  show "length (rx_ops X) = length (rx_ops Y)" using m by (rule mset_eq_length)
  have "parent_rel (rx_ops X) = parent_rel (rx_ops Y)" using s by (simp add: parent_rel_def)
  then show "causal X \<Longrightarrow> causal Y" using assms mset_eq_imp_distinct_iff [OF i] by (simp add: causal_def same_dag_def)
qed

lemma same_find_op:
  assumes "same_dag X Y" "causal X"
  shows "find_op (rx_ops X) = find_op (rx_ops Y)"
proof
  fix i
  note f = same_dag_facts [OF assms(1)]
  have d: "distinct (op_ids (rx_ops Y))" using f(4) [OF assms(2)] by (simp add: causal_def)
  show "find_op (rx_ops X) i = find_op (rx_ops Y) i"
  proof (cases "find_op (rx_ops X) i")
    case None
    then show ?thesis using f(3) find_op_None [of "rx_ops X" i] find_op_None [of "rx_ops Y" i] by simp
  next
    case (Some op)
    then have "op \<in> set (rx_ops Y)" "op_id op = i" using find_op_Some f(1) by fastforce+
    then show ?thesis using find_op_in [OF d] Some by fastforce
  qed
qed

lemma by_depth_perm:
  assumes "mset xs = mset ys" "\<And>x. x \<in> set xs \<Longrightarrow> depth_of D x = depth_of D' x"
  shows "by_depth D xs = by_depth D' ys"
  unfolding by_depth_def
proof (rule properties_for_sort_key)
  let ?zs = "sort_key (\<lambda>o'. (depth_of D' o', o')) ys"
  show "mset ?zs = mset xs" by (simp add: assms(1))
  show "filter (\<lambda>x. (depth_of D k, k) = (depth_of D x, x)) ?zs =
      filter (\<lambda>x. (depth_of D k, k) = (depth_of D x, x)) xs" for k
  proof -
    have "filter (\<lambda>x. (depth_of D k, k) = (depth_of D x, x)) zs = replicate (count (mset zs) k) k" for zs
      unfolding replicate_count_mset_eq_filter_eq by (rule filter_cong) auto
    then show ?thesis by (simp add: assms(1))
  qed
  have same: "map (\<lambda>o'. (depth_of D o', o')) ?zs = map (\<lambda>o'. (depth_of D' o', o')) ?zs"
    using assms(2) mset_eq_setD [OF assms(1)] by simp
  show "sorted (map (\<lambda>o'. (depth_of D o', o')) ?zs)" unfolding same by (rule sorted_sort_key)
qed

lemma finite_parent_rel [simp]: "finite (parent_rel ops)"
proof (rule finite_subset)
  show "parent_rel ops \<subseteq> (\<Union>op \<in> set ops. (\<lambda>p. (p, op_id op)) ` set (op_parents op))"
    by (auto simp: parent_rel_def)
qed simp

lemma parent_wf:
  assumes "causal X"
  shows "wf (parent_rel (rx_ops X))" "wf {(a, b). rx_path X a b}"
proof -
  show "wf (parent_rel (rx_ops X))" using assms by (simp add: causal_def finite_acyclic_wf)
  then have "wf ((parent_rel (rx_ops X))\<^sup>+)" by (rule wf_trancl)
  moreover have "{(a, b). rx_path X a b} = (parent_rel (rx_ops X))\<^sup>+" using assms by (auto simp: causal_def)
  ultimately show "wf {(a, b). rx_path X a b}" by simp
qed

lemma same_depth:
  assumes "same_dag X Y" "causal X"
  shows "i \<in> set (op_ids (rx_ops X)) \<Longrightarrow>
    depth_of (compute_depths (rx_ops X) base) i = depth_of (compute_depths (rx_ops Y) base) i"
proof (induction i rule: wf_induct_rule [OF parent_wf(1) [OF assms(2)]])
  case (1 i)
  note f = same_dag_facts [OF assms(1)]
  have cy: "causal Y" by (rule f(4) [OF assms(2)])
  obtain op where op: "op \<in> set (rx_ops X)" "op_id op = i" using "1.prems" by (auto simp: op_ids_def)
  have kp: "known_parents (rx_ops X) base op = known_parents (rx_ops Y) base op"
    using f(3) by (simp add: known_parents_def)
  have outside: "depth_of (compute_depths (rx_ops Z) base) p = depth_of base p"
    if z: "causal Z" "op \<in> set (rx_ops Z)" "p \<in> set (known_parents (rx_ops Z) base op)"
      "p \<notin> set (op_ids (rx_ops Z))" for Z p
  proof -
    note m = compute_depths_ok [OF z(1), of base]
    have fop: "find_op (rx_ops Z) (op_id op) = Some op" using z(1,2) by (simp add: causal_def find_op_in)
    obtain d where d: "map_of (compute_depths (rx_ops Z) base) (op_id op) = Some d"
      using m(2) z(2) by (force simp: op_ids_def)
    have "p \<in> dom (map_of (compute_depths (rx_ops Z) base))"
      using m(1) [unfolded depth_memo_ok_def, rule_format, OF d] fop z(3) by auto
    then obtain e where e: "map_of (compute_depths (rx_ops Z) base) p = Some e" by auto
    show ?thesis using m(1) [unfolded depth_memo_ok_def, rule_format, OF e] e z(4) find_op_None [of "rx_ops Z" p]
      by (simp add: depth_of_def [of _ p])
  qed
  have "depth_of (compute_depths (rx_ops X) base) p = depth_of (compute_depths (rx_ops Y) base) p"
    if p: "p \<in> set (known_parents (rx_ops X) base op)" for p
  proof (cases "p \<in> set (op_ids (rx_ops X))")
    case True
    moreover have "(p, i) \<in> parent_rel (rx_ops X)"
      using p op by (auto simp: known_parents_def parent_rel_def)
    ultimately show ?thesis by (rule "1.IH" [rotated])
  next
    case False
    then show ?thesis using outside [OF assms(2) op(1) p] outside [OF cy, of p] f(1,3) op(1) p kp by simp
  qed
  then have "map (\<lambda>p. Suc (depth_of (compute_depths (rx_ops X) base) p)) (known_parents (rx_ops X) base op) =
      map (\<lambda>p. Suc (depth_of (compute_depths (rx_ops Y) base) p)) (known_parents (rx_ops Y) base op)"
    using kp by simp
  then show ?case
    using depth_equation [OF assms(2) op(1), of base] depth_equation [OF cy, of op base] op f(1) by simp
qed

lemma same_ancestors:
  assumes "same_dag X Y" "causal X"
  shows "ancestors X (compute_depths (rx_ops X) base) i = ancestors Y (compute_depths (rx_ops Y) base) i"
  unfolding ancestors_def
proof (rule by_depth_perm)
  have "rx_path X = rx_path Y" using assms(1) by (simp add: same_dag_def)
  then show "mset (filter (\<lambda>a. rx_path X a i) (op_ids (rx_ops X))) = mset (filter (\<lambda>a. rx_path Y a i) (op_ids (rx_ops Y)))"
    using same_dag_facts(2) [OF assms(1)] by (simp add: mset_filter)
qed (simp add: same_depth [OF assms])

lemma same_fold_op:
  assumes "same_dag X Y" "causal X"
  shows "fold_op X = fold_op Y"
  using same_find_op [OF assms] by (simp add: fold_op_def fun_eq_iff)

lemma same_auth:
  assumes "same_dag X Y" "causal X"
  shows "auth_of (authorized_map X (compute_depths (rx_ops X) base)) i =
    auth_of (authorized_map Y (compute_depths (rx_ops Y) base)) i"
proof (induction i rule: wf_induct_rule [OF parent_wf(2) [OF assms(2)]])
  case (1 i)
  let ?DX = "compute_depths (rx_ops X) base" and ?DY = "compute_depths (rx_ops Y) base"
  let ?AX = "authorized_map X ?DX" and ?AY = "authorized_map Y ?DY"
  note f = same_dag_facts [OF assms(1)]
  have cy: "causal Y" by (rule f(4) [OF assms(2)])
  show ?case
  proof (cases "i \<in> set (op_ids (rx_ops X))")
    case True
    then obtain op where op: "op \<in> set (rx_ops X)" "op_id op = i" by (auto simp: op_ids_def)
    have "foldl (\<lambda>s a. if auth_of ?AX a then fold_op X a s else s) (rx_genesis X) (ancestors X ?DX i) =
        foldl (\<lambda>s a. if auth_of ?AY a then fold_op Y a s else s) (rx_genesis Y) (ancestors Y ?DY i)"
    proof (rule foldl_cong)
      show "(if auth_of ?AX a then fold_op X a s else s) = (if auth_of ?AY a then fold_op Y a s else s)"
        if "a \<in> set (ancestors X ?DX i)" for s a
      proof -
        have "rx_path X a i" using that assms(1) by (simp add: set_ancestors same_dag_def)
        then have "auth_of ?AX a = auth_of ?AY a" using "1.IH" [of a] by simp
        then show ?thesis by (simp only: same_fold_op [OF assms])
      qed
    qed (use assms(1) in \<open>simp_all only: same_ancestors [OF assms] same_dag_def\<close>)
    then have "resolved_state_before X ?DX ?AX i = resolved_state_before Y ?DY ?AY i"
      by (simp add: resolved_state_before_def)
    then show ?thesis
      using authorized_equation [OF assms(2) op(1), of ?DX] authorized_equation [OF cy, of op ?DY] op f(1) assms(1)
      by (simp add: judge_def same_dag_def)
  next
    case False
    then show ?thesis using authorized_ids [OF assms(2), of ?DX i] authorized_ids [OF cy, of ?DY i] f(3) by blast
  qed
qed

lemma same_resolved_before:
  assumes "same_dag X Y" "causal X"
  shows "resolved_state_before X (compute_depths (rx_ops X) base) (authorized_map X (compute_depths (rx_ops X) base)) i =
    resolved_state_before Y (compute_depths (rx_ops Y) base) (authorized_map Y (compute_depths (rx_ops Y) base)) i"
  using assms(1) unfolding resolved_state_before_def same_ancestors [OF assms] same_auth [OF assms]
      same_fold_op [OF assms] by (simp add: same_dag_def)

end
