(* ===== verification/Dag_Resolver.thy ===== *)
theory Dag_Resolver
  imports Dag_Order
begin

text \<open>
  The strong-remove resolver of \<open>packages/keyeo-dag/src/dag/strong_remove.rs\<close>: which admitted ops
  are ignored.  \<open>bad\<close> is the growing ignore set, a duplicate-free list; every loop repeats its
  pass until the pass inserts nothing.
\<close>

definition hs_insert :: "'a \<Rightarrow> 'a list \<Rightarrow> 'a list" where
  "hs_insert x s = (if x \<in> set s then s else x # s)"

definition hs_extend :: "'a list \<Rightarrow> 'a list \<Rightarrow> 'a list" where
  "hs_extend xs s = foldl (\<lambda>s x. hs_insert x s) s xs"

text \<open>\<open>if invalid.insert(o) { changed = true }\<close>\<close>

definition mark :: "'a \<Rightarrow> 'a list \<times> bool \<Rightarrow> 'a list \<times> bool" where
  "mark x st = (if x \<in> set (fst st) then st else (x # fst st, True))"

text \<open>\<open>max_by_key(|id| (depth(id), id))\<close>\<close>

definition max_by_depth :: "('o \<times> nat) list \<Rightarrow> 'o::linorder list \<Rightarrow> 'o option" where
  "max_by_depth D xs = (case by_depth D xs of [] \<Rightarrow> None | ys \<Rightarrow> Some (last ys))"

datatype ('o, 'id) invalidator = InvRemove 'id | InvDemote "'o list"

text \<open>The invariant inputs of one \<open>process\<close> call: the op set, depths, authorization.\<close>

record ('o, 'id, 'r, 'pk, 'sig) pctx =
  px_x :: "('o, 'id, 'r, 'pk, 'sig) rctx"
  px_depth :: "('o \<times> nat) list"
  px_auth :: "('o \<times> bool) list"

abbreviation px_ops :: "('o, 'id, 'r, 'pk, 'sig) pctx \<Rightarrow> ('o, 'id, 'r, 'pk, 'sig) dag_op list" where
  "px_ops P \<equiv> rx_ops (px_x P)"

abbreviation px_path :: "('o, 'id, 'r, 'pk, 'sig) pctx \<Rightarrow> 'o \<Rightarrow> 'o \<Rightarrow> bool" where
  "px_path P \<equiv> rx_path (px_x P)"

abbreviation px_conc :: "('o, 'id, 'r, 'pk, 'sig) pctx \<Rightarrow> 'o \<Rightarrow> 'o \<Rightarrow> bool" where
  "px_conc P \<equiv> concurrent_by (rx_path (px_x P))"

abbreviation px_before ::
  "('o::linorder, 'id::linorder, 'r, 'pk, 'sig) pctx \<Rightarrow> 'o \<Rightarrow> ('id, 'r, 'pk) group_state" where
  "px_before P i \<equiv> resolved_state_before (px_x P) (px_depth P) (px_auth P) i"

abbreviation px_allowed :: "('o, 'id, 'r, 'pk, 'sig) pctx \<Rightarrow> ('o, 'id, 'r, 'pk, 'sig) dag_op \<Rightarrow> bool" where
  "px_allowed P op \<equiv> auth_of (px_auth P) (op_id op)"

subsection \<open>Invalidators\<close>

definition set_role ::
  "'id::linorder \<Rightarrow> 'r \<Rightarrow> ('id, 'r, 'pk) group_state \<Rightarrow> ('id, 'r, 'pk) group_state" where
  "set_role member r s =
     (case bt_get (gs_members s) member of None \<Rightarrow> s | Some m \<Rightarrow> set_member member (m\<lparr>ms_role := r\<rparr>) s)"

definition voidable ::
  "('o::linorder, 'id::linorder, 'r, 'pk, 'sig) pctx \<Rightarrow> 'o \<Rightarrow> 'id \<Rightarrow> 'r \<Rightarrow> 'o list" where
  "voidable P i member r =
     map op_id (filter (\<lambda>q. op_author q = member \<and> px_conc P (op_id q) i \<and>
         \<not> ac_authorized (rx_ac (px_x P)) (set_role member r (px_before P (op_id q))) member (op_action q))
       (px_ops P))"

definition invalidator_of ::
  "('o::linorder, 'id::linorder, 'r, 'pk, 'sig) pctx \<Rightarrow> ('o, 'id, 'r, 'pk, 'sig) dag_op \<Rightarrow>
     ('o, 'id) invalidator option" where
  "invalidator_of P op =
     (if \<not> px_allowed P op then None
      else case op_action op of
             Remove member \<Rightarrow> Some (InvRemove member)
           | ChangeRole member r \<Rightarrow>
               (if voidable P (op_id op) member r = [] then None
                else Some (InvDemote (voidable P (op_id op) member r)))
           | _ \<Rightarrow> None)"

definition invalidators ::
  "('o::linorder, 'id::linorder, 'r, 'pk, 'sig) pctx \<Rightarrow> ('o \<times> ('o, 'id) invalidator) list" where
  "invalidators P =
     sort_key (\<lambda>(i, v). (depth_of (px_depth P) i, i))
       (List.map_filter (\<lambda>op. map_option (\<lambda>v. (op_id op, v)) (invalidator_of P op)) (px_ops P))"

subsection \<open>Rule 5: the reset-merge carve-out\<close>

fun is_rotation :: "('id, 'r, 'pk, 'sig) action \<Rightarrow> bool" where
  "is_rotation (RotateRecoveryAuthority _) = True"
| "is_rotation _ = False"

fun is_refound :: "('id, 'r, 'pk, 'sig) action \<Rightarrow> bool" where
  "is_refound (ReFound _ _ _ _) = True"
| "is_refound _ = False"

definition superseded_refounds ::
  "('o::linorder, 'id::linorder, 'r, 'pk, 'sig) pctx \<Rightarrow> 'o list" where
  "superseded_refounds P =
     concat (map (\<lambda>rop.
         case gs_reset (px_before P (op_id rop)) of
           None \<Rightarrow> []
         | Some a_old \<Rightarrow>
             map op_id (filter (\<lambda>f. is_refound (op_action f) \<and> px_allowed P f \<and>
                 px_conc P (op_id f) (op_id rop) \<and> op_key f = a_old) (px_ops P)))
       (filter (\<lambda>rop. is_rotation (op_action rop) \<and> px_allowed P rop) (px_ops P)))"

definition effective_refound ::
  "('o::linorder, 'id::linorder, 'r, 'pk, 'sig) pctx \<Rightarrow> 'o option" where
  "effective_refound P =
     max_by_depth (px_depth P)
       (map op_id (filter (\<lambda>f. is_refound (op_action f) \<and> px_allowed P f \<and>
           op_id f \<notin> set (superseded_refounds P)) (px_ops P)))"

definition reset_merge_carveout ::
  "('o::linorder, 'id::linorder, 'r, 'pk, 'sig) pctx \<Rightarrow> 'o list \<Rightarrow> 'o list" where
  "reset_merge_carveout P bad =
     superseded_refounds P @
     (case effective_refound P of
        None \<Rightarrow> []
      | Some rstar \<Rightarrow>
          map op_id (filter (\<lambda>q. op_id q \<noteq> rstar \<and> op_id q \<notin> set bad \<and>
              op_id q \<notin> set (superseded_refounds P) \<and> \<not> is_rotation (op_action q) \<and>
              px_conc P (op_id q) rstar \<and>
              ac_privileged (rx_ac (px_x P)) (px_before P (op_id q)) (op_action q)) (px_ops P)))"

subsection \<open>Key provenance\<close>

definition registrar ::
  "('o::linorder, 'id, 'r, 'pk, 'sig) pctx \<Rightarrow> ('o, 'id, 'r, 'pk, 'sig) dag_op \<Rightarrow> 'o option" where
  "registrar P op =
     max_by_depth (px_depth P)
       (map op_id (filter (\<lambda>a. op_id a \<noteq> op_id op \<and> px_path P (op_id a) (op_id op) \<and> px_allowed P a \<and>
           sets_member_key (op_action a) (op_author op)) (px_ops P)))"

definition newly_tainted :: "('o::linorder, 'id, 'r, 'pk, 'sig) pctx \<Rightarrow> 'o list \<Rightarrow> 'o list" where
  "newly_tainted P bad =
     map op_id (filter (\<lambda>op. op_id op \<notin> set bad \<and> px_allowed P op \<and>
         (case registrar P op of None \<Rightarrow> False | Some g \<Rightarrow> g \<in> set bad)) (px_ops P))"

lemma set_hs_extend [simp]: "set (hs_extend xs s) = set s \<union> set xs"
  by (induction xs arbitrary: s) (auto simp: hs_extend_def hs_insert_def)

lemma grow_less:
  assumes "finite U" "x \<in> U" "x \<notin> A" "x \<in> B" "A \<subseteq> B"
  shows "card (U - B) < card (U - A)"
  using assms by (intro psubset_card_mono) auto

lemma newly_tainted_mem:
  "x \<in> set (newly_tainted P bad) \<Longrightarrow> x \<in> set (op_ids (px_ops P)) \<and> x \<notin> set bad"
  by (auto simp: newly_tainted_def op_ids_def)

lemma taint_less:
  assumes "newly_tainted P bad \<noteq> []"
  shows "card (set (op_ids (px_ops P)) - set (hs_extend (newly_tainted P bad) bad)) <
    card (set (op_ids (px_ops P)) - set bad)"
proof -
  obtain x where x: "x \<in> set (newly_tainted P bad)" using assms by (cases "newly_tainted P bad") auto
  show ?thesis
    by (rule grow_less [of _ x]) (use x newly_tainted_mem [OF x] in simp_all)
qed

function propagate_key_taint :: "('o::linorder, 'id, 'r, 'pk, 'sig) pctx \<Rightarrow> 'o list \<Rightarrow> 'o list" where
  "propagate_key_taint P bad =
     (if newly_tainted P bad = [] then bad
      else propagate_key_taint P (hs_extend (newly_tainted P bad) bad))"
  by pat_completeness auto

termination
  by (relation "measure (\<lambda>(P, bad). card (set (op_ids (px_ops P)) - set bad))")
    (use taint_less in \<open>simp_all del: set_hs_extend\<close>)

declare propagate_key_taint.simps [simp del]

subsection \<open>Rules 1 to 4\<close>

text \<open>The events \<open>(depth, is_add)\<close> of an author before the target.\<close>

definition presence_event ::
  "('o, 'id, 'r, 'pk, 'sig) pctx \<Rightarrow> ('o, 'id, 'r, 'pk, 'sig) dag_op \<Rightarrow> 'o list \<Rightarrow>
     ('o, 'id, 'r, 'pk, 'sig) dag_op \<Rightarrow> (nat \<times> bool) option" where
  "presence_event P target bad op =
     (if op_id op = op_id target \<or> op_id op \<in> set bad then None
      else case op_action op of
             Add m _ _ _ _ \<Rightarrow>
               if m = op_author target \<and> px_path P (op_id op) (op_id target)
               then Some (depth_of (px_depth P) (op_id op), True) else None
           | Remove m \<Rightarrow>
               if m = op_author target \<and> px_path P (op_id op) (op_id target)
               then Some (depth_of (px_depth P) (op_id op), False) else None
           | _ \<Rightarrow> None)"

definition author_active_before ::
  "('o, 'id, 'r, 'pk, 'sig) pctx \<Rightarrow> 'id list \<Rightarrow> ('o, 'id, 'r, 'pk, 'sig) dag_op \<Rightarrow> 'o list \<Rightarrow> bool" where
  "author_active_before P genesis target bad =
     (let events = List.map_filter (presence_event P target bad) (px_ops P);
          has_add = list_ex (\<lambda>op. case op_action op of Add m _ _ _ _ \<Rightarrow> m = op_author target | _ \<Rightarrow> False) (px_ops P)
      in foldl (\<lambda>active e. snd e) (op_author target \<in> set genesis \<or> \<not> has_add) (sort_key fst events))"

definition sorted_ids :: "('o::linorder, 'id, 'r, 'pk, 'sig) pctx \<Rightarrow> 'o list" where
  "sorted_ids P = by_depth (px_depth P) (op_ids (px_ops P))"

definition author_is :: "('o, 'id, 'r, 'pk, 'sig) pctx \<Rightarrow> 'o \<Rightarrow> 'id \<Rightarrow> bool" where
  "author_is P i m = (case find_op (px_ops P) i of None \<Rightarrow> False | Some op \<Rightarrow> op_author op = m)"

text \<open>One valid invalidator: a removal voids the member's concurrent ops, a demotion its set.\<close>

definition invalidate ::
  "('o::linorder, 'id, 'r, 'pk, 'sig) pctx \<Rightarrow> 'o \<times> ('o, 'id) invalidator \<Rightarrow> 'o list \<times> bool \<Rightarrow> 'o list \<times> bool" where
  "invalidate P iv st =
     (if fst iv \<in> set (fst st) then st
      else case snd iv of
             InvRemove m \<Rightarrow>
               foldl (\<lambda>st i. if i = fst iv \<or> i \<in> set (fst st) then st
                             else if author_is P i m \<and> px_conc P i (fst iv) then mark i st else st)
                 st (sorted_ids P)
           | InvDemote void \<Rightarrow> foldl (\<lambda>st i. if i \<noteq> fst iv then mark i st else st) st void)"

definition drop_absent ::
  "('o::linorder, 'id, 'r, 'pk, 'sig) pctx \<Rightarrow> 'id list \<Rightarrow> 'o \<Rightarrow> 'o list \<times> bool \<Rightarrow> 'o list \<times> bool" where
  "drop_absent P genesis i st =
     (if i \<in> set (fst st) then st
      else case find_op (px_ops P) i of
             None \<Rightarrow> st
           | Some op \<Rightarrow> if \<not> author_active_before P genesis op (fst st) then mark i st else st)"

definition inner_pass ::
  "('o::linorder, 'id, 'r, 'pk, 'sig) pctx \<Rightarrow> 'id list \<Rightarrow> ('o \<times> ('o, 'id) invalidator) list \<Rightarrow> 'o list \<Rightarrow>
     'o list \<times> bool" where
  "inner_pass P genesis ivs bad =
     foldl (\<lambda>st i. drop_absent P genesis i st) (foldl (\<lambda>st iv. invalidate P iv st) (bad, False) ivs) (sorted_ids P)"

definition suppress_readd ::
  "('o::linorder, 'id, 'r, 'pk, 'sig) pctx \<Rightarrow> ('o \<times> ('o, 'id) invalidator) list \<Rightarrow> 'o \<Rightarrow> 'o list \<times> bool \<Rightarrow>
     'o list \<times> bool" where
  "suppress_readd P ivs a st =
     (if a \<in> set (fst st) then st
      else case find_op (px_ops P) a of
             None \<Rightarrow> st
           | Some op \<Rightarrow>
               (case op_action op of
                  Add member _ _ _ _ \<Rightarrow>
                    if list_ex (\<lambda>(i, v). v = InvRemove member \<and> i \<notin> set (fst st) \<and> px_conc P a i) ivs
                    then mark a st else st
                | _ \<Rightarrow> st))"

definition rule4_pass ::
  "('o::linorder, 'id, 'r, 'pk, 'sig) pctx \<Rightarrow> ('o \<times> ('o, 'id) invalidator) list \<Rightarrow> 'o list \<Rightarrow> 'o list \<times> bool" where
  "rule4_pass P ivs bad = foldl (\<lambda>st a. suppress_readd P ivs a st) (bad, False) (sorted_ids P)"


subsection \<open>Passes only add ops\<close>

definition extends :: "'a set \<Rightarrow> 'a list \<Rightarrow> 'a list \<Rightarrow> bool" where
  "extends U a b \<longleftrightarrow> (\<exists>xs. b = xs @ a \<and> set xs \<subseteq> U \<and> set xs \<inter> set a = {} \<and> distinct xs)"

definition widens :: "'a set \<Rightarrow> 'a list \<times> bool \<Rightarrow> 'a list \<times> bool \<Rightarrow> bool" where
  "widens U st st' \<longleftrightarrow> extends U (fst st) (fst st') \<and> (snd st' \<longleftrightarrow> snd st \<or> fst st' \<noteq> fst st)"

lemma extends_refl [simp]: "extends U a a"
  by (simp add: extends_def)

lemma extends_trans: "extends U a b \<Longrightarrow> extends U b c \<Longrightarrow> extends U a c"
proof -
  assume "extends U a b" "extends U b c"
  then obtain xs ys where "b = xs @ a" "c = ys @ xs @ a" "set xs \<subseteq> U" "set ys \<subseteq> U"
      "set xs \<inter> set a = {}" "set ys \<inter> set b = {}" "distinct xs" "distinct ys"
    by (auto simp: extends_def)
  then show ?thesis unfolding extends_def by (intro exI [of _ "ys @ xs"]) auto
qed

lemma extends_antisym: "extends U a b \<Longrightarrow> extends U b a \<Longrightarrow> a = b"
  by (auto simp: extends_def)

lemma extends_set: "extends U a b \<Longrightarrow> set a \<subseteq> set b \<and> set b \<subseteq> set a \<union> U"
  by (auto simp: extends_def)

lemma extends_length: "extends U a b \<Longrightarrow> length b = length a \<longleftrightarrow> b = a"
  by (auto simp: extends_def)

lemma extends_less:
  assumes "extends U a b" "b \<noteq> a" "finite U"
  shows "card (U - set b) < card (U - set a)"
proof -
  obtain xs where xs: "b = xs @ a" "set xs \<subseteq> U" "set xs \<inter> set a = {}"
    using assms(1) by (auto simp: extends_def)
  then obtain x where "x \<in> set xs" using assms(2) by (cases xs) auto
  then show ?thesis using xs assms(3) by (intro psubset_card_mono) auto
qed

lemma hs_extend_extends: "set xs \<subseteq> U \<Longrightarrow> extends U a (hs_extend xs a)"
proof (induction xs arbitrary: a)
  case (Cons x xs)
  have "extends U a (hs_insert x a)"
    using Cons.prems by (auto simp: hs_insert_def extends_def)
  moreover have "extends U (hs_insert x a) (hs_extend xs (hs_insert x a))" using Cons by simp
  ultimately show ?case by (auto simp: hs_extend_def intro: extends_trans)
qed (simp add: hs_extend_def)

lemma widens_refl [simp]: "widens U st st"
  by (simp add: widens_def)

lemma widens_trans: "widens U a b \<Longrightarrow> widens U b c \<Longrightarrow> widens U a c"
  unfolding widens_def by (metis extends_antisym extends_trans)

lemma mark_widens: "x \<in> U \<Longrightarrow> widens U st (mark x st)"
  by (auto simp: mark_def widens_def extends_def)

lemma foldl_widens:
  "(\<And>x st. x \<in> set xs \<Longrightarrow> widens U st (f st x)) \<Longrightarrow> widens U st (foldl f st xs)"
proof (induction xs arbitrary: st)
  case (Cons x xs)
  then have "widens U st (f st x)" "widens U (f st x) (foldl f (f st x) xs)" by simp_all
  then show ?case by (auto intro: widens_trans)
qed simp

text \<open>A pass that ends where it began did nothing at any step.\<close>

lemma foldl_still:
  assumes "\<And>x st. x \<in> set xs \<Longrightarrow> widens U st (f st x)" "foldl f st xs = st"
  shows "x \<in> set xs \<Longrightarrow> f st x = st"
  using assms
proof (induction xs)
  case (Cons y ys)
  have g: "widens U st (f st y)" "widens U (f st y) (foldl f (f st y) ys)"
    using Cons.prems(2) foldl_widens [of ys U f "f st y"] by simp_all
  have "f st y = st"
  proof -
    have "widens U (f st y) st" using g(2) Cons.prems(3) by simp
    then have "fst (f st y) = fst st" "snd (f st y) = snd st"
      using g(1) unfolding widens_def by (metis extends_antisym)+
    then show ?thesis by (rule prod_eqI)
  qed
  then show ?case using Cons by auto
qed simp

lemma sorted_ids_set [simp]: "set (sorted_ids P) = set (op_ids (px_ops P))"
  by (simp add: sorted_ids_def)

definition universe ::
  "('o, 'id, 'r, 'pk, 'sig) pctx \<Rightarrow> ('o \<times> ('o, 'id) invalidator) list \<Rightarrow> 'o set" where
  "universe P ivs = set (op_ids (px_ops P)) \<union>
     (\<Union>iv \<in> set ivs. case snd iv of InvRemove _ \<Rightarrow> {} | InvDemote void \<Rightarrow> set void)"

lemma finite_universe [simp]: "finite (universe P ivs)"
  by (auto simp: universe_def split: invalidator.splits)

lemma invalidate_widens:
  assumes "iv \<in> set ivs"
  shows "widens (universe P ivs) st (invalidate P iv st)"
proof (cases "snd iv")
  case (InvRemove m)
  have "widens (universe P ivs) st
      (foldl (\<lambda>st i. if i = fst iv \<or> i \<in> set (fst st) then st
         else if author_is P i m \<and> px_conc P i (fst iv) then mark i st else st) st (sorted_ids P))"
    by (rule foldl_widens) (auto simp: universe_def intro: mark_widens)
  then show ?thesis by (simp add: invalidate_def InvRemove)
next
  case (InvDemote void)
  have "widens (universe P ivs) st (foldl (\<lambda>st i. if i \<noteq> fst iv then mark i st else st) st void)"
    by (rule foldl_widens) (use assms InvDemote in \<open>force simp: universe_def intro: mark_widens\<close>)
  then show ?thesis by (simp add: invalidate_def InvDemote)
qed

lemma drop_absent_widens: "i \<in> set (op_ids (px_ops P)) \<Longrightarrow> widens (universe P ivs) st (drop_absent P g i st)"
  by (auto simp: drop_absent_def universe_def intro: mark_widens split: option.splits)

lemma suppress_readd_widens: "i \<in> set (op_ids (px_ops P)) \<Longrightarrow> widens (universe P ivs) st (suppress_readd P ivs i st)"
  by (auto simp: suppress_readd_def universe_def intro: mark_widens split: option.splits action.splits)

lemma invalidate_pass_widens: "widens (universe P ivs) st (foldl (\<lambda>st iv. invalidate P iv st) st ivs)"
  by (rule foldl_widens) (rule invalidate_widens)

lemma drop_pass_widens: "widens (universe P ivs) st (foldl (\<lambda>st i. drop_absent P g i st) st (sorted_ids P))"
  by (rule foldl_widens) (simp add: drop_absent_widens)

lemma inner_pass_widens: "widens (universe P ivs) (bad, False) (inner_pass P g ivs bad)"
  unfolding inner_pass_def by (rule widens_trans [OF invalidate_pass_widens drop_pass_widens])

lemma rule4_pass_widens: "widens (universe P ivs) (bad, False) (rule4_pass P ivs bad)"
  unfolding rule4_pass_def by (rule foldl_widens) (simp add: suppress_readd_widens)

subsection \<open>The fixpoints\<close>

lemma pass_less:
  assumes "widens U (bad, False) (bad', ch)" "ch" "finite U"
  shows "card (U - set bad') < card (U - set bad)"
  using assms extends_less [of U bad bad'] by (auto simp: widens_def)

function inner_loop ::
  "('o::linorder, 'id, 'r, 'pk, 'sig) pctx \<Rightarrow> 'id list \<Rightarrow> ('o \<times> ('o, 'id) invalidator) list \<Rightarrow> 'o list \<Rightarrow> 'o list" where
  "inner_loop P g ivs bad =
     (case inner_pass P g ivs bad of (bad', ch) \<Rightarrow> if ch then inner_loop P g ivs bad' else bad')"
  by pat_completeness auto

termination
proof (relation "measure (\<lambda>(P, g, ivs, bad). card (universe P ivs - set bad))", goal_cases)
  case (2 P g ivs bad bad' ch)
  then show ?case
    using pass_less [of "universe P ivs" bad bad' ch] inner_pass_widens [of P ivs bad g] by simp
qed simp

declare inner_loop.simps [simp del]

lemma inner_loop_facts:
  "extends (universe P ivs) bad (inner_loop P g ivs bad) \<and>
   inner_pass P g ivs (inner_loop P g ivs bad) = (inner_loop P g ivs bad, False)"
proof (induction P g ivs bad rule: inner_loop.induct)
  case (1 P g ivs bad)
  obtain bad' ch where r: "inner_pass P g ivs bad = (bad', ch)" by (cases "inner_pass P g ivs bad")
  have gr: "widens (universe P ivs) (bad, False) (bad', ch)" using inner_pass_widens [of P ivs bad g] r by simp
  show ?case
  proof (cases ch)
    case True
    have "extends (universe P ivs) bad bad'" using gr by (simp add: widens_def)
    then show ?thesis using "1.IH" [OF r [symmetric] True] True
      by (simp add: inner_loop.simps [of P g ivs bad] r) (blast intro: extends_trans)
  next
    case False
    then have "bad' = bad" using gr by (simp add: widens_def)
    then show ?thesis using r False by (simp add: inner_loop.simps [of P g ivs bad])
  qed
qed

function outer_loop ::
  "('o::linorder, 'id, 'r, 'pk, 'sig) pctx \<Rightarrow> 'id list \<Rightarrow> ('o \<times> ('o, 'id) invalidator) list \<Rightarrow> 'o list \<Rightarrow> 'o list" where
  "outer_loop P g ivs bad =
     (case rule4_pass P ivs (inner_loop P g ivs bad) of
        (bad', suppressed) \<Rightarrow> if suppressed then outer_loop P g ivs bad' else bad')"
  by pat_completeness auto

termination
proof (relation "measure (\<lambda>(P, g, ivs, bad). card (universe P ivs - set bad))", goal_cases)
  case (2 P g ivs bad bad' ch)
  let ?b = "inner_loop P g ivs bad"
  have "card (universe P ivs - set bad') < card (universe P ivs - set ?b)"
    using 2 pass_less [of "universe P ivs" ?b bad' ch] rule4_pass_widens [of P ivs ?b] by simp
  also have "\<dots> \<le> card (universe P ivs - set bad)"
    using inner_loop_facts [of P ivs bad g] extends_set [of "universe P ivs" bad ?b]
    by (intro card_mono) auto
  finally show ?case by simp
qed simp

declare outer_loop.simps [simp del]

definition strong_remove_fixpoint ::
  "('o::linorder, 'id, 'r, 'pk, 'sig) pctx \<Rightarrow> 'id list \<Rightarrow> ('o \<times> ('o, 'id) invalidator) list \<Rightarrow> 'o list \<Rightarrow> 'o list" where
  "strong_remove_fixpoint P g ivs bad = outer_loop P g ivs bad"

lemma outer_loop_facts:
  "extends (universe P ivs) bad (outer_loop P g ivs bad) \<and>
   inner_pass P g ivs (outer_loop P g ivs bad) = (outer_loop P g ivs bad, False) \<and>
   rule4_pass P ivs (outer_loop P g ivs bad) = (outer_loop P g ivs bad, False)"
proof (induction P g ivs bad rule: outer_loop.induct)
  case (1 P g ivs bad)
  let ?b = "inner_loop P g ivs bad"
  obtain bad' ch where r: "rule4_pass P ivs ?b = (bad', ch)" by (cases "rule4_pass P ivs ?b")
  have gr: "widens (universe P ivs) (?b, False) (bad', ch)" using rule4_pass_widens [of P ivs ?b] r by simp
  note i = inner_loop_facts [of P ivs bad g]
  show ?case
  proof (cases ch)
    case True
    have "extends (universe P ivs) bad bad'" using gr i by (auto simp: widens_def intro: extends_trans)
    then show ?thesis using "1.IH" [OF r [symmetric] True] True
      by (simp add: outer_loop.simps [of P g ivs bad] r) (blast intro: extends_trans)
  next
    case False
    then have "bad' = ?b" using gr by (simp add: widens_def)
    then show ?thesis using r False i by (simp add: outer_loop.simps [of P g ivs bad])
  qed
qed

lemma taint_facts:
  "extends (set (op_ids (px_ops P))) bad (propagate_key_taint P bad) \<and>
   newly_tainted P (propagate_key_taint P bad) = []"
proof (induction P bad rule: propagate_key_taint.induct)
  case (1 P bad)
  show ?case
  proof (cases "newly_tainted P bad = []")
    case True
    then show ?thesis by (simp add: propagate_key_taint.simps [of P bad])
  next
    case False
    have "extends (set (op_ids (px_ops P))) bad (hs_extend (newly_tainted P bad) bad)"
      by (rule hs_extend_extends) (auto simp: newly_tainted_def op_ids_def)
    then show ?thesis using "1.IH" [OF False] False
      by (simp add: propagate_key_taint.simps [of P bad]) (blast intro: extends_trans)
  qed
qed

lemma extends_mono: "extends U a b \<Longrightarrow> U \<subseteq> V \<Longrightarrow> extends V a b"
  by (auto simp: extends_def)

definition process_pass ::
  "('o::linorder, 'id, 'r, 'pk, 'sig) pctx \<Rightarrow> 'id list \<Rightarrow> ('o \<times> ('o, 'id) invalidator) list \<Rightarrow> 'o list \<Rightarrow> 'o list" where
  "process_pass P g ivs bad = strong_remove_fixpoint P g ivs (propagate_key_taint P bad)"

lemma process_pass_extends: "extends (universe P ivs) bad (process_pass P g ivs bad)"
  unfolding process_pass_def strong_remove_fixpoint_def
  by (rule extends_trans [OF extends_mono [OF taint_facts [THEN conjunct1]] outer_loop_facts [THEN conjunct1]])
    (simp add: universe_def)

function process_loop ::
  "('o::linorder, 'id, 'r, 'pk, 'sig) pctx \<Rightarrow> 'id list \<Rightarrow> ('o \<times> ('o, 'id) invalidator) list \<Rightarrow> 'o list \<Rightarrow> 'o list" where
  "process_loop P g ivs bad =
     (let bad' = process_pass P g ivs bad
      in if length bad' = length bad then bad' else process_loop P g ivs bad')"
  by pat_completeness auto

termination
proof (relation "measure (\<lambda>(P, g, ivs, bad). card (universe P ivs - set bad))", goal_cases)
  case (2 P g ivs bad bad')
  then have "process_pass P g ivs bad \<noteq> bad" by auto
  then show ?case using 2 extends_less [OF process_pass_extends [of P ivs bad g]] by simp
qed simp

declare process_loop.simps [simp del]


subsection \<open>The resolver\<close>

record ('o) resolver_state =
  rs_ignore :: "'o list"
  rs_base :: "('o \<times> nat) list"

definition resolver_default :: "'o resolver_state" where
  "resolver_default = \<lparr>rs_ignore = [], rs_base = []\<rparr>"

definition seed_base :: "('o \<times> nat) list \<Rightarrow> 'o resolver_state \<Rightarrow> 'o resolver_state" where
  "seed_base base st = st\<lparr>rs_base := base\<rparr>"

definition rebuild_required :: "'o list \<Rightarrow> bool" where
  "rebuild_required frontier \<longleftrightarrow> 1 < length frontier"

definition pctx_of :: "('o::linorder, 'id::linorder, 'r, 'pk, 'sig) rctx \<Rightarrow> ('o \<times> nat) list \<Rightarrow>
    ('o, 'id, 'r, 'pk, 'sig) pctx" where
  "pctx_of X base =
     (let D = compute_depths (rx_ops X) base
      in \<lparr>px_x = X, px_depth = D, px_auth = authorized_map X D\<rparr>)"

definition genesis_active :: "('id, 'r, 'pk) group_state \<Rightarrow> 'id list" where
  "genesis_active s = map fst (filter (\<lambda>(i, m). is_active m) (gs_members s))"

definition unauthorized :: "('o, 'id, 'r, 'pk, 'sig) pctx \<Rightarrow> 'o list" where
  "unauthorized P = filter (\<lambda>i. \<not> auth_of (px_auth P) i) (op_ids (px_ops P))"

definition seed_bad :: "('o::linorder, 'id::linorder, 'r, 'pk, 'sig) pctx \<Rightarrow> 'o list" where
  "seed_bad P = hs_extend (reset_merge_carveout P (unauthorized P)) (unauthorized P)"

definition ignored_ops ::
  "('o::linorder, 'id::linorder, 'r, 'pk, 'sig) rctx \<Rightarrow> ('o \<times> nat) list \<Rightarrow> 'o list" where
  "ignored_ops X base =
     (let P = pctx_of X base
      in process_loop P (genesis_active (rx_genesis X)) (invalidators P) (seed_bad P))"

definition process ::
  "('o::linorder, 'id::linorder, 'r, 'pk, 'sig) rctx \<Rightarrow> 'o resolver_state \<Rightarrow> 'o resolver_state" where
  "process X st = st\<lparr>rs_ignore := ignored_ops X (rs_base st)\<rparr>"

lemma process_loop_facts:
  "extends (universe P ivs) bad (process_loop P g ivs bad) \<and>
   newly_tainted P (process_loop P g ivs bad) = [] \<and>
   inner_pass P g ivs (process_loop P g ivs bad) = (process_loop P g ivs bad, False) \<and>
   rule4_pass P ivs (process_loop P g ivs bad) = (process_loop P g ivs bad, False)"
proof (induction P g ivs bad rule: process_loop.induct)
  case (1 P g ivs bad)
  let ?b = "process_pass P g ivs bad" and ?t = "propagate_key_taint P bad"
  have e: "extends (universe P ivs) bad ?b" by (rule process_pass_extends)
  show ?case
  proof (cases "length ?b = length bad")
    case True
    then have b: "?b = bad" using e extends_length by blast
    have "extends (universe P ivs) bad ?t"
      by (rule extends_mono [OF taint_facts [THEN conjunct1]]) (simp add: universe_def)
    moreover have "extends (universe P ivs) ?t ?b"
      using outer_loop_facts [of P ivs ?t g] by (simp add: process_pass_def strong_remove_fixpoint_def)
    ultimately have t: "?t = bad" using b extends_antisym by metis
    have o: "outer_loop P g ivs bad = bad" using b t by (simp add: process_pass_def strong_remove_fixpoint_def)
    show ?thesis using True b taint_facts [of P bad] outer_loop_facts [of P ivs bad g]
      by (simp add: process_loop.simps [of P g ivs bad] Let_def t o)
  next
    case False
    then show ?thesis using "1.IH" [OF refl False] e
      by (simp add: process_loop.simps [of P g ivs bad] Let_def) (blast intro: extends_trans)
  qed
qed

lemma split_still:
  assumes "widens U st st1" "widens U st1 st2" "st2 = st"
  shows "st1 = st"
proof -
  have "fst st1 = fst st" using assms extends_antisym unfolding widens_def by blast
  moreover from this have "snd st1 = snd st" using assms(1) by (simp add: widens_def)
  ultimately show ?thesis by (rule prod_eqI)
qed

text \<open>What a quiet pass establishes, rule by rule.\<close>

lemma inner_still:
  assumes "inner_pass P g ivs bad = (bad, False)"
  shows "iv \<in> set ivs \<Longrightarrow> invalidate P iv (bad, False) = (bad, False)"
    "i \<in> set (op_ids (px_ops P)) \<Longrightarrow> drop_absent P g i (bad, False) = (bad, False)"
proof -
  let ?m = "foldl (\<lambda>st iv. invalidate P iv st) (bad, False) ivs"
  have m: "?m = (bad, False)"
    using split_still [OF invalidate_pass_widens [of P ivs "(bad, False)"] drop_pass_widens [of P ivs ?m g]]
      assms unfolding inner_pass_def by blast
  show "invalidate P iv (bad, False) = (bad, False)" if "iv \<in> set ivs"
    using foldl_still [of ivs "universe P ivs" "\<lambda>st iv. invalidate P iv st", OF invalidate_widens m that] .
  have "foldl (\<lambda>st i. drop_absent P g i st) (bad, False) (sorted_ids P) = (bad, False)"
    using assms m unfolding inner_pass_def by simp
  then show "drop_absent P g i (bad, False) = (bad, False)" if "i \<in> set (op_ids (px_ops P))"
    using foldl_still [of "sorted_ids P" "universe P ivs" "\<lambda>st i. drop_absent P g i st" "(bad, False)" i]
      drop_absent_widens that by (metis sorted_ids_set)
qed

lemma mark_still: "mark x (bad, False) = (bad, False) \<longleftrightarrow> x \<in> set bad"
  by (simp add: mark_def)

lemma remove_closed:
  assumes "invalidate P (i, InvRemove m) (bad, False) = (bad, False)" "i \<notin> set bad"
    "q \<in> set (op_ids (px_ops P))" "author_is P q m" "px_conc P q i"
  shows "q \<in> set bad"
proof -
  let ?f = "\<lambda>st j. if j = i \<or> j \<in> set (fst st) then st
    else if author_is P j m \<and> px_conc P j i then mark j st else st"
  have "foldl ?f (bad, False) (sorted_ids P) = (bad, False)"
    using assms(1,2) unfolding invalidate_def fst_conv snd_conv invalidator.case by (simp only: if_False)
  from foldl_still [of "sorted_ids P" UNIV ?f, OF _ this, of q]
  have "?f (bad, False) q = (bad, False)" using assms(3) by (simp add: mark_widens)
  moreover have "q \<noteq> i" using assms(5) by (auto simp: concurrent_by_def)
  ultimately show ?thesis using assms(4,5) by (auto simp: mark_def split: if_splits)
qed

lemma demote_closed:
  assumes "invalidate P (i, InvDemote void) (bad, False) = (bad, False)" "i \<notin> set bad" "q \<in> set void" "q \<noteq> i"
  shows "q \<in> set bad"
proof -
  let ?f = "\<lambda>st j. if j \<noteq> i then mark j st else st"
  have "foldl ?f (bad, False) void = (bad, False)"
    using assms(1,2) unfolding invalidate_def fst_conv snd_conv invalidator.case by (simp only: if_False)
  from foldl_still [of void UNIV ?f, OF _ this assms(3)]
  have "?f (bad, False) q = (bad, False)" by (simp add: mark_widens)
  then show ?thesis using assms(4) by (auto simp: mark_def split: if_splits)
qed

lemma invalidators_mem:
  "(i, v) \<in> set (invalidators P) \<longleftrightarrow> (\<exists>op \<in> set (px_ops P). op_id op = i \<and> invalidator_of P op = Some v)"
  by (force simp: invalidators_def List.map_filter_def)

lemma demote_void:
  assumes "(i, InvDemote void) \<in> set (invalidators P)"
  shows "set void \<subseteq> set (op_ids (px_ops P))"
proof -
  obtain op where op: "invalidator_of P op = Some (InvDemote void)"
    using assms by (auto simp: invalidators_mem)
  then obtain member nr where "op_action op = ChangeRole member nr"
    by (cases "op_action op") (auto simp: invalidator_of_def split: if_splits)
  then have "void = voidable P (op_id op) member nr"
    using op by (auto simp: invalidator_of_def split: if_splits)
  then show ?thesis by (auto simp: voidable_def op_ids_def)
qed

lemma universe_invalidators: "universe P (invalidators P) = set (op_ids (px_ops P))"
  by (auto simp: universe_def dest: demote_void [THEN subsetD] split: invalidator.splits)

text \<open>The ops a run keeps, and what the fixpoint it ends in establishes of them.\<close>

definition kept :: "('o::linorder, 'id::linorder, 'r, 'pk, 'sig) rctx \<Rightarrow> ('o \<times> nat) list \<Rightarrow>
    ('o, 'id, 'r, 'pk, 'sig) dag_op set" where
  "kept X base = {op \<in> set (rx_ops X). op_id op \<notin> set (ignored_ops X base)}"

lemma pctx_of_simps [simp]:
  "px_x (pctx_of X base) = X" "px_depth (pctx_of X base) = compute_depths (rx_ops X) base"
  "px_auth (pctx_of X base) = authorized_map X (compute_depths (rx_ops X) base)"
  by (simp_all add: pctx_of_def Let_def)

lemma ignored_fixpoint:
  fixes X :: "('o::linorder, 'id::linorder, 'r, 'pk, 'sig) rctx"
  defines "P \<equiv> \<lambda>base. pctx_of X base"
  shows "extends (set (op_ids (rx_ops X))) (seed_bad (P base)) (ignored_ops X base)"
    "newly_tainted (P base) (ignored_ops X base) = []"
    "inner_pass (P base) (genesis_active (rx_genesis X)) (invalidators (P base)) (ignored_ops X base) =
      (ignored_ops X base, False)"
    "rule4_pass (P base) (invalidators (P base)) (ignored_ops X base) = (ignored_ops X base, False)"
  using process_loop_facts [of "P base" "invalidators (P base)" "seed_bad (P base)" "genesis_active (rx_genesis X)"]
  unfolding ignored_ops_def Let_def P_def universe_invalidators pctx_of_simps by blast+

lemma seed_bad_ids: "set (seed_bad P) \<subseteq> set (op_ids (px_ops P))"
proof -
  have "set (reset_merge_carveout P b) \<subseteq> set (op_ids (px_ops P))" for b
    by (auto simp: reset_merge_carveout_def superseded_refounds_def op_ids_def split: option.splits)
  then show ?thesis by (auto simp: seed_bad_def unauthorized_def)
qed

lemma ignored_ids: "set (ignored_ops X base) \<subseteq> set (op_ids (rx_ops X))"
  using extends_set [OF ignored_fixpoint(1) [where X = X and base = base]] seed_bad_ids [of "pctx_of X base"]
  by auto

lemma kept_find: "causal X \<Longrightarrow> op \<in> kept X base \<Longrightarrow> find_op (rx_ops X) (op_id op) = Some op"
  by (simp add: kept_def causal_def find_op_in)

lemma kept_allowed:
  assumes "op \<in> kept X base"
  shows "px_allowed (pctx_of X base) op"
proof (rule ccontr)
  assume "\<not> px_allowed (pctx_of X base) op"
  then have "op_id op \<in> set (seed_bad (pctx_of X base))"
    using assms by (auto simp: unauthorized_def seed_bad_def op_ids_def kept_def)
  then show False
    using extends_set [OF ignored_fixpoint(1) [where X = X and base = base]] assms by (auto simp: kept_def)
qed

lemma kept_present:
  assumes "causal X" "op \<in> kept X base"
  shows "author_active_before (pctx_of X base) (genesis_active (rx_genesis X)) op (ignored_ops X base)"
proof -
  have "drop_absent (pctx_of X base) (genesis_active (rx_genesis X)) (op_id op) (ignored_ops X base, False) =
      (ignored_ops X base, False)"
    by (rule inner_still(2) [OF ignored_fixpoint(3)]) (use assms(2) in \<open>simp add: op_ids_def kept_def\<close>)
  then show ?thesis
    using kept_find [OF assms] assms(2) by (auto simp: drop_absent_def mark_def kept_def split: if_splits)
qed

lemma kept_not_removed:
  assumes "causal X" "q \<in> kept X base" "r \<in> kept X base" "op_action r = Remove (op_author q)"
  shows "\<not> concurrent_by (rx_path X) (op_id q) (op_id r)"
proof
  let ?P = "pctx_of X base"
  assume c: "concurrent_by (rx_path X) (op_id q) (op_id r)"
  have "(op_id r, InvRemove (op_author q)) \<in> set (invalidators ?P)"
    using assms(3,4) kept_allowed [OF assms(3)] by (auto simp: invalidators_mem invalidator_of_def kept_def)
  then have "invalidate ?P (op_id r, InvRemove (op_author q)) (ignored_ops X base, False) = (ignored_ops X base, False)"
    by (rule inner_still(1) [OF ignored_fixpoint(3)])
  moreover have "author_is ?P (op_id q) (op_author q)" by (simp add: author_is_def kept_find [OF assms(1,2)])
  ultimately have "op_id q \<in> set (ignored_ops X base)"
    using remove_closed [of ?P "op_id r" "op_author q" _ "op_id q"] c assms(2,3) by (auto simp: kept_def op_ids_def)
  then show False using assms(2) by (simp add: kept_def)
qed

lemma kept_not_demoted:
  assumes "q \<in> kept X base" "d \<in> kept X base" "op_action d = ChangeRole (op_author q) nr"
  shows "op_id q \<notin> set (voidable (pctx_of X base) (op_id d) (op_author q) nr)"
proof
  let ?P = "pctx_of X base"
  assume v: "op_id q \<in> set (voidable ?P (op_id d) (op_author q) nr)"
  then have ne: "voidable ?P (op_id d) (op_author q) nr \<noteq> []" by auto
  have "op_id q \<noteq> op_id d" using v by (auto simp: voidable_def concurrent_by_def)
  moreover have "(op_id d, InvDemote (voidable ?P (op_id d) (op_author q) nr)) \<in> set (invalidators ?P)"
    using assms(2,3) kept_allowed [OF assms(2)] ne by (auto simp: invalidators_mem invalidator_of_def kept_def)
  then have "invalidate ?P (op_id d, InvDemote (voidable ?P (op_id d) (op_author q) nr)) (ignored_ops X base, False) =
      (ignored_ops X base, False)"
    by (rule inner_still(1) [OF ignored_fixpoint(3)])
  ultimately have "op_id q \<in> set (ignored_ops X base)"
    using demote_closed v assms(2) by (fastforce simp: kept_def)
  then show False using assms(1) by (simp add: kept_def)
qed

lemma kept_not_readded:
  assumes "causal X" "a \<in> kept X base" "r \<in> kept X base" "op_action a = Add m nr k h pr" "op_action r = Remove m"
  shows "\<not> concurrent_by (rx_path X) (op_id a) (op_id r)"
proof
  let ?P = "pctx_of X base" and ?bad = "ignored_ops X base"
  assume c: "concurrent_by (rx_path X) (op_id a) (op_id r)"
  have a: "op_id a \<in> set (op_ids (px_ops ?P))" using assms(2) by (simp add: kept_def op_ids_def)
  have "suppress_readd ?P (invalidators ?P) (op_id a) (?bad, False) = (?bad, False)"
    using foldl_still [of "sorted_ids ?P" "universe ?P (invalidators ?P)"
        "\<lambda>st a. suppress_readd ?P (invalidators ?P) a st" "(?bad, False)" "op_id a"]
      ignored_fixpoint(4) [where X = X and base = base] suppress_readd_widens a
    unfolding rule4_pass_def by (metis sorted_ids_set)
  moreover have "(op_id r, InvRemove m) \<in> set (invalidators ?P)"
    using assms(3,5) kept_allowed [OF assms(3)] by (auto simp: invalidators_mem invalidator_of_def kept_def)
  then have "list_ex (\<lambda>(i, v). v = InvRemove m \<and> i \<notin> set ?bad \<and> px_conc ?P (op_id a) i) (invalidators ?P)"
    using c assms(3) by (force simp: list_ex_iff kept_def)
  ultimately have "op_id a \<in> set ?bad"
    using assms(4) kept_find [OF assms(1,2)] by (auto simp: suppress_readd_def mark_def split: if_splits)
  then show False using assms(2) by (simp add: kept_def)
qed

lemma kept_key_kept:
  assumes "op \<in> kept X base" "registrar (pctx_of X base) op = Some g"
  shows "g \<notin> set (ignored_ops X base)"
proof
  assume "g \<in> set (ignored_ops X base)"
  then have "op_id op \<in> set (newly_tainted (pctx_of X base) (ignored_ops X base))"
    using assms kept_allowed [OF assms(1)] by (auto simp: newly_tainted_def kept_def)
  then show False using ignored_fixpoint(2) [where X = X and base = base] by simp
qed

text \<open>C28: the resolver reaches a fixpoint that means what its rules say.  Of the ops it keeps,
  each was authorized at its causal position and its author is present there; no op of a
  removed member survives concurrently with the removal, none that a surviving demotion
  voids, no re-add survives concurrently with a surviving removal of the same member, and no
  kept op rests on a key registration that was itself voided.\<close>

theorem resolution_sound:
  assumes "causal X"
  shows "set (ignored_ops X base) \<subseteq> set (op_ids (rx_ops X)) \<and>
    (\<forall>op. op \<in> kept X base \<longrightarrow> op_authorized_at_position X base (op_id op) = Some True) \<and>
    (\<forall>op. op \<in> kept X base \<longrightarrow>
       author_active_before (pctx_of X base) (genesis_active (rx_genesis X)) op (ignored_ops X base)) \<and>
    (\<forall>q r. q \<in> kept X base \<longrightarrow> r \<in> kept X base \<longrightarrow> op_action r = Remove (op_author q) \<longrightarrow>
       \<not> concurrent_by (rx_path X) (op_id q) (op_id r)) \<and>
    (\<forall>q d nr. q \<in> kept X base \<longrightarrow> d \<in> kept X base \<longrightarrow> op_action d = ChangeRole (op_author q) nr \<longrightarrow>
       op_id q \<notin> set (voidable (pctx_of X base) (op_id d) (op_author q) nr)) \<and>
    (\<forall>a r m nr k h pr. a \<in> kept X base \<longrightarrow> r \<in> kept X base \<longrightarrow>
       op_action a = Add m nr k h pr \<longrightarrow> op_action r = Remove m \<longrightarrow>
       \<not> concurrent_by (rx_path X) (op_id a) (op_id r)) \<and>
    (\<forall>op g. op \<in> kept X base \<longrightarrow> registrar (pctx_of X base) op = Some g \<longrightarrow> g \<notin> set (ignored_ops X base))"
proof -
  have auth: "op_authorized_at_position X base (op_id op) = Some True" if "op \<in> kept X base" for op
    using position_decided [OF assms, of op base] kept_allowed [OF that] that by (simp add: kept_def)
  show ?thesis
    by (intro conjI allI impI)
      (rule ignored_ids | erule auth | erule kept_present [OF assms] | erule (2) kept_not_removed [OF assms]
        | erule (2) kept_not_demoted | erule (3) kept_not_readded [OF assms] | erule (1) kept_key_kept)+
qed

end
