(* ===== verification/Dag_Passes.thy ===== *)
theory Dag_Passes
  imports Dag_Resolver
begin

text \<open>
  The tripwire of \<open>packages/keyeo-dag/src/dag/strong_remove.rs\<close>: every fixpoint loop counts its
  passes and asserts a bound.  The counters are the loops of \<open>Dag_Resolver\<close> with the set dropped
  and the count kept.
\<close>

definition assert_fixpoint_progress :: "nat \<Rightarrow> nat \<Rightarrow> bool" where
  "assert_fixpoint_progress passes op_count \<longleftrightarrow> passes \<le> 4 * op_count + 16"

function inner_passes ::
  "('o::linorder, 'id, 'r, 'pk, 'sig) pctx \<Rightarrow> 'id list \<Rightarrow> ('o \<times> ('o, 'id) invalidator) list \<Rightarrow> 'o list \<Rightarrow> nat" where
  "inner_passes P g ivs bad =
     (case inner_pass P g ivs bad of (bad', ch) \<Rightarrow> Suc (if ch then inner_passes P g ivs bad' else 0))"
  by pat_completeness auto

termination
proof (relation "measure (\<lambda>(P, g, ivs, bad). card (universe P ivs - set bad))", goal_cases)
  case (2 P g ivs bad bad' ch)
  then show ?case
    using pass_less [of "universe P ivs" bad bad' ch] inner_pass_widens [of P ivs bad g] by simp
qed simp

declare inner_passes.simps [simp del]

lemma outer_less:
  assumes "rule4_pass P ivs (inner_loop P g ivs bad) = (bad', ch)" "ch"
  shows "card (universe P ivs - set bad') < card (universe P ivs - set bad)"
proof -
  let ?b = "inner_loop P g ivs bad"
  have "card (universe P ivs - set bad') < card (universe P ivs - set ?b)"
    using assms pass_less [of "universe P ivs" ?b bad' ch] rule4_pass_widens [of P ivs ?b] by simp
  also have "\<dots> \<le> card (universe P ivs - set bad)"
    using inner_loop_facts [of P ivs bad g] extends_set [of "universe P ivs" bad ?b]
    by (intro card_mono) auto
  finally show ?thesis .
qed

function outer_passes ::
  "('o::linorder, 'id, 'r, 'pk, 'sig) pctx \<Rightarrow> 'id list \<Rightarrow> ('o \<times> ('o, 'id) invalidator) list \<Rightarrow> 'o list \<Rightarrow> nat" where
  "outer_passes P g ivs bad =
     (case rule4_pass P ivs (inner_loop P g ivs bad) of
        (bad', suppressed) \<Rightarrow> Suc (if suppressed then outer_passes P g ivs bad' else 0))"
  by pat_completeness auto

termination
proof (relation "measure (\<lambda>(P, g, ivs, bad). card (universe P ivs - set bad))", goal_cases)
  case (2 P g ivs bad bad' ch)
  then show ?case using outer_less [of P ivs g bad bad' ch] by simp
qed simp

declare outer_passes.simps [simp del]

function taint_passes :: "('o::linorder, 'id, 'r, 'pk, 'sig) pctx \<Rightarrow> 'o list \<Rightarrow> nat" where
  "taint_passes P bad =
     Suc (if newly_tainted P bad = [] then 0 else taint_passes P (hs_extend (newly_tainted P bad) bad))"
  by pat_completeness auto

termination
  by (relation "measure (\<lambda>(P, bad). card (set (op_ids (px_ops P)) - set bad))") (use taint_less in \<open>simp_all del: set_hs_extend\<close>)

declare taint_passes.simps [simp del]

function process_passes ::
  "('o::linorder, 'id, 'r, 'pk, 'sig) pctx \<Rightarrow> 'id list \<Rightarrow> ('o \<times> ('o, 'id) invalidator) list \<Rightarrow> 'o list \<Rightarrow> nat" where
  "process_passes P g ivs bad =
     (let bad' = process_pass P g ivs bad
      in Suc (if length bad' = length bad then 0 else process_passes P g ivs bad'))"
  by pat_completeness auto

termination
proof (relation "measure (\<lambda>(P, g, ivs, bad). card (universe P ivs - set bad))", goal_cases)
  case (2 P g ivs bad bad')
  then have "process_pass P g ivs bad \<noteq> bad" by auto
  then show ?case using 2 extends_less [OF process_pass_extends [of P ivs bad g]] by simp
qed simp

declare process_passes.simps [simp del]

lemma inner_passes_le: "inner_passes P g ivs bad \<le> Suc (card (universe P ivs - set bad))"
proof (induction P g ivs bad rule: inner_passes.induct)
  case (1 P g ivs bad)
  obtain bad' ch where r: "inner_pass P g ivs bad = (bad', ch)" by (cases "inner_pass P g ivs bad")
  show ?case
  proof (cases ch)
    case True
    then show ?thesis
      using "1.IH" [OF r [symmetric] True] pass_less [of "universe P ivs" bad bad' ch] inner_pass_widens [of P ivs bad g] r
      by (simp add: inner_passes.simps [of P g ivs bad])
  qed (simp add: r inner_passes.simps [of P g ivs bad])
qed

lemma outer_passes_le: "outer_passes P g ivs bad \<le> Suc (card (universe P ivs - set bad))"
proof (induction P g ivs bad rule: outer_passes.induct)
  case (1 P g ivs bad)
  obtain bad' ch where r: "rule4_pass P ivs (inner_loop P g ivs bad) = (bad', ch)"
    by (cases "rule4_pass P ivs (inner_loop P g ivs bad)")
  show ?case
  proof (cases ch)
    case True
    then show ?thesis using "1.IH" [OF r [symmetric] True] outer_less [OF r True] r
      by (simp add: outer_passes.simps [of P g ivs bad])
  qed (simp add: r outer_passes.simps [of P g ivs bad])
qed

lemma taint_passes_le: "taint_passes P bad \<le> Suc (card (set (op_ids (px_ops P)) - set bad))"
proof (induction P bad rule: taint_passes.induct)
  case (1 P bad)
  show ?case
  proof (cases "newly_tainted P bad = []")
    case False
    then show ?thesis using "1.IH" [OF False] taint_less [OF False]
      by (simp add: taint_passes.simps [of P bad] del: set_hs_extend)
  qed (simp add: taint_passes.simps [of P bad])
qed

lemma process_passes_le: "process_passes P g ivs bad \<le> Suc (card (universe P ivs - set bad))"
proof (induction P g ivs bad rule: process_passes.induct)
  case (1 P g ivs bad)
  show ?case
  proof (cases "length (process_pass P g ivs bad) = length bad")
    case False
    then have "process_pass P g ivs bad \<noteq> bad" by auto
    then show ?thesis
      using "1.IH" [OF refl False] extends_less [OF process_pass_extends [of P ivs bad g]] False
      by (simp add: process_passes.simps [of P g ivs bad] Let_def)
  qed (simp add: process_passes.simps [of P g ivs bad] Let_def)
qed

text \<open>C30: the four fixpoint loops of the resolver stop within one pass more than there are ops, so
  the assertion at their heads never fires, whatever the op set.\<close>

theorem passes_bounded:
  "inner_passes P g (invalidators P) bad \<le> Suc (length (px_ops P)) \<and>
   outer_passes P g (invalidators P) bad \<le> Suc (length (px_ops P)) \<and>
   taint_passes P bad \<le> Suc (length (px_ops P)) \<and>
   process_passes P g (invalidators P) bad \<le> Suc (length (px_ops P)) \<and>
   assert_fixpoint_progress (process_passes P g (invalidators P) bad) (length (px_ops P)) \<and>
   assert_fixpoint_progress (inner_passes P g (invalidators P) bad) (length (px_ops P))"
proof -
  have "card (set (op_ids (px_ops P)) - set bad) \<le> card (set (op_ids (px_ops P)))"
    by (rule card_mono) auto
  also have "\<dots> \<le> length (px_ops P)" using card_length [of "op_ids (px_ops P)"] by (simp add: op_ids_def)
  finally have c: "card (set (op_ids (px_ops P)) - set bad) \<le> length (px_ops P)" .
  show ?thesis
    using inner_passes_le [of P g "invalidators P" bad] outer_passes_le [of P g "invalidators P" bad]
      taint_passes_le [of P bad] process_passes_le [of P g "invalidators P" bad] c
    unfolding universe_invalidators assert_fixpoint_progress_def by linarith
qed

end
