(* ===== verification/Dag_Convergence.thy ===== *)
theory Dag_Convergence
  imports Dag_Resolver
begin

text \<open>
  Order independence of the strong-remove resolver: how far the ignore set depends on the order
  in which the \<open>HashMap\<close> of ops is iterated.  It does not, unless a member's presence is decided
  by an \<open>Add\<close> and a \<open>Remove\<close> at one depth: \<open>untied\<close> excludes that, and without it the
  resolver is not a function of the op set.
\<close>

subsection \<open>Presence without ties\<close>

lemma map_filter_mem: "y \<in> set (List.map_filter f xs) \<longleftrightarrow> (\<exists>x \<in> set xs. f x = Some y)"
  by (force simp: List.map_filter_def)

lemma foldl_last: "foldl (\<lambda>active e. snd e) b es = (if es = [] then b else snd (last es))"
  for es :: "(nat \<times> bool) list"
  by (induction es arbitrary: b) auto

lemma last_sort:
  assumes "es \<noteq> []"
  shows "last (sort_key f es) \<in> set es" "x \<in> set es \<Longrightarrow> f x \<le> f (last (sort_key f es))"
proof -
  let ?s = "sort_key f es"
  have ne: "?s \<noteq> []" using assms by (metis length_sort length_0_conv)
  then show "last ?s \<in> set es" using last_in_set [of ?s] by simp
  have s: "?s = butlast ?s @ [last ?s]" using ne by simp
  have "sorted (map f (butlast ?s @ [last ?s]))" unfolding s [symmetric] by (rule sorted_sort_key)
  moreover have "x \<in> set (butlast ?s @ [last ?s])" if "x \<in> set es"
    unfolding s [symmetric] using that by simp
  ultimately show "x \<in> set es \<Longrightarrow> f x \<le> f (last ?s)" by (auto simp: sorted_append)
qed

lemma fold_events_same:
  fixes es fs :: "(nat \<times> bool) list"
  assumes "set es = set fs" "\<And>x y. x \<in> set es \<Longrightarrow> y \<in> set es \<Longrightarrow> fst x = fst y \<Longrightarrow> snd x = snd y"
  shows "foldl (\<lambda>active e. snd e) b (sort_key fst es) = foldl (\<lambda>active e. snd e) b (sort_key fst fs)"
proof (cases "es = []")
  case False
  then have nf: "fs \<noteq> []" using assms(1) by auto
  note e = last_sort [OF False, where f = fst] and f = last_sort [OF nf, where f = fst]
  have m: "last (sort_key fst es) \<in> set fs" "last (sort_key fst fs) \<in> set es"
    using e(1) f(1) assms(1) by simp_all
  have "fst (last (sort_key fst es)) = fst (last (sort_key fst fs))"
    using f(2) [OF m(1)] e(2) [OF m(2)] by (rule order_antisym)
  from assms(2) [OF e(1) m(2) this]
  have "snd (last (sort_key fst es)) = snd (last (sort_key fst fs))" .
  moreover have "sort_key fst es \<noteq> []" "sort_key fst fs \<noteq> []"
    using False nf by (metis length_sort length_0_conv)+
  ultimately show ?thesis by (simp add: foldl_last)
qed (use assms(1) in simp)

definition untied :: "('o::linorder, 'id, 'r, 'pk, 'sig) rctx \<Rightarrow> ('o \<times> nat) list \<Rightarrow> bool" where
  "untied X base \<longleftrightarrow>
     (\<forall>a r t m nr k h pr. a \<in> set (rx_ops X) \<longrightarrow> r \<in> set (rx_ops X) \<longrightarrow> t \<in> set (rx_ops X) \<longrightarrow>
        op_action a = Add m nr k h pr \<longrightarrow> op_action r = Remove m \<longrightarrow> op_author t = m \<longrightarrow>
        rx_path X (op_id a) (op_id t) \<longrightarrow> rx_path X (op_id r) (op_id t) \<longrightarrow>
        depth_of (compute_depths (rx_ops X) base) (op_id a) \<noteq> depth_of (compute_depths (rx_ops X) base) (op_id r))"

subsection \<open>Two iteration orders of one op set\<close>

text \<open>Contexts that differ only in the order of the op list; ignore sets are compared as sets.\<close>

definition ctx_sim ::
  "('o::linorder, 'id::linorder, 'r, 'pk, 'sig) pctx \<Rightarrow> ('o, 'id, 'r, 'pk, 'sig) pctx \<Rightarrow> bool" where
  "ctx_sim P Q \<longleftrightarrow>
     mset (px_ops Q) = mset (px_ops P) \<and> distinct (op_ids (px_ops P)) \<and> px_path Q = px_path P \<and>
     rx_ac (px_x Q) = rx_ac (px_x P) \<and> rx_genesis (px_x Q) = rx_genesis (px_x P) \<and>
     find_op (px_ops Q) = find_op (px_ops P) \<and> auth_of (px_auth Q) = auth_of (px_auth P) \<and>
     (\<forall>i. px_before Q i = px_before P i) \<and>
     (\<forall>i \<in> set (op_ids (px_ops P)). depth_of (px_depth Q) i = depth_of (px_depth P) i) \<and>
     (\<forall>x y t bad. t \<in> set (px_ops P) \<longrightarrow> x \<in> set (List.map_filter (presence_event P t bad) (px_ops P)) \<longrightarrow>
        y \<in> set (List.map_filter (presence_event P t bad) (px_ops P)) \<longrightarrow> fst x = fst y \<longrightarrow> snd x = snd y)"

lemma ctx_sim_intro:
  assumes "same_dag X Y" "causal X" "untied X base"
  shows "ctx_sim (pctx_of X base) (pctx_of Y base)"
proof -
  let ?P = "pctx_of X base"
  have P: "px_ops ?P = rx_ops X" "px_path ?P = rx_path X" "px_depth ?P = compute_depths (rx_ops X) base"
    by (simp_all add: pctx_of_def Let_def)
  have tie: "snd x = snd y"
    if t: "t \<in> set (rx_ops X)" and x: "x \<in> set (List.map_filter (presence_event ?P t bad) (rx_ops X))"
      and y: "y \<in> set (List.map_filter (presence_event ?P t bad) (rx_ops X))" and eq: "fst x = fst y" for x y t bad
  proof -
    obtain a b where a: "a \<in> set (rx_ops X)" "presence_event ?P t bad a = Some x"
      and b: "b \<in> set (rx_ops X)" "presence_event ?P t bad b = Some y"
      using x y unfolding map_filter_mem by blast
    have cases: "(\<exists>nr k h pr. op_action c = Add (op_author t) nr k h pr \<and> snd z) \<or>
        (op_action c = Remove (op_author t) \<and> \<not> snd z)"
      "rx_path X (op_id c) (op_id t)" "fst z = depth_of (compute_depths (rx_ops X) base) (op_id c)"
      if "presence_event ?P t bad c = Some z" for c z
      using that by (auto simp: presence_event_def P split: if_splits action.splits)
    have clash: False if "c \<in> set (rx_ops X)" "d \<in> set (rx_ops X)" "op_action c = Add (op_author t) nr k h pr"
        "op_action d = Remove (op_author t)" "rx_path X (op_id c) (op_id t)" "rx_path X (op_id d) (op_id t)"
        "depth_of (compute_depths (rx_ops X) base) (op_id c) = depth_of (compute_depths (rx_ops X) base) (op_id d)"
      for c d nr k h pr
      using assms(3) that t unfolding untied_def by blast
    note ca = cases [OF a(2)] and cb = cases [OF b(2)]
    have d: "depth_of (compute_depths (rx_ops X) base) (op_id a) = depth_of (compute_depths (rx_ops X) base) (op_id b)"
      using ca(3) cb(3) eq by simp
    show ?thesis
    proof (rule ccontr)
      assume ne: "snd x \<noteq> snd y"
      show False
      proof (cases "snd x")
        case True
        then show False using ca(1) cb(1) ne clash [OF a(1) b(1) _ _ ca(2) cb(2) d] by blast
      next
        case False
        then show False using ca(1) cb(1) ne clash [OF b(1) a(1) _ _ cb(2) ca(2) d [symmetric]] by blast
      qed
    qed
  qed
  have g: "mset (rx_ops Y) = mset (rx_ops X)" "rx_path Y = rx_path X" "rx_ac Y = rx_ac X" "rx_genesis Y = rx_genesis X"
    using assms(1) by (simp_all add: same_dag_def)
  have d: "distinct (op_ids (rx_ops X))" using assms(2) by (simp add: causal_def)
  have a: "auth_of (px_auth (pctx_of Y base)) = auth_of (px_auth ?P)"
    using same_auth [OF assms(1,2)] by (auto simp: pctx_of_def Let_def)
  have b: "px_before (pctx_of Y base) i = px_before ?P i" for i
    using same_resolved_before [OF assms(1,2), of base i] by (simp add: pctx_of_def Let_def)
  have e: "depth_of (px_depth (pctx_of Y base)) i = depth_of (px_depth ?P) i" if "i \<in> set (op_ids (px_ops ?P))" for i
    using same_depth [OF assms(1,2)] that by (simp add: pctx_of_def Let_def)
  have Q: "px_x (pctx_of Y base) = Y" "px_x ?P = X" by (simp_all add: pctx_of_def Let_def)
  note f = same_find_op [OF assms(1,2), symmetric]
  have b': "\<forall>i. px_before (pctx_of Y base) i = px_before ?P i" using b by blast
  have e': "\<forall>i \<in> set (op_ids (px_ops ?P)). depth_of (px_depth (pctx_of Y base)) i = depth_of (px_depth ?P) i"
    using e by blast
  have t': "\<forall>x y t bad. t \<in> set (rx_ops X) \<longrightarrow> x \<in> set (List.map_filter (presence_event ?P t bad) (rx_ops X)) \<longrightarrow>
      y \<in> set (List.map_filter (presence_event ?P t bad) (rx_ops X)) \<longrightarrow> fst x = fst y \<longrightarrow> snd x = snd y"
    by (intro allI impI) (erule (3) tie)
  show ?thesis
    using g d a f b' e' t' unfolding ctx_sim_def Q by (intro conjI)
qed

lemma sim_simps:
  assumes "ctx_sim P Q"
  shows "px_path Q = px_path P" "rx_ac (px_x Q) = rx_ac (px_x P)" "find_op (px_ops Q) = find_op (px_ops P)"
    "set (px_ops Q) = set (px_ops P)" "set (op_ids (px_ops Q)) = set (op_ids (px_ops P))"
    "auth_of (px_auth Q) = auth_of (px_auth P)" "px_before Q i = px_before P i"
    "mset (px_ops Q) = mset (px_ops P)" "author_is Q = author_is P"
  using assms mset_eq_setD [of "px_ops Q" "px_ops P"]
  by (auto simp: ctx_sim_def op_ids_def author_is_def fun_eq_iff)

lemma sim_depth:
  "ctx_sim P Q \<Longrightarrow> i \<in> set (op_ids (px_ops P)) \<Longrightarrow> depth_of (px_depth Q) i = depth_of (px_depth P) i"
  by (simp add: ctx_sim_def)

lemma sim_sorted:
  assumes "ctx_sim P Q"
  shows "sorted_ids Q = sorted_ids P"
  unfolding sorted_ids_def
  by (rule by_depth_perm) (simp_all add: op_ids_def sim_simps [OF assms] sim_depth [OF assms])

lemma sim_max:
  assumes "ctx_sim P Q" "\<And>op. op \<in> set (px_ops P) \<Longrightarrow> f op = f' op"
  shows "max_by_depth (px_depth Q) (map op_id (filter f (px_ops Q))) =
    max_by_depth (px_depth P) (map op_id (filter f' (px_ops P)))"
proof -
  have "filter_mset f (mset (px_ops P)) = filter_mset f' (mset (px_ops P))"
    using assms(2) by (intro filter_mset_cong) auto
  then have m: "mset (map op_id (filter f (px_ops Q))) = mset (map op_id (filter f' (px_ops P)))"
    by (simp add: sim_simps [OF assms(1)])
  have "by_depth (px_depth Q) (map op_id (filter f (px_ops Q))) =
      by_depth (px_depth P) (map op_id (filter f' (px_ops P)))"
    by (rule by_depth_perm [OF m]) (auto simp: op_ids_def sim_depth [OF assms(1)] sim_simps [OF assms(1)])
  then show ?thesis by (simp add: max_by_depth_def)
qed

lemma sim_registrar:
  assumes "ctx_sim P Q"
  shows "registrar Q op = registrar P op"
  unfolding registrar_def by (rule sim_max [OF assms]) (simp add: sim_simps [OF assms])

lemma sim_tainted:
  assumes "ctx_sim P Q" "set b = set c"
  shows "set (newly_tainted Q b) = set (newly_tainted P c)"
proof -
  have "(case r of None \<Rightarrow> False | Some g \<Rightarrow> g \<in> set b) = (case r of None \<Rightarrow> False | Some g \<Rightarrow> g \<in> set c)" for r
    using assms(2) by (cases r) simp_all
  then show ?thesis
    using assms(2) by (simp add: newly_tainted_def sim_simps [OF assms(1)] sim_registrar [OF assms(1)])
qed

lemma sim_tie:
  assumes "ctx_sim P Q" "t \<in> set (px_ops P)" "x \<in> set (List.map_filter (presence_event P t bad) (px_ops P))"
    "y \<in> set (List.map_filter (presence_event P t bad) (px_ops P))" "fst x = fst y"
  shows "snd x = snd y"
proof -
  have "\<forall>x y t bad. t \<in> set (px_ops P) \<longrightarrow> x \<in> set (List.map_filter (presence_event P t bad) (px_ops P)) \<longrightarrow>
      y \<in> set (List.map_filter (presence_event P t bad) (px_ops P)) \<longrightarrow> fst x = fst y \<longrightarrow> snd x = snd y"
    using assms(1) unfolding ctx_sim_def by (elim conjE)
  from this [rule_format, OF assms(2-5)] show ?thesis .
qed

lemma sim_active:
  assumes "ctx_sim P Q" "set b = set c" "t \<in> set (px_ops P)"
  shows "author_active_before Q g t b = author_active_before P g t c"
proof -
  have ev: "presence_event Q t b op = presence_event P t c op" if "op \<in> set (px_ops P)" for op
    using that assms(2) sim_depth [OF assms(1), of "op_id op"]
    by (simp add: presence_event_def sim_simps [OF assms(1)] op_ids_def split: action.splits)
  let ?es = "List.map_filter (presence_event Q t b) (px_ops Q)" and ?fs = "List.map_filter (presence_event P t c) (px_ops P)"
  have set: "set ?es = set ?fs"
    using ev by (auto simp: map_filter_mem sim_simps [OF assms(1)])
  have tie: "snd x = snd y" if "x \<in> set ?es" "y \<in> set ?es" "fst x = fst y" for x y
    by (rule sim_tie [OF assms(1,3)]) (use that set in simp_all)
  have has: "list_ex p (px_ops Q) = list_ex p (px_ops P)" for p
    by (simp add: list_ex_iff sim_simps [OF assms(1)])
  show ?thesis unfolding author_active_before_def Let_def has
    by (rule fold_events_same [OF set tie])
qed


subsection \<open>The same rules fire\<close>

fun inv_sim :: "'o \<times> ('o, 'id) invalidator \<Rightarrow> 'o \<times> ('o, 'id) invalidator \<Rightarrow> bool" where
  "inv_sim (i, InvRemove m) (j, InvRemove n) \<longleftrightarrow> i = j \<and> m = n"
| "inv_sim (i, InvDemote u) (j, InvDemote v) \<longleftrightarrow> i = j \<and> set u = set v"
| "inv_sim _ _ \<longleftrightarrow> False"

lemma sim_voidable:
  assumes "ctx_sim P Q"
  shows "set (voidable Q i m r) = set (voidable P i m r)"
  by (simp add: voidable_def sim_simps [OF assms])

lemma sim_invalidator_of:
  assumes "ctx_sim P Q"
  shows "(case invalidator_of P op of None \<Rightarrow> invalidator_of Q op = None
    | Some v \<Rightarrow> \<exists>w. invalidator_of Q op = Some w \<and> inv_sim (i, v) (i, w))"
proof -
  have e: "voidable Q i m r = [] \<longleftrightarrow> voidable P i m r = []" for i m r
    using sim_voidable [OF assms, of i m r] by (metis set_empty)
  show ?thesis
    using sim_voidable [OF assms]
    by (cases "op_action op") (simp_all add: invalidator_of_def sim_simps [OF assms] e)
qed

lemma invalidators_fst:
  "sorted (map (\<lambda>i. (depth_of (px_depth P) i, i)) (map fst (invalidators P)))"
  "distinct (op_ids (px_ops P)) \<Longrightarrow> distinct (map fst (invalidators P))"
  "set (map fst (invalidators P)) = {op_id op | op. op \<in> set (px_ops P) \<and> invalidator_of P op \<noteq> None}"
proof -
  let ?k = "\<lambda>(i, v :: ('a, 'b) invalidator). (depth_of (px_depth P) i, i)"
  have "map ?k (invalidators P) = map (\<lambda>i. (depth_of (px_depth P) i, i)) (map fst (invalidators P))"
    by (simp add: case_prod_beta)
  then show "sorted (map (\<lambda>i. (depth_of (px_depth P) i, i)) (map fst (invalidators P)))"
    unfolding invalidators_def by (metis (no_types) sorted_sort_key)
  show "set (map fst (invalidators P)) = {op_id op | op. op \<in> set (px_ops P) \<and> invalidator_of P op \<noteq> None}"
  proof (intro set_eqI iffI)
    fix i assume "i \<in> set (map fst (invalidators P))"
    then obtain v where "(i, v) \<in> set (invalidators P)" by auto
    then show "i \<in> {op_id op | op. op \<in> set (px_ops P) \<and> invalidator_of P op \<noteq> None}"
      by (auto simp: invalidators_mem)
  next
    fix i assume "i \<in> {op_id op | op. op \<in> set (px_ops P) \<and> invalidator_of P op \<noteq> None}"
    then obtain op v where "op \<in> set (px_ops P)" "op_id op = i" "invalidator_of P op = Some v" by auto
    then have "(i, v) \<in> set (invalidators P)" by (auto simp: invalidators_mem)
    then show "i \<in> set (map fst (invalidators P))" by force
  qed
  let ?raw = "List.map_filter (\<lambda>op. map_option (\<lambda>v. (op_id op, v)) (invalidator_of P op)) (px_ops P)"
  have "map fst ?raw = map op_id (filter (\<lambda>op. invalidator_of P op \<noteq> None) (px_ops P))"
    by (induction "px_ops P") (auto simp: List.map_filter_def)
  moreover assume "distinct (op_ids (px_ops P))"
  ultimately have "distinct (map fst ?raw)" by (simp add: op_ids_def distinct_map_filter)
  moreover have "mset (map fst (invalidators P)) = mset (map fst ?raw)"
    by (simp add: invalidators_def)
  ultimately show "distinct (map fst (invalidators P))" using mset_eq_imp_distinct_iff by blast
qed

lemma sim_invalidators:
  assumes "ctx_sim P Q"
  shows "list_all2 inv_sim (invalidators P) (invalidators Q)"
proof -
  have d: "distinct (op_ids (px_ops P))" "distinct (op_ids (px_ops Q))"
    using assms mset_eq_imp_distinct_iff [of "op_ids (px_ops Q)" "op_ids (px_ops P)"]
    by (auto simp: ctx_sim_def op_ids_def)
  let ?k = "\<lambda>R i. (depth_of (px_depth R) i, i)"
  let ?f = "map fst (invalidators P)" and ?g = "map fst (invalidators Q)"
  have set: "set ?f = set ?g"
  proof -
    have "invalidator_of P op \<noteq> None \<longleftrightarrow> invalidator_of Q op \<noteq> None" for op
      using sim_invalidator_of [OF assms, of op] by (cases "invalidator_of P op") auto
    then show ?thesis unfolding invalidators_fst(3) by (simp add: sim_simps [OF assms])
  qed
  have k: "map (?k Q) ?g = map (?k P) ?g"
  proof (rule map_cong [OF refl])
    fix i assume "i \<in> set ?g"
    then have "i \<in> set (op_ids (px_ops P))"
      unfolding invalidators_fst(3) by (auto simp: op_ids_def sim_simps [OF assms])
    then show "?k Q i = ?k P i" by (simp add: sim_depth [OF assms])
  qed
  have "sorted (map (?k P) ?g)" using invalidators_fst(1) [of Q] unfolding k .
  moreover have "distinct (map (?k P) ?f)" "distinct (map (?k P) ?g)"
    using invalidators_fst(2) d by (auto simp: distinct_map inj_on_def)
  ultimately have "map (?k P) ?f = map (?k P) ?g"
    using set invalidators_fst(1) [of P] by (intro sorted_distinct_set_unique) (simp_all only: set_map)
  then have "map snd (map (?k P) ?f) = map snd (map (?k P) ?g)" by (rule arg_cong)
  then have fg: "?f = ?g" by (simp add: o_def)
  have el: "inv_sim x y" if x: "x \<in> set (invalidators P)" and y: "y \<in> set (invalidators Q)" and "fst x = fst y" for x y
  proof -
    obtain i v w where xy: "x = (i, v)" "y = (i, w)" using \<open>fst x = fst y\<close> by (cases x; cases y) auto
    obtain a b where a: "a \<in> set (px_ops P)" "op_id a = i" "invalidator_of P a = Some v"
      and b: "b \<in> set (px_ops P)" "op_id b = i" "invalidator_of Q b = Some w"
      using x y by (auto simp: xy invalidators_mem sim_simps [OF assms])
    have "a = b" using a b d(1) by (metis distinct_map inj_onD op_ids_def)
    then show ?thesis using a(3) b(3) sim_invalidator_of [OF assms, of a i] by (auto simp: xy)
  qed
  show ?thesis
  proof (rule list_all2_all_nthI)
    show "length (invalidators P) = length (invalidators Q)" using fg by (metis length_map)
    fix n assume n: "n < length (invalidators P)"
    then have m: "n < length (invalidators Q)" using fg by (metis length_map)
    have "fst (invalidators P ! n) = fst (invalidators Q ! n)"
      using fg n m by (metis nth_map)
    then show "inv_sim (invalidators P ! n) (invalidators Q ! n)" using el n m by simp
  qed
qed

definition st_sim :: "'o list \<times> bool \<Rightarrow> 'o list \<times> bool \<Rightarrow> bool" where
  "st_sim s t \<longleftrightarrow> set (fst s) = set (fst t) \<and> snd s = snd t"

lemma mark_sim: "st_sim s t \<Longrightarrow> st_sim (mark x s) (mark x t)"
  by (auto simp: st_sim_def mark_def)

lemma foldl_sim:
  "(\<And>x s t. x \<in> set xs \<Longrightarrow> st_sim s t \<Longrightarrow> st_sim (f s x) (g t x)) \<Longrightarrow> st_sim s t \<Longrightarrow>
     st_sim (foldl f s xs) (foldl g t xs)"
  by (induction xs arbitrary: s t) simp_all

lemma demote_effect:
  "st_sim (foldl (\<lambda>st i. if i \<noteq> j then mark i st else st) s void)
     (fst s @ filter (\<lambda>i. i \<noteq> j) void, snd s \<or> (\<exists>i \<in> set void. i \<noteq> j \<and> i \<notin> set (fst s)))"
proof (induction void arbitrary: s)
  case (Cons x void)
  show ?case using Cons.IH [of "if x \<noteq> j then mark x s else s"] by (auto simp: st_sim_def mark_def)
qed (simp add: st_sim_def)

lemma sim_invalidate:
  assumes "ctx_sim P Q" "inv_sim v w" "st_sim s t"
  shows "st_sim (invalidate P v s) (invalidate Q w t)"
proof -
  have fs: "fst w = fst v" using assms(2) by (cases "(v, w)" rule: inv_sim.cases) auto
  have mem: "fst w \<in> set (fst t) \<longleftrightarrow> fst v \<in> set (fst s)" using assms(3) fs by (simp add: st_sim_def)
  show ?thesis
  proof (cases "snd v")
    case (InvRemove m)
    then have w: "snd w = InvRemove m" using assms(2) by (cases "(v, w)" rule: inv_sim.cases) auto
    have "st_sim
        (foldl (\<lambda>st i. if i = fst v \<or> i \<in> set (fst st) then st
           else if author_is P i m \<and> px_conc P i (fst v) then mark i st else st) s (sorted_ids P))
        (foldl (\<lambda>st i. if i = fst v \<or> i \<in> set (fst st) then st
           else if author_is P i m \<and> px_conc P i (fst v) then mark i st else st) t (sorted_ids P))"
      by (rule foldl_sim [OF _ assms(3)]) (auto simp: st_sim_def mark_def)
    then show ?thesis using assms(3) mem
      by (cases "fst v \<in> set (fst s)")
        (simp_all only: invalidate_def InvRemove w fs invalidator.case sim_simps [OF assms(1)] sim_sorted [OF assms(1)]
          if_True if_False simp_thms)
  next
    case (InvDemote u)
    then obtain u' where w: "snd w = InvDemote u'" "set u' = set u"
      using assms(2) by (cases "(v, w)" rule: inv_sim.cases) auto
    have "st_sim (foldl (\<lambda>st i. if i \<noteq> fst v then mark i st else st) s u)
        (foldl (\<lambda>st i. if i \<noteq> fst v then mark i st else st) t u')"
      using demote_effect [of "fst v" s u] demote_effect [of "fst v" t u'] assms(3) w(2)
      by (auto simp: st_sim_def)
    then show ?thesis using assms(3) mem
      by (cases "fst v \<in> set (fst s)")
        (simp_all only: invalidate_def InvDemote w(1) fs invalidator.case if_True if_False simp_thms)
  qed
qed

lemma sim_invalidate_pass:
  "ctx_sim P Q \<Longrightarrow> list_all2 inv_sim vs ws \<Longrightarrow> st_sim s t \<Longrightarrow>
     st_sim (foldl (\<lambda>st iv. invalidate P iv st) s vs) (foldl (\<lambda>st iv. invalidate Q iv st) t ws)"
proof (induction vs arbitrary: ws s t)
  case (Cons v vs)
  then obtain w ws' where "ws = w # ws'" "inv_sim v w" "list_all2 inv_sim vs ws'"
    by (auto simp: list_all2_Cons1)
  note ws = this
  show ?case unfolding ws(1) foldl_Cons
    by (rule Cons.IH [OF Cons.prems(1) ws(3) sim_invalidate [OF Cons.prems(1) ws(2) Cons.prems(3)]])
qed simp

lemma sim_drop_absent:
  assumes "ctx_sim P Q" "st_sim s t"
  shows "st_sim (drop_absent P g i s) (drop_absent Q g i t)"
proof -
  have same: "i \<in> set (fst s) \<longleftrightarrow> i \<in> set (fst t)" using assms(2) by (simp add: st_sim_def)
  show ?thesis
  proof (cases "find_op (px_ops P) i")
    case None
    then show ?thesis using assms(2) same by (simp add: drop_absent_def sim_simps [OF assms(1)])
  next
    case (Some op)
    have "author_active_before Q g op (fst t) = author_active_before P g op (fst s)"
      by (rule sim_active [OF assms(1)]) (use assms(2) find_op_Some [OF Some] in \<open>auto simp: st_sim_def\<close>)
    then show ?thesis using assms(2) same Some mark_sim [OF assms(2)]
      by (simp add: drop_absent_def sim_simps [OF assms(1)])
  qed
qed

lemma sim_inner_pass:
  assumes "ctx_sim P Q" "list_all2 inv_sim vs ws" "set b = set c"
  shows "st_sim (inner_pass P g vs b) (inner_pass Q g ws c)"
  unfolding inner_pass_def sim_sorted [OF assms(1)]
  by (rule foldl_sim, rule sim_drop_absent [OF assms(1)], assumption,
      rule sim_invalidate_pass [OF assms(1,2)]) (simp add: st_sim_def assms(3))

lemma sim_suppress:
  assumes "ctx_sim P Q" "list_all2 inv_sim vs ws" "st_sim s t"
  shows "st_sim (suppress_readd P vs a s) (suppress_readd Q ws a t)"
proof -
  have same: "i \<in> set (fst s) \<longleftrightarrow> i \<in> set (fst t)" for i using assms(3) by (simp add: st_sim_def)
  have ex: "list_ex (\<lambda>(i, v). v = InvRemove m \<and> i \<notin> set (fst s) \<and> px_conc P a i) vs =
      list_ex (\<lambda>(i, v). v = InvRemove m \<and> i \<notin> set (fst t) \<and> px_conc P a i) ws" for m
    using assms(2)
  proof (induction vs ws rule: list_all2_induct)
    case (Cons v vs w ws)
    then show ?case using same by (cases "(v, w)" rule: inv_sim.cases) auto
  qed simp
  show ?thesis
    unfolding suppress_readd_def sim_simps [OF assms(1)] ex unfolding same
    using assms(3) mark_sim [OF assms(3)] by (simp split: option.split action.split)
qed

lemma sim_rule4_pass:
  assumes "ctx_sim P Q" "list_all2 inv_sim vs ws" "set b = set c"
  shows "st_sim (rule4_pass P vs b) (rule4_pass Q ws c)"
  unfolding rule4_pass_def sim_sorted [OF assms(1)]
  by (rule foldl_sim, rule sim_suppress [OF assms(1,2)], assumption) (simp add: st_sim_def assms(3))

subsection \<open>The same fixpoint\<close>

lemma sim_inner_loop:
  assumes "ctx_sim P Q" "list_all2 inv_sim vs ws"
  shows "set b = set c \<Longrightarrow> set (inner_loop P g vs b) = set (inner_loop Q g ws c)"
  using assms
proof (induction P g vs b arbitrary: c rule: inner_loop.induct)
  case (1 P g vs b)
  obtain b' ch c' ch' where r: "inner_pass P g vs b = (b', ch)" "inner_pass Q g ws c = (c', ch')"
    by fastforce
  have s: "set b' = set c'" "ch' = ch"
    using sim_inner_pass [OF "1.prems"(2,3,1), of g] r by (simp_all add: st_sim_def)
  show ?case
  proof (cases ch)
    case True
    show ?thesis using "1.IH" [OF r(1) [symmetric] True s(1) "1.prems"(2,3)] True s(2)
      by (simp add: inner_loop.simps [of P g vs b] inner_loop.simps [of Q g ws c] r)
  next
    case False
    then show ?thesis using s
      by (simp add: inner_loop.simps [of P g vs b] inner_loop.simps [of Q g ws c] r)
  qed
qed

lemma sim_outer_loop:
  assumes "ctx_sim P Q" "list_all2 inv_sim vs ws"
  shows "set b = set c \<Longrightarrow> set (outer_loop P g vs b) = set (outer_loop Q g ws c)"
  using assms
proof (induction P g vs b arbitrary: c rule: outer_loop.induct)
  case (1 P g vs b)
  let ?b = "inner_loop P g vs b" and ?c = "inner_loop Q g ws c"
  note i = sim_inner_loop [OF "1.prems"(2,3,1), of g]
  obtain b' ch c' ch' where r: "rule4_pass P vs ?b = (b', ch)" "rule4_pass Q ws ?c = (c', ch')"
    by fastforce
  have s: "set b' = set c'" "ch' = ch"
    using sim_rule4_pass [OF "1.prems"(2,3) i] r by (simp_all add: st_sim_def)
  show ?case
  proof (cases ch)
    case True
    show ?thesis using "1.IH" [OF r(1) [symmetric] True s(1) "1.prems"(2,3)] True s(2)
      by (simp add: outer_loop.simps [of P g vs b] outer_loop.simps [of Q g ws c] r)
  next
    case False
    then show ?thesis using s
      by (simp add: outer_loop.simps [of P g vs b] outer_loop.simps [of Q g ws c] r)
  qed
qed

lemma sim_taint:
  assumes "ctx_sim P Q"
  shows "set b = set c \<Longrightarrow> set (propagate_key_taint P b) = set (propagate_key_taint Q c)"
  using assms
proof (induction P b arbitrary: c rule: propagate_key_taint.induct)
  case (1 P b)
  have s: "set (newly_tainted Q c) = set (newly_tainted P b)"
    using sim_tainted [OF "1.prems"(2)] "1.prems"(1) by metis
  show ?case
  proof (cases "newly_tainted P b = []")
    case True
    then have "newly_tainted Q c = []" using s by simp
    then show ?thesis using True "1.prems"(1)
      by (simp add: propagate_key_taint.simps [of P b] propagate_key_taint.simps [of Q c])
  next
    case False
    then have "newly_tainted Q c \<noteq> []" using s by auto
    moreover have "set (hs_extend (newly_tainted P b) b) = set (hs_extend (newly_tainted Q c) c)"
      using s "1.prems"(1) by simp
    ultimately show ?thesis using "1.IH" [OF False _ "1.prems"(2)] False
      by (simp add: propagate_key_taint.simps [of P b] propagate_key_taint.simps [of Q c])
  qed
qed

lemma extends_length_set: "extends U a b \<Longrightarrow> length b = length a \<longleftrightarrow> set b = set a"
  by (auto simp: extends_def simp del: set_empty) (metis Int_absorb2 Un_upper1 set_empty)

lemma sim_process_loop:
  assumes "ctx_sim P Q" "list_all2 inv_sim vs ws"
  shows "set b = set c \<Longrightarrow> set (process_loop P g vs b) = set (process_loop Q g ws c)"
  using assms
proof (induction P g vs b arbitrary: c rule: process_loop.induct)
  case (1 P g vs b)
  let ?b = "process_pass P g vs b" and ?c = "process_pass Q g ws c"
  have s: "set ?b = set ?c"
    unfolding process_pass_def strong_remove_fixpoint_def
    by (rule sim_outer_loop [OF "1.prems"(2,3) sim_taint [OF "1.prems"(2,1)]])
  have l: "length ?c = length c \<longleftrightarrow> length ?b = length b"
    using extends_length_set [OF process_pass_extends [of P vs b g]]
      extends_length_set [OF process_pass_extends [of Q ws c g]] s "1.prems"(1) by simp
  show ?case
  proof (cases "length ?b = length b")
    case True
    then show ?thesis using s l
      by (simp add: process_loop.simps [of P g vs b] process_loop.simps [of Q g ws c] Let_def)
  next
    case False
    then show ?thesis using "1.IH" [OF refl False s "1.prems"(2,3)] l
      by (simp add: process_loop.simps [of P g vs b] process_loop.simps [of Q g ws c] Let_def)
  qed
qed

lemma sim_superseded:
  assumes "ctx_sim P Q"
  shows "set (superseded_refounds Q) = set (superseded_refounds P)"
  by (simp add: superseded_refounds_def sim_simps [OF assms] cong: option.case_cong)

lemma sim_seed:
  assumes "ctx_sim P Q"
  shows "set (seed_bad P) = set (seed_bad Q)"
proof -
  have u: "set (unauthorized Q) = set (unauthorized P)"
    by (simp add: unauthorized_def sim_simps [OF assms])
  have e: "effective_refound Q = effective_refound P"
    unfolding effective_refound_def
    by (rule sim_max [OF assms]) (simp add: sim_simps [OF assms] sim_superseded [OF assms])
  have "set (reset_merge_carveout Q (unauthorized Q)) = set (reset_merge_carveout P (unauthorized P))"
    by (simp add: reset_merge_carveout_def e u sim_superseded [OF assms] sim_simps [OF assms] split: option.split)
  then show ?thesis using u by (simp add: seed_bad_def)
qed

lemma sim_ignored:
  assumes "ctx_sim (pctx_of X base) (pctx_of Y base)" "rx_genesis Y = rx_genesis X"
  shows "set (ignored_ops X base) = set (ignored_ops Y base)"
  using sim_process_loop [OF assms(1) sim_invalidators [OF assms(1)] sim_seed [OF assms(1)]] assms(2)
  by (simp add: ignored_ops_def Let_def)

text \<open>C29: the resolver is a function of the op set, not of the order the map yields it: over
  one DAG, any two iteration orders ignore the same ops, provided that no member's presence is
  decided by an addition and a removal at the same depth.\<close>

theorem order_independent:
  assumes "same_dag X Y" "causal X" "untied X base"
  shows "set (ignored_ops X base) = set (ignored_ops Y base)"
  by (rule sim_ignored [OF ctx_sim_intro [OF assms]]) (use assms(1) in \<open>simp add: same_dag_def\<close>)

end
