(* ===== verification/Dag_Topo.thy ===== *)
theory Dag_Topo
  imports Dag_Order
begin

text \<open>
  The topological order of \<open>packages/keyeo-dag/src/engine.rs\<close>: Kahn's algorithm with the smallest
  id first among the ready ops.  The in-degree table is a map, the ready set an ordered list, the
  children of an op the list the code pushes them to.
\<close>

subsection \<open>The algorithm\<close>

text \<open>A parent that is admitted; one that is not contributes no edge.\<close>

definition inner_parents :: "('o, 'id, 'r, 'pk, 'sig) dag_op list \<Rightarrow> ('o, 'id, 'r, 'pk, 'sig) dag_op \<Rightarrow> 'o list" where
  "inner_parents ops op = filter (\<lambda>p. p \<in> set (op_ids ops)) (op_parents op)"

definition indegrees :: "('o, 'id, 'r, 'pk, 'sig) dag_op list \<Rightarrow> 'o \<Rightarrow> nat option" where
  "indegrees ops = map_of (map (\<lambda>op. (op_id op, length (inner_parents ops op))) ops)"

definition children_of :: "('o, 'id, 'r, 'pk, 'sig) dag_op list \<Rightarrow> 'o \<Rightarrow> 'o list" where
  "children_of ops p =
     concat (map (\<lambda>op. map (\<lambda>_. op_id op) (filter (\<lambda>q. q = p) (inner_parents ops op))) ops)"

text \<open>\<open>*d -= 1; if *d == 0 { ready.insert(*c) }\<close>.  The counter is positive there: it counts the
  parents that are still to come, of which this one was the next.\<close>

definition relax :: "('o \<Rightarrow> nat option) \<times> 'o::linorder list \<Rightarrow> 'o \<Rightarrow> ('o \<Rightarrow> nat option) \<times> 'o list" where
  "relax st c =
     (case fst st c of
        Some (Suc d) \<Rightarrow> ((fst st)(c \<mapsto> d), if d = 0 then insort_insert c (snd st) else snd st)
      | _ \<Rightarrow> st)"

definition busy :: "'o set \<Rightarrow> ('o \<Rightarrow> nat option) \<Rightarrow> nat" where
  "busy U deg = card {i \<in> U. \<exists>d. deg i = Some (Suc d)}"

lemma busy_relax:
  assumes "finite U" "c \<in> U"
  shows "busy U (fst (relax st c)) + length (snd (relax st c)) \<le> busy U (fst st) + length (snd st)"
proof (cases "\<exists>d. fst st c = Some (Suc d)")
  case True
  then obtain d where d: "fst st c = Some (Suc d)" by blast
  let ?A = "{i \<in> U. \<exists>d. fst st i = Some (Suc d)}"
  have c: "c \<in> ?A" "finite ?A" using d assms by auto
  show ?thesis
  proof (cases "d = 0")
    case True
    have "{i \<in> U. \<exists>d. ((fst st)(c \<mapsto> 0)) i = Some (Suc d)} = ?A - {c}" by auto
    then have "busy U ((fst st)(c \<mapsto> 0)) = card ?A - 1" using c by (simp add: busy_def)
    moreover have "0 < card ?A" using c by (auto simp: card_gt_0_iff)
    moreover have "length (insort_insert c (snd st)) \<le> Suc (length (snd st))"
      by (simp add: insort_insert_key_def)
    ultimately show ?thesis using d True by (simp add: relax_def busy_def)
  next
    case False
    then obtain e where "d = Suc e" by (cases d) auto
    then have "{i \<in> U. \<exists>x. ((fst st)(c \<mapsto> d)) i = Some (Suc x)} = ?A"
      using d by (auto simp: fun_upd_def split: if_splits)
    then show ?thesis using d False by (simp add: relax_def busy_def)
  qed
next
  case False
  then show ?thesis by (auto simp: relax_def split: option.split nat.split)
qed

lemma busy_foldl:
  "finite U \<Longrightarrow> set cs \<subseteq> U \<Longrightarrow>
     busy U (fst (foldl relax st cs)) + length (snd (foldl relax st cs)) \<le> busy U (fst st) + length (snd st)"
proof (induction cs arbitrary: st)
  case (Cons c cs)
  have "busy U (fst (relax st c)) + length (snd (relax st c)) \<le> busy U (fst st) + length (snd st)"
    using Cons.prems by (intro busy_relax) simp_all
  moreover have "busy U (fst (foldl relax (relax st c) cs)) + length (snd (foldl relax (relax st c) cs)) \<le>
      busy U (fst (relax st c)) + length (snd (relax st c))"
    using Cons.prems by (intro Cons.IH) simp_all
  ultimately show ?case by simp
qed simp

lemma children_ids: "set (children_of ops p) \<subseteq> set (op_ids ops)"
  by (auto simp: children_of_def op_ids_def)

function kahn ::
  "('o::linorder, 'id, 'r, 'pk, 'sig) dag_op list \<Rightarrow> ('o \<Rightarrow> nat option) \<Rightarrow> 'o list \<Rightarrow> 'o list \<Rightarrow> 'o list" where
  "kahn ops deg [] order = order"
| "kahn ops deg (x # ready) order =
     (case foldl relax (deg, ready) (children_of ops x) of
        (deg', ready') \<Rightarrow> kahn ops deg' ready' (order @ [x]))"
  by pat_completeness auto

termination
proof (relation "measure (\<lambda>(ops, deg, ready, order). busy (set (op_ids ops)) deg + length ready)", goal_cases)
  case (2 ops deg x ready order deg' ready')
  from 2 [symmetric] show ?case
    using busy_foldl [of "set (op_ids ops)" "children_of ops x" "(deg, ready)"] children_ids [of ops x] by simp
qed simp

definition topo_order :: "('o::linorder, 'id, 'r, 'pk, 'sig) dag_op list \<Rightarrow> 'o list option" where
  "topo_order ops =
     (let order = kahn ops (indegrees ops)
                    (sort (filter (\<lambda>i. indegrees ops i = Some 0) (op_ids ops))) []
      in if length order \<noteq> length ops then None else Some order)"

subsection \<open>The reference order\<close>

text \<open>Again and again the smallest id whose admitted parents are all placed.\<close>

definition available :: "('o::linorder, 'id, 'r, 'pk, 'sig) dag_op list \<Rightarrow> 'o list \<Rightarrow> 'o list" where
  "available ops order =
     sort (map op_id (filter (\<lambda>op. op_id op \<notin> set order \<and>
         list_all (\<lambda>p. p \<in> set order) (inner_parents ops op)) ops))"

function topo_ref :: "('o::linorder, 'id, 'r, 'pk, 'sig) dag_op list \<Rightarrow> 'o list \<Rightarrow> 'o list" where
  "topo_ref ops order = (case available ops order of [] \<Rightarrow> order | i # _ \<Rightarrow> topo_ref ops (order @ [i]))"
  by pat_completeness auto

termination
proof (relation "measure (\<lambda>(ops, order). card (set (op_ids ops) - set order))", goal_cases)
  case (2 ops order i js)
  have "i \<in> set (available ops order)" unfolding 2 by simp
  then have "i \<in> set (op_ids ops) - set order" by (auto simp: available_def op_ids_def)
  then have "set (op_ids ops) - set (order @ [i]) \<subset> set (op_ids ops) - set order" by auto
  then show ?case by (simp add: psubset_card_mono)
qed simp

declare topo_ref.simps [simp del]

text \<open>Every op once, after all its admitted parents.\<close>

definition linear_extension :: "('o, 'id, 'r, 'pk, 'sig) dag_op list \<Rightarrow> 'o list \<Rightarrow> bool" where
  "linear_extension ops order \<longleftrightarrow> distinct order \<and> set order = set (op_ids ops) \<and>
     (\<forall>k < length order. \<forall>op \<in> set ops. op_id op = order ! k \<longrightarrow>
        set (inner_parents ops op) \<subseteq> set (take k order))"

definition placed_ok :: "('o, 'id, 'r, 'pk, 'sig) dag_op list \<Rightarrow> 'o list \<Rightarrow> bool" where
  "placed_ok ops order \<longleftrightarrow> distinct order \<and> set order \<subseteq> set (op_ids ops) \<and>
     (\<forall>k < length order. \<forall>op \<in> set ops. op_id op = order ! k \<longrightarrow>
        set (inner_parents ops op) \<subseteq> set (take k order))"

lemma available_mem:
  "i \<in> set (available ops order) \<longleftrightarrow>
     i \<notin> set order \<and> (\<exists>op \<in> set ops. op_id op = i \<and> set (inner_parents ops op) \<subseteq> set order)"
  by (auto simp: available_def list_all_iff)

lemma placed_snoc:
  assumes "distinct (op_ids ops)" "placed_ok ops order" "i \<in> set (available ops order)"
  shows "placed_ok ops (order @ [i])"
proof -
  obtain op where op: "op \<in> set ops" "op_id op = i" "set (inner_parents ops op) \<subseteq> set order" "i \<notin> set order"
    using assms(3) by (auto simp: available_mem)
  have uniq: "o1 = op" if "o1 \<in> set ops" "op_id o1 = i" for o1
    using that op(1,2) assms(1) by (auto simp: op_ids_def distinct_map dest: inj_onD)
  have "set (inner_parents ops o1) \<subseteq> set (take k (order @ [i]))"
    if "k < length (order @ [i])" "o1 \<in> set ops" "op_id o1 = (order @ [i]) ! k" for k o1
  proof (cases "k < length order")
    case True
    then show ?thesis using assms(2) that by (auto simp: placed_ok_def nth_append)
  next
    case False
    then have "k = length order" using that(1) by simp
    then show ?thesis using that uniq [OF that(2)] op(3) by simp
  qed
  then show ?thesis using assms(2) op by (auto simp: placed_ok_def op_ids_def)
qed

lemma topo_ref_placed:
  "distinct (op_ids ops) \<Longrightarrow> placed_ok ops order \<Longrightarrow>
     placed_ok ops (topo_ref ops order) \<and> available ops (topo_ref ops order) = []"
proof (induction ops order rule: topo_ref.induct)
  case (1 ops order)
  show ?case
  proof (cases "available ops order")
    case Nil
    then show ?thesis using "1.prems" by (simp add: topo_ref.simps [of ops order])
  next
    case (Cons i js)
    have "placed_ok ops (order @ [i])"
      by (rule placed_snoc [OF "1.prems"]) (simp add: Cons)
    then show ?thesis using "1.IH" [OF Cons "1.prems"(1)] Cons by (simp add: topo_ref.simps [of ops order])
  qed
qed

subsection \<open>Kahn's algorithm computes it\<close>

lemma foldl_relax:
  assumes "\<And>i. i \<in> set cs \<Longrightarrow> \<exists>d. deg i = Some d \<and> count_list cs i \<le> d" "sorted ready" "distinct ready"
  shows "fst (foldl relax (deg, ready) cs) = (\<lambda>i. map_option (\<lambda>d. d - count_list cs i) (deg i)) \<and>
    sorted (snd (foldl relax (deg, ready) cs)) \<and> distinct (snd (foldl relax (deg, ready) cs)) \<and>
    set (snd (foldl relax (deg, ready) cs)) = set ready \<union> {i \<in> set cs. deg i = Some (count_list cs i)}"
  using assms
proof (induction cs arbitrary: deg ready)
  case Nil
  have "map_option (\<lambda>d. d) (deg i) = deg i" for i by (cases "deg i") simp_all
  then show ?case using Nil by simp
next
  case (Cons c cs)
  obtain d where d: "deg c = Some (Suc d)" "count_list cs c \<le> d"
  proof -
    obtain e where "deg c = Some e" "count_list (c # cs) c \<le> e" using Cons.prems(1) [of c] by auto
    then show thesis using that by (cases e) simp_all
  qed
  let ?deg = "deg(c \<mapsto> d)" and ?r = "if d = 0 then insort_insert c ready else ready"
  have step: "foldl relax (deg, ready) (c # cs) = foldl relax (?deg, ?r) cs"
    using d by (simp add: relax_def)
  have pre: "\<exists>e. ?deg i = Some e \<and> count_list cs i \<le> e" if "i \<in> set cs" for i
    using Cons.prems(1) [of i] that d by (auto split: if_splits)
  have srt: "sorted ?r" "distinct ?r"
    using Cons.prems(2,3) by (auto simp: sorted_insort_insert distinct_insort_insert)
  have zero: "d = 0 \<Longrightarrow> c \<notin> set cs"
    using d by (metis count_list_0_iff le_zero_eq)
  have new: "set ?r \<union> {i \<in> set cs. ?deg i = Some (count_list cs i)} =
      set ready \<union> {i \<in> set (c # cs). deg i = Some (count_list (c # cs) i)}"
    using d zero count_list_0_iff [of cs c] by (auto simp: set_insort_insert split: if_splits)
  have degs: "(\<lambda>i. map_option (\<lambda>e. e - count_list cs i) (?deg i)) =
      (\<lambda>i. map_option (\<lambda>e. e - count_list (c # cs) i) (deg i))"
    using d by (auto simp: fun_eq_iff)
  show ?case unfolding step new [symmetric] degs [symmetric] by (rule Cons.IH [OF pre srt])
qed

lemma count_children:
  assumes "distinct (op_ids ops)" "op \<in> set ops"
  shows "count_list (children_of ops x) (op_id op) = length (filter (\<lambda>q. q = x) (inner_parents ops op))"
proof -
  have same: "count_list (map (\<lambda>_. a) qs) b = (if a = b then length qs else 0)" for a b :: 'a and qs :: "'a list"
    by (induction qs) auto
  have "count_list (concat (map (\<lambda>o1. map (\<lambda>_. op_id o1) (f o1)) xs)) (op_id op) = length (f op)"
    if "distinct (op_ids xs)" "op \<in> set xs" for f :: "_ \<Rightarrow> 'a list" and xs
    using that
  proof (induction xs)
    case (Cons y xs)
    show ?case
    proof (cases "y = op")
      case True
      have "count_list (concat (map (\<lambda>o1. map (\<lambda>_. op_id o1) (f o1)) xs)) (op_id op) = 0"
        using Cons.prems(1) True by (auto simp: count_list_0_iff op_ids_def)
      then show ?thesis using True by (simp add: same)
    next
      case False
      then show ?thesis using Cons by (auto simp: same op_ids_def)
    qed
  qed simp
  then show ?thesis using assms by (simp add: children_of_def)
qed

lemma filter_split:
  assumes "x \<notin> A"
  shows "length (filter (\<lambda>p. p \<notin> insert x A) ps) = length (filter (\<lambda>p. p \<notin> A) ps) - length (filter (\<lambda>q. q = x) ps)"
    "length (filter (\<lambda>q. q = x) ps) \<le> length (filter (\<lambda>p. p \<notin> A) ps)"
    "length (filter (\<lambda>p. p \<notin> A) ps) = length (filter (\<lambda>q. q = x) ps) \<longleftrightarrow> set ps \<subseteq> insert x A"
proof -
  have s: "length (filter (\<lambda>p. p \<notin> A) ps) = length (filter (\<lambda>p. p \<notin> insert x A) ps) + length (filter (\<lambda>q. q = x) ps)"
    using assms by (induction ps) auto
  then show "length (filter (\<lambda>p. p \<notin> insert x A) ps) = length (filter (\<lambda>p. p \<notin> A) ps) - length (filter (\<lambda>q. q = x) ps)"
    "length (filter (\<lambda>q. q = x) ps) \<le> length (filter (\<lambda>p. p \<notin> A) ps)" by simp_all
  show "length (filter (\<lambda>p. p \<notin> A) ps) = length (filter (\<lambda>q. q = x) ps) \<longleftrightarrow> set ps \<subseteq> insert x A"
    using s by (auto simp: filter_empty_conv)
qed

definition kahn_inv :: "('o::linorder, 'id, 'r, 'pk, 'sig) dag_op list \<Rightarrow> ('o \<Rightarrow> nat option) \<Rightarrow> 'o list \<Rightarrow> 'o list \<Rightarrow> bool" where
  "kahn_inv ops deg ready order \<longleftrightarrow> ready = available ops order \<and>
     (\<forall>op \<in> set ops. op_id op \<in> set order \<longrightarrow> set (inner_parents ops op) \<subseteq> set order) \<and>
     (\<forall>op \<in> set ops. deg (op_id op) = Some (length (filter (\<lambda>p. p \<notin> set order) (inner_parents ops op))))"

lemma sorted_available: "sorted (available ops order)" "distinct (op_ids ops) \<Longrightarrow> distinct (available ops order)"
  by (simp_all add: available_def op_ids_def distinct_map_filter)

lemma kahn_step:
  assumes "distinct (op_ids ops)" "kahn_inv ops deg (x # ready) order"
  shows "kahn_inv ops (fst (foldl relax (deg, ready) (children_of ops x)))
    (snd (foldl relax (deg, ready) (children_of ops x))) (order @ [x])"
proof -
  let ?cs = "children_of ops x"
  have deg: "deg (op_id op) = Some (length (filter (\<lambda>p. p \<notin> set order) (inner_parents ops op)))"
    if "op \<in> set ops" for op
    using assms(2) that by (simp add: kahn_inv_def)
  have av: "available ops order = x # ready" using assms(2) by (simp add: kahn_inv_def)
  have x: "x \<notin> set order" "x \<notin> set ready" "sorted ready" "distinct ready"
    using sorted_available [of ops order] assms(1) available_mem [of x ops order] by (auto simp: av)
  note split = filter_split [OF x(1)]
  have "\<exists>d. deg i = Some d \<and> count_list ?cs i \<le> d" if i: "i \<in> set ?cs" for i
  proof -
    obtain op where op: "op \<in> set ops" "op_id op = i" using i children_ids [of ops x] by (auto simp: op_ids_def)
    then show ?thesis using deg [OF op(1)] count_children [OF assms(1) op(1), of x] split(2) by auto
  qed
  note r = foldl_relax [OF this x(3,4)]
  have d': "fst (foldl relax (deg, ready) ?cs) (op_id op) =
      Some (length (filter (\<lambda>p. p \<notin> set (order @ [x])) (inner_parents ops op)))" if op: "op \<in> set ops" for op
    using r deg [OF op] count_children [OF assms(1) op, of x] split(1) [of "inner_parents ops op"] by simp
  have mem: "i \<in> set ready \<union> {i \<in> set ?cs. deg i = Some (count_list ?cs i)} \<longleftrightarrow> i \<in> set (available ops (order @ [x]))" for i
  proof (cases "\<exists>op \<in> set ops. op_id op = i")
    case False
    then show ?thesis using available_mem [of i ops order] available_mem [of i ops "order @ [x]"] children_ids [of ops x]
      by (auto simp: av op_ids_def)
  next
    case True
    then obtain op where op: "op \<in> set ops" "op_id op = i" by blast
    have uniq: "(\<exists>o1 \<in> set ops. op_id o1 = i \<and> Q o1) \<longleftrightarrow> Q op" for Q
      using op assms(1) by (auto simp: op_ids_def distinct_map dest: inj_onD)
    have c: "count_list ?cs i = length (filter (\<lambda>q. q = x) (inner_parents ops op))"
      using count_children [OF assms(1) op(1), of x] op(2) by simp
    then have child: "i \<in> set ?cs \<longleftrightarrow> x \<in> set (inner_parents ops op)"
      using count_list_0_iff [of ?cs i] by (auto simp: filter_empty_conv)
    have rdy: "i \<in> set ready \<longleftrightarrow> i \<noteq> x \<and> i \<notin> set order \<and> set (inner_parents ops op) \<subseteq> set order"
      using available_mem [of i ops order] x(2) unfolding av uniq by auto
    have new: "i \<in> set (available ops (order @ [x])) \<longleftrightarrow>
        i \<noteq> x \<and> i \<notin> set order \<and> set (inner_parents ops op) \<subseteq> insert x (set order)"
      using available_mem [of i ops "order @ [x]"] unfolding uniq by auto
    have full: "deg i = Some (count_list ?cs i) \<longleftrightarrow> set (inner_parents ops op) \<subseteq> insert x (set order)"
      using deg [OF op(1)] op(2) c split(3) by simp
    have closed: "i \<in> set order \<Longrightarrow> set (inner_parents ops op) \<subseteq> set order"
      using assms(2) op by (auto simp: kahn_inv_def)
    have self: "set (inner_parents ops op) \<subseteq> set order" if "i = x"
      using available_mem [of i ops order] that unfolding av uniq by simp
    show ?thesis
    proof (cases "set (inner_parents ops op) \<subseteq> set order")
      case True
      then have "x \<notin> set (inner_parents ops op)" using x(1) by blast
      then show ?thesis using True rdy child new by auto
    next
      case False
      then have "i \<noteq> x" "i \<notin> set order" using closed self by blast+
      moreover have "set (inner_parents ops op) \<subseteq> insert x (set order) \<Longrightarrow> x \<in> set (inner_parents ops op)"
        using False by blast
      ultimately show ?thesis using False rdy child new full by blast
    qed
  qed
  have "set (snd (foldl relax (deg, ready) ?cs)) = set (available ops (order @ [x]))"
    using r mem by blast
  then have "snd (foldl relax (deg, ready) ?cs) = available ops (order @ [x])"
    using r sorted_available [of ops "order @ [x]"] assms(1) by (metis sorted_distinct_set_unique)
  moreover have "set (inner_parents ops op) \<subseteq> set (order @ [x])"
    if "op \<in> set ops" "op_id op \<in> set (order @ [x])" for op
  proof (cases "op_id op = x")
    case True
    have "x \<in> set (available ops order)" by (simp add: av)
    then obtain o1 where o1: "o1 \<in> set ops" "op_id o1 = x" "set (inner_parents ops o1) \<subseteq> set order"
      by (auto simp: available_mem)
    then have "o1 = op" using that(1) True assms(1) by (auto simp: op_ids_def distinct_map dest: inj_onD)
    then show ?thesis using o1(3) by auto
  next
    case False
    then show ?thesis using that assms(2) by (auto simp: kahn_inv_def)
  qed
  ultimately show ?thesis using d' by (simp add: kahn_inv_def)
qed

lemma kahn_topo_ref:
  "distinct (op_ids ops) \<Longrightarrow> kahn_inv ops deg ready order \<Longrightarrow> kahn ops deg ready order = topo_ref ops order"
proof (induction ops deg ready order rule: kahn.induct)
  case (1 ops deg order)
  then have "available ops order = []" by (simp add: kahn_inv_def)
  then show ?case by (simp add: topo_ref.simps)
next
  case (2 ops deg x ready order)
  let ?r = "foldl relax (deg, ready) (children_of ops x)"
  have "available ops order = x # ready" using "2.prems"(2) by (simp add: kahn_inv_def)
  moreover have "kahn ops (fst ?r) (snd ?r) (order @ [x]) = topo_ref ops (order @ [x])"
    using "2.IH" [of "fst ?r" "snd ?r"] kahn_step [OF "2.prems"] "2.prems"(1) by simp
  ultimately show ?case by (simp add: case_prod_beta topo_ref.simps [of ops order])
qed

lemma map_of_ops:
  "distinct (op_ids ops) \<Longrightarrow> op \<in> set ops \<Longrightarrow> map_of (map (\<lambda>op. (op_id op, f op)) ops) (op_id op) = Some (f op)"
  by (intro map_of_is_SomeI) (auto simp: op_ids_def o_def)

lemma topo_order_ref:
  assumes "distinct (op_ids ops)"
  shows "topo_order ops = (if length (topo_ref ops []) = length ops then Some (topo_ref ops []) else None)"
proof -
  have deg: "indegrees ops (op_id op) = Some (length (inner_parents ops op))" if "op \<in> set ops" for op
    unfolding indegrees_def by (rule map_of_ops [OF assms that])
  have "filter (\<lambda>i. indegrees ops i = Some 0) (op_ids ops) = map op_id (filter (\<lambda>op. inner_parents ops op = []) ops)"
    unfolding op_ids_def filter_map o_def by (rule arg_cong [OF filter_cong]) (auto simp: deg)
  moreover have "list_all (\<lambda>p. False) ps \<longleftrightarrow> ps = []" for ps :: "'a list" by (cases ps) simp_all
  ultimately have "sort (filter (\<lambda>i. indegrees ops i = Some 0) (op_ids ops)) = available ops []"
    by (simp add: available_def)
  then have "kahn_inv ops (indegrees ops) (sort (filter (\<lambda>i. indegrees ops i = Some 0) (op_ids ops))) []"
    using deg by (simp add: kahn_inv_def)
  from kahn_topo_ref [OF assms this] show ?thesis by (simp add: topo_order_def Let_def)
qed

lemma topo_linear:
  assumes "distinct (op_ids ops)" "topo_order ops = Some order"
  shows "linear_extension ops order"
proof -
  have o: "order = topo_ref ops []" "length order = length ops"
    using assms(2) by (auto simp: topo_order_ref [OF assms(1)] split: if_splits)
  have p: "placed_ok ops order"
    using topo_ref_placed [OF assms(1), of "[]"] by (simp add: o(1) placed_ok_def)
  then have "card (set order) = card (set (op_ids ops))"
    using o(2) distinct_card [OF assms(1)] by (simp add: placed_ok_def distinct_card op_ids_def)
  then have "set order = set (op_ids ops)"
    using p by (intro card_subset_eq) (auto simp: placed_ok_def)
  then show ?thesis using p by (simp add: placed_ok_def linear_extension_def)
qed

definition index_of :: "'a list \<Rightarrow> 'a \<Rightarrow> nat" where
  "index_of xs i = length (takeWhile (\<lambda>j. j \<noteq> i) xs)"

lemma index_of_less: "i \<in> set xs \<Longrightarrow> index_of xs i < length xs"
  by (induction xs) (auto simp: index_of_def)

lemma index_of_take: "p \<in> set (take k xs) \<Longrightarrow> index_of xs p < k"
proof -
  assume p: "p \<in> set (take k xs)"
  have "takeWhile (\<lambda>j. j \<noteq> p) (take k xs @ drop k xs) = takeWhile (\<lambda>j. j \<noteq> p) (take k xs)"
    by (rule takeWhile_append1 [OF p]) simp
  then have "index_of xs p = index_of (take k xs) p"
    unfolding append_take_drop_id by (simp add: index_of_def)
  also have "\<dots> < length (take k xs)" by (rule index_of_less [OF p])
  finally show ?thesis by simp
qed

lemma index_of_nth:
  assumes "i \<in> set xs"
  shows "index_of xs i < length xs" "xs ! index_of xs i = i"
proof -
  show l: "index_of xs i < length xs" by (rule index_of_less [OF assms])
  show "xs ! index_of xs i = i"
    using nth_length_takeWhile [of "\<lambda>j. j \<noteq> i" xs] l by (simp add: index_of_def)
qed

lemma linear_parent:
  assumes "linear_extension ops order" "op \<in> set ops" "p \<in> set (inner_parents ops op)"
  shows "index_of order p < index_of order (op_id op)"
proof (rule index_of_take)
  let ?k = "index_of order (op_id op)"
  have "op_id op \<in> set order" using assms(1,2) by (simp add: linear_extension_def op_ids_def)
  note k = index_of_nth [OF this]
  have "\<forall>k < length order. \<forall>op \<in> set ops. op_id op = order ! k \<longrightarrow> set (inner_parents ops op) \<subseteq> set (take k order)"
    using assms(1) by (simp add: linear_extension_def)
  from this [rule_format, OF k(1) assms(2) k(2) [symmetric]] show "p \<in> set (take ?k order)" using assms(3) by blast
qed

text \<open>A linear extension exists only if the parent pointers form no cycle.\<close>

lemma linear_acyclic:
  assumes "linear_extension ops order"
  shows "acyclic (parent_rel ops)"
proof -
  have edge: "b \<in> set (op_ids ops) \<and> (a \<in> set (op_ids ops) \<longrightarrow> index_of order a < index_of order b)"
    if "(a, b) \<in> parent_rel ops" for a b
  proof -
    obtain op where op: "op \<in> set ops" "op_id op = b" "a \<in> set (op_parents op)"
      using \<open>(a, b) \<in> parent_rel ops\<close> by (auto simp: parent_rel_def)
    then show ?thesis using linear_parent [OF assms op(1), of a] by (auto simp: inner_parents_def op_ids_def)
  qed
  have pos: "b \<in> set (op_ids ops) \<and> (a \<in> set (op_ids ops) \<longrightarrow> index_of order a < index_of order b)"
    if "(a, b) \<in> (parent_rel ops)\<^sup>+" for a b
    using that
  proof (induction rule: trancl_induct)
    case (base b)
    then show ?case by (rule edge)
  next
    case (step b c)
    then show ?case using edge [of b c] by auto
  qed
  show ?thesis
    unfolding acyclic_def
  proof (intro allI notI)
    fix a assume "(a, a) \<in> (parent_rel ops)\<^sup>+"
    from pos [OF this] show False by simp
  qed
qed

lemma topo_total:
  assumes "distinct (op_ids ops)"
  shows "topo_order ops \<noteq> None \<longleftrightarrow> acyclic (parent_rel ops)"
proof
  assume "topo_order ops \<noteq> None"
  then obtain order where "topo_order ops = Some order" by blast
  from topo_linear [OF assms this] show "acyclic (parent_rel ops)" by (rule linear_acyclic)
next
  assume a: "acyclic (parent_rel ops)"
  let ?o = "topo_ref ops []"
  have p: "placed_ok ops ?o" "available ops ?o = []"
    using topo_ref_placed [OF assms, of "[]"] by (simp_all add: placed_ok_def)
  have "set (op_ids ops) \<subseteq> set ?o"
  proof (rule ccontr)
    assume "\<not> set (op_ids ops) \<subseteq> set ?o"
    then obtain z where "z \<in> set (op_ids ops) - set ?o" by blast
    from wfE_min [OF finite_acyclic_wf [OF finite_parent_rel a] this] obtain m
      where m: "m \<in> set (op_ids ops) - set ?o" "\<And>p. (p, m) \<in> parent_rel ops \<Longrightarrow> p \<notin> set (op_ids ops) - set ?o"
      by blast
    obtain op where op: "op \<in> set ops" "op_id op = m" using m(1) by (auto simp: op_ids_def)
    have "p \<in> set ?o" if "p \<in> set (inner_parents ops op)" for p
      using m(2) [of p] op that by (auto simp: inner_parents_def parent_rel_def)
    then have "m \<in> set (available ops ?o)" using m(1) op by (auto simp: available_mem)
    then show False using p(2) by simp
  qed
  then have "set ?o = set (op_ids ops)" using p(1) by (auto simp: placed_ok_def)
  then have "length ?o = length ops"
    using p(1) assms by (metis distinct_card length_map op_ids_def placed_ok_def)
  then show "topo_order ops \<noteq> None" by (simp add: topo_order_ref [OF assms])
qed

lemma sort_perm: "mset xs = mset ys \<Longrightarrow> sort xs = sort ys"
  by (simp flip: sorted_list_of_multiset_mset)

lemma available_perm:
  assumes "mset ops = mset ops'"
  shows "available ops order = available ops' order"
proof -
  have s: "set (op_ids ops) = set (op_ids ops')"
    using mset_eq_setD [OF assms] by (simp add: op_ids_def)
  have "inner_parents ops = inner_parents ops'" using s by (simp add: inner_parents_def fun_eq_iff)
  then show ?thesis unfolding available_def by (intro sort_perm) (simp add: assms)
qed

lemma topo_ref_perm:
  assumes "mset ops = mset ops'"
  shows "topo_ref ops order = topo_ref ops' order"
  using assms
proof (induction ops order rule: topo_ref.induct)
  case (1 ops order)
  show ?case
  proof (cases "available ops order")
    case Nil
    then show ?thesis using available_perm [OF "1.prems", of order]
      by (simp add: topo_ref.simps [of ops order] topo_ref.simps [of ops' order])
  next
    case (Cons i js)
    then show ?thesis using "1.IH" [OF Cons "1.prems"] available_perm [OF "1.prems", of order]
      by (simp add: topo_ref.simps [of ops order] topo_ref.simps [of ops' order])
  qed
qed

lemma topo_order_perm:
  assumes "mset ops = mset ops'" "distinct (op_ids ops)"
  shows "topo_order ops = topo_order ops'"
proof -
  have "mset (op_ids ops) = mset (op_ids ops')" using assms(1) by (simp add: op_ids_def)
  from mset_eq_imp_distinct_iff [OF this] have "distinct (op_ids ops')" using assms(2) by simp
  then show ?thesis
    using topo_ref_perm [OF assms(1), of "[]"] mset_eq_length [OF assms(1)]
    by (simp add: topo_order_ref [OF assms(2)] topo_order_ref)
qed

text \<open>C31: Kahn's algorithm is the reference order: it returns an order exactly when the parent
  pointers form no cycle, and then it is the greedy linear extension that places the smallest
  available id next, in which every op follows its admitted parents; the order in which the
  map yields the ops does not show.\<close>

theorem topo_order_is_reference:
  assumes "distinct (op_ids ops)"
  shows "topo_order ops = (if acyclic (parent_rel ops) then Some (topo_ref ops []) else None) \<and>
    (\<forall>order. topo_order ops = Some order \<longrightarrow> linear_extension ops order) \<and>
    (\<forall>ops'. mset ops = mset ops' \<longrightarrow> topo_order ops' = topo_order ops)"
proof (intro conjI allI impI)
  show "topo_order ops = (if acyclic (parent_rel ops) then Some (topo_ref ops []) else None)"
    using topo_total [OF assms] topo_order_ref [OF assms] by (auto split: if_splits)
  show "linear_extension ops order" if "topo_order ops = Some order" for order
    by (rule topo_linear [OF assms that])
  show "topo_order ops' = topo_order ops" if "mset ops = mset ops'" for ops'
    by (rule topo_order_perm [OF that assms, symmetric])
qed

end
