(* ===== verification/Dag_Engine.thy ===== *)
theory Dag_Engine
  imports Dag_Canonical Dag_Convergence Dag_Topo
begin

text \<open>
  The causal keyring engine, \<open>packages/keyeo-dag/src/engine.rs\<close>: admission, the pending buffer, the
  resolution walk with its quorum commits, events, checkpoints and compaction, with the
  \<open>StrongRemove\<close> resolver of \<open>Dag_Resolver\<close>.  The environment holds what is not this
  repository's: reachability of the graph library, signature verification, the encodings of the
  type parameters, and the iteration order that the hash map gives its entries.
\<close>

subsection \<open>State\<close>

record ('o, 'id, 'r, 'pk, 'sig) engine_env =
  en_reach :: "'o reach"
  en_verify :: "'pk \<Rightarrow> bytes \<Rightarrow> 'sig \<Rightarrow> bool"
  en_codec :: "('o, 'id, 'r, 'pk, 'sig) codec_env"
  en_order :: "('o, 'id, 'r, 'pk, 'sig) dag_op list \<Rightarrow> ('o, 'id, 'r, 'pk, 'sig) dag_op list"

record ('o, 'id, 'r, 'pk, 'sig) keyeo =
  k_state :: "('id, 'r, 'pk) group_state"
  k_genesis :: "('id, 'r, 'pk) group_state"
  k_graph :: "'o graph"
  k_ops :: "('o, 'id, 'r, 'pk, 'sig) dag_op list"
  k_pending :: "('o, 'id, 'r, 'pk, 'sig) dag_op list"
  k_access :: "('id, 'r, 'pk, 'sig) access_control"
  k_resolver :: "'o resolver_state"
  k_events :: "'id membership_event list"
  k_max_pending :: nat
  k_quorum :: "('id, 'r, 'pk, 'sig) quorum_policy"
  k_horizon :: "'o list"
  k_base_frontier :: "'o list"
  k_base_depths :: "('o \<times> nat) list"
  k_base_shared :: bool

datatype 'id keyeo_error =
    BadSignature | UnknownAuthor 'id | InvalidAction string | DagCycle | StaleFork | WrongGroup

datatype ('o, 'id) apply_outcome = Applied "'id membership_event list" | Buffered "'o list"

definition with_quorum ::
  "('id, 'r, 'pk) group_state \<Rightarrow> ('id, 'r, 'pk, 'sig) access_control \<Rightarrow> ('id, 'r, 'pk, 'sig) quorum_policy \<Rightarrow>
     ('o, 'id, 'r, 'pk, 'sig) keyeo" where
  "with_quorum s ac q =
     \<lparr>k_state = s, k_genesis = s, k_graph = graph_new, k_ops = [], k_pending = [], k_access = ac,
      k_resolver = resolver_default, k_events = [], k_max_pending = 1024, k_quorum = q, k_horizon = [],
      k_base_frontier = [], k_base_depths = [], k_base_shared = False\<rparr>"

definition keyeo_new ::
  "('id, 'r, 'pk) group_state \<Rightarrow> ('id, 'r, 'pk, 'sig) access_control \<Rightarrow> ('o, 'id, 'r, 'pk, 'sig) keyeo" where
  "keyeo_new s ac = with_quorum s ac individual"

definition keyeo_adopt ::
  "('id, 'r, 'pk) group_state \<Rightarrow> ('o \<times> nat) list \<Rightarrow> bool \<Rightarrow> ('id, 'r, 'pk, 'sig) access_control \<Rightarrow>
     ('id, 'r, 'pk, 'sig) quorum_policy \<Rightarrow> ('o, 'id, 'r, 'pk, 'sig) keyeo" where
  "keyeo_adopt s depths shared ac q =
     (let frontier = map fst depths
      in \<lparr>k_state = s, k_genesis = s, k_graph = foldl (\<lambda>g i. add_node i g) graph_new frontier, k_ops = [],
          k_pending = [], k_access = ac, k_resolver = seed_base depths resolver_default, k_events = [],
          k_max_pending = 1024, k_quorum = q, k_horizon = frontier, k_base_frontier = frontier,
          k_base_depths = depths, k_base_shared = shared\<rparr>)"

definition set_merge_horizon :: "'o list \<Rightarrow> ('o, 'id, 'r, 'pk, 'sig) keyeo \<Rightarrow> ('o, 'id, 'r, 'pk, 'sig) keyeo" where
  "set_merge_horizon frontier K = K\<lparr>k_horizon := frontier\<rparr>"

definition take_events ::
  "('o, 'id, 'r, 'pk, 'sig) keyeo \<Rightarrow> 'id membership_event list \<times> ('o, 'id, 'r, 'pk, 'sig) keyeo" where
  "take_events K = (k_events K, K\<lparr>k_events := []\<rparr>)"

definition engine_path :: "('o, 'id, 'r, 'pk, 'sig) engine_env \<Rightarrow> ('o, 'id, 'r, 'pk, 'sig) keyeo \<Rightarrow> 'o \<Rightarrow> 'o \<Rightarrow> bool" where
  "engine_path E K = has_path (en_reach E) (k_graph K)"

definition resolver_ctx ::
  "('o, 'id, 'r, 'pk, 'sig) engine_env \<Rightarrow> ('o, 'id, 'r, 'pk, 'sig) keyeo \<Rightarrow> ('o, 'id, 'r, 'pk, 'sig) rctx" where
  "resolver_ctx E K =
     \<lparr>rx_ops = k_ops K, rx_path = engine_path E K, rx_ac = k_access K, rx_genesis = k_genesis K\<rparr>"

subsection \<open>Authentication\<close>

definition authenticate ::
  "('o, 'id, 'r, 'pk, 'sig) engine_env \<Rightarrow> ('o, 'id, 'r, 'pk, 'sig) keyeo \<Rightarrow> ('o, 'id, 'r, 'pk, 'sig) dag_op \<Rightarrow>
     'id keyeo_error option" where
  "authenticate E K op =
     (let verified = (\<lambda>pk. if en_verify E pk (op_canonical (en_codec E) op) (op_sig op)
                           then None else Some BadSignature);
          member_key = (if bt_get (gs_members (k_state K)) (op_author op) = None
                        then Some (UnknownAuthor (op_author op)) else verified (op_key op))
      in case op_action op of
           Create inits \<Rightarrow>
             (case find (\<lambda>m. mi_id m = op_author op) inits of
                None \<Rightarrow> Some (UnknownAuthor (op_author op))
              | Some m \<Rightarrow> verified (mi_key m))
         | Add member _ _ _ _ \<Rightarrow> if member = op_author op then verified (op_key op) else member_key
         | ReFound _ _ _ _ \<Rightarrow> verified (op_key op)
         | RotateRecoveryAuthority _ \<Rightarrow> verified (op_key op)
         | _ \<Rightarrow> member_key)"

subsection \<open>The resolution walk\<close>

definition is_propose :: "bytes \<Rightarrow> ('id, 'r, 'pk, 'sig) action \<Rightarrow> ('id, 'r, 'pk, 'sig) action option" where
  "is_propose pid a = (case a of Propose p target \<Rightarrow> if p = pid then Some target else None | _ \<Rightarrow> None)"

text \<open>\<open>find_map\<close> over the map: the first surviving proposal of that id in the commit's past.\<close>

definition find_propose ::
  "('o, 'id, 'r, 'pk, 'sig) engine_env \<Rightarrow> ('o, 'id, 'r, 'pk, 'sig) keyeo \<Rightarrow> 'o list \<Rightarrow> 'o \<Rightarrow> bytes \<Rightarrow>
     ('o, 'id, 'r, 'pk, 'sig) dag_op option" where
  "find_propose E K ign cid pid =
     find (\<lambda>op. is_propose pid (op_action op) \<noteq> None \<and> op_id op \<notin> set ign \<and> engine_path E K (op_id op) cid) (k_ops K)"

definition approvers ::
  "('o, 'id, 'r, 'pk, 'sig) engine_env \<Rightarrow> ('o, 'id, 'r, 'pk, 'sig) keyeo \<Rightarrow> 'o list \<Rightarrow> 'o \<Rightarrow> bytes \<Rightarrow> 'id set \<Rightarrow>
     'id \<Rightarrow> 'id set" where
  "approvers E K ign cid pid eligible proposer =
     insert proposer (set (map op_author (filter (\<lambda>op. op_action op = Approve pid \<and> op_id op \<notin> set ign \<and>
       engine_path E K (op_id op) cid \<and> op_author op \<in> eligible) (k_ops K))))"

function quorum_target ::
  "('o::linorder, 'id::linorder, 'r, 'pk, 'sig) engine_env \<Rightarrow> ('o, 'id, 'r, 'pk, 'sig) keyeo \<Rightarrow> 'o list \<Rightarrow>
     'o list \<Rightarrow> 'o \<Rightarrow> bytes \<Rightarrow> ('id, 'r, 'pk, 'sig) action option"
  and resolved_excluding ::
  "('o::linorder, 'id::linorder, 'r, 'pk, 'sig) engine_env \<Rightarrow> ('o, 'id, 'r, 'pk, 'sig) keyeo \<Rightarrow> 'o list \<Rightarrow>
     'o list \<Rightarrow> 'o \<Rightarrow> 'o list \<Rightarrow> ('id, 'r, 'pk) group_state \<Rightarrow> ('id, 'r, 'pk) group_state" where
  "quorum_target E K ign visiting cid pid =
     (case find_propose E K ign cid pid of
        None \<Rightarrow> None
      | Some prop_op \<Rightarrow>
          (case is_propose pid (op_action prop_op) of
             None \<Rightarrow> None
           | Some target \<Rightarrow>
               (let s = (case topo_order (k_ops K) of
                           None \<Rightarrow> k_genesis K
                         | Some order \<Rightarrow> resolved_excluding E K ign visiting (op_id prop_op) order (k_genesis K));
                    eligible = qp_eligible (k_quorum K) s target
                in if op_author prop_op \<notin> eligible then None
                   else if satisfied_by (qp_requirement (k_quorum K) s target)
                          (approvers E K ign cid pid eligible (op_author prop_op))
                   then Some target else None)))"
| "resolved_excluding E K ign visiting pivot [] s = s"
| "resolved_excluding E K ign visiting pivot (i # order) s =
     (if i \<in> set ign \<or> engine_path E K pivot i then resolved_excluding E K ign visiting pivot order s
      else case find_op (k_ops K) i of
             None \<Rightarrow> resolved_excluding E K ign visiting pivot order s
           | Some op \<Rightarrow>
               resolved_excluding E K ign visiting pivot order
                 (if \<not> ac_authorized (k_access K) s (op_author op) (op_action op) then s
                  else case op_action op of
                         Commit pid \<Rightarrow>
                           if i \<in> set visiting then s
                           else (case quorum_target E K ign (i # visiting) i pid of
                                   None \<Rightarrow> s | Some target \<Rightarrow> fold_action target s)
                       | a \<Rightarrow> fold_action a s))"
  by pat_completeness auto

termination
  by (relation "measures
      [\<lambda>x. case x of Inl (E, K, ign, visiting, cid, pid) \<Rightarrow> card (set (op_ids (k_ops K)) - set visiting)
         | Inr (E, K, ign, visiting, pivot, order, s) \<Rightarrow> card (set (op_ids (k_ops K)) - set visiting),
       \<lambda>x. case x of Inl _ \<Rightarrow> 1 | Inr _ \<Rightarrow> 0,
       \<lambda>x. case x of Inl _ \<Rightarrow> 0 | Inr (E, K, ign, visiting, pivot, order, s) \<Rightarrow> length order]")
    (auto simp: ops_stack_less simp del: card_Diff_insert)

declare quorum_target.simps [simp del]

definition walk_step ::
  "('o::linorder, 'id::linorder, 'r, 'pk, 'sig) engine_env \<Rightarrow> ('o, 'id, 'r, 'pk, 'sig) keyeo \<Rightarrow> 'o list \<Rightarrow>
     ('id, 'r, 'pk) group_state \<times> 'o list \<Rightarrow> 'o \<Rightarrow> ('id, 'r, 'pk) group_state \<times> 'o list" where
  "walk_step E K ign st i =
     (if i \<in> set ign then st
      else case find_op (k_ops K) i of
             None \<Rightarrow> st
           | Some op \<Rightarrow>
               if \<not> ac_authorized (k_access K) (fst st) (op_author op) (op_action op) then st
               else (case (case op_action op of
                             Commit pid \<Rightarrow> quorum_target E K ign [i] i pid | a \<Rightarrow> Some a) of
                       None \<Rightarrow> st
                     | Some target \<Rightarrow>
                         (case apply_action (fst st) target of
                            Inl _ \<Rightarrow> st | Inr (s, _) \<Rightarrow> (s, snd st @ [i]))))"

definition resolve_walk ::
  "('o::linorder, 'id::linorder, 'r, 'pk, 'sig) engine_env \<Rightarrow> ('o, 'id, 'r, 'pk, 'sig) keyeo \<Rightarrow>
     'id keyeo_error + ('id, 'r, 'pk) group_state \<times> 'o list" where
  "resolve_walk E K =
     (case topo_order (k_ops K) of
        None \<Rightarrow> Inl DagCycle
      | Some order \<Rightarrow> Inr (foldl (walk_step E K (rs_ignore (k_resolver K))) (k_genesis K, []) order))"

definition effective_ops :: "('o::linorder, 'id::linorder, 'r, 'pk, 'sig) engine_env \<Rightarrow> ('o, 'id, 'r, 'pk, 'sig) keyeo \<Rightarrow> 'o list" where
  "effective_ops E K = (case resolve_walk E K of Inl _ \<Rightarrow> [] | Inr (_, eff) \<Rightarrow> eff)"

definition op_depths :: "('o::linorder, 'id::linorder, 'r, 'pk, 'sig) keyeo \<Rightarrow> ('o \<times> nat) list" where
  "op_depths K = compute_depths (k_ops K) (k_base_depths K)"

definition has_been_shared :: "('o::linorder, 'id::linorder, 'r, 'pk, 'sig) engine_env \<Rightarrow> ('o, 'id, 'r, 'pk, 'sig) keyeo \<Rightarrow> bool" where
  "has_been_shared E K \<longleftrightarrow>
     k_base_shared K \<or>
     list_ex (\<lambda>i. case find_op (k_ops K) i of
                    None \<Rightarrow> False
                  | Some op \<Rightarrow> (case op_action op of Add _ _ _ _ _ \<Rightarrow> True | _ \<Rightarrow> False)) (effective_ops E K)"

definition authorized_at_position ::
  "('o::linorder, 'id::linorder, 'r, 'pk, 'sig) engine_env \<Rightarrow> ('o, 'id, 'r, 'pk, 'sig) keyeo \<Rightarrow> 'o \<Rightarrow> bool option" where
  "authorized_at_position E K i = op_authorized_at_position (resolver_ctx E K) (k_base_depths K) i"

subsection \<open>Admission\<close>

definition diff_events :: "('id \<times> 'r) list \<Rightarrow> ('id \<times> 'r) list \<Rightarrow> 'id membership_event list" where
  "diff_events before after =
     concat (map (\<lambda>(i, r). case map_of (rev before) i of
                             None \<Rightarrow> [MemberAdded i]
                           | Some r' \<Rightarrow> if r' \<noteq> r then [RoleChanged i] else []) after) @
     map (\<lambda>(i, r). MemberRemoved i) (filter (\<lambda>(i, r). i \<notin> fst ` set after) before)"

definition admit_graph :: "('o, 'id, 'r, 'pk, 'sig) dag_op \<Rightarrow> 'o graph \<Rightarrow> 'o graph" where
  "admit_graph op g = foldl (\<lambda>g p. add_edge p (op_id op) g) g (op_parents op)"

text \<open>\<open>HashMap::insert\<close>: the entry of the key is replaced; the map then iterates as it likes.\<close>

definition ops_insert ::
  "('o, 'id, 'r, 'pk, 'sig) engine_env \<Rightarrow> ('o, 'id, 'r, 'pk, 'sig) dag_op \<Rightarrow> ('o, 'id, 'r, 'pk, 'sig) dag_op list \<Rightarrow>
     ('o, 'id, 'r, 'pk, 'sig) dag_op list" where
  "ops_insert E op ops = en_order E (op # filter (\<lambda>q. op_id q \<noteq> op_id op) ops)"

definition admitted ::
  "('o::linorder, 'id::linorder, 'r, 'pk, 'sig) engine_env \<Rightarrow> ('o, 'id, 'r, 'pk, 'sig) dag_op \<Rightarrow>
     ('o, 'id, 'r, 'pk, 'sig) keyeo \<Rightarrow> ('o, 'id, 'r, 'pk, 'sig) keyeo" where
  "admitted E op K =
     (let K1 = K\<lparr>k_graph := admit_graph op (k_graph K), k_ops := ops_insert E op (k_ops K)\<rparr>
      in K1\<lparr>k_resolver := process (resolver_ctx E K1) (k_resolver K1)\<rparr>)"

definition missing_parents :: "('o, 'id, 'r, 'pk, 'sig) keyeo \<Rightarrow> ('o, 'id, 'r, 'pk, 'sig) dag_op \<Rightarrow> 'o list" where
  "missing_parents K op =
     filter (\<lambda>p. p \<notin> set (op_ids (k_ops K)) \<and> p \<notin> set (k_base_frontier K)) (op_parents op)"

definition stale_fork :: "('o, 'id, 'r, 'pk, 'sig) engine_env \<Rightarrow> ('o, 'id, 'r, 'pk, 'sig) keyeo \<Rightarrow> ('o, 'id, 'r, 'pk, 'sig) dag_op \<Rightarrow> bool" where
  "stale_fork E K op \<longleftrightarrow>
     k_horizon K \<noteq> [] \<and> op_id op \<notin> set (op_ids (k_ops K)) \<and>
     \<not> list_ex (\<lambda>h. list_ex (\<lambda>p. p = h \<or> engine_path E K h p) (op_parents op)) (k_horizon K)"

definition keyeo_apply ::
  "('o::linorder, 'id::linorder, 'r, 'pk, 'sig) engine_env \<Rightarrow> ('o, 'id, 'r, 'pk, 'sig) dag_op \<Rightarrow>
     ('o, 'id, 'r, 'pk, 'sig) keyeo \<Rightarrow>
     ('id keyeo_error + ('o, 'id) apply_outcome) \<times> ('o, 'id, 'r, 'pk, 'sig) keyeo" where
  "keyeo_apply E op K =
     (if op_group op \<noteq> gs_group (k_genesis K) then (Inl WrongGroup, K)
      else if missing_parents K op \<noteq> [] then
        (if k_max_pending K \<le> length (k_pending K) then (Inl (InvalidAction ''pending buffer full''), K)
         else (Inr (Buffered (missing_parents K op)), K\<lparr>k_pending := k_pending K @ [op]\<rparr>))
      else
        (case authenticate E K op of
           Some e \<Rightarrow> (Inl e, K)
         | None \<Rightarrow>
             if stale_fork E K op then (Inl StaleFork, K)
             else
               (let K' = admitted E op K
                in case resolve_walk E K' of
                     Inl e \<Rightarrow> (Inl e, K')
                   | Inr (s, _) \<Rightarrow>
                       (let events = diff_events (active_members (k_state K)) (active_members s)
                        in (Inr (Applied events), K'\<lparr>k_state := s, k_events := k_events K' @ events\<rparr>)))))"

text \<open>One pass over the pending ops, which were taken out of the engine; an error ends it.\<close>

fun flush_pass ::
  "('o::linorder, 'id::linorder, 'r, 'pk, 'sig) engine_env \<Rightarrow> ('o, 'id, 'r, 'pk, 'sig) dag_op list \<Rightarrow>
     'id membership_event list \<Rightarrow> bool \<Rightarrow> ('o, 'id, 'r, 'pk, 'sig) dag_op list \<Rightarrow> ('o, 'id, 'r, 'pk, 'sig) keyeo \<Rightarrow>
     ('id keyeo_error +
        'id membership_event list \<times> bool \<times> ('o, 'id, 'r, 'pk, 'sig) dag_op list) \<times> ('o, 'id, 'r, 'pk, 'sig) keyeo" where
  "flush_pass E [] events applied remaining K = (Inr (events, applied, remaining), K)"
| "flush_pass E (op # ops) events applied remaining K =
     (case keyeo_apply E op K of
        (Inl e, K') \<Rightarrow> (Inl e, K')
      | (Inr (Applied evs), K') \<Rightarrow> flush_pass E ops (events @ evs) True remaining K'
      | (Inr (Buffered _), K') \<Rightarrow> flush_pass E ops events applied (remaining @ [op]) K')"

lemma flush_pass_length:
  "flush_pass E ops events applied remaining K = (Inr (evs, ap, rem), K') \<Longrightarrow>
     length rem \<le> length remaining + length ops \<and> (ap \<longrightarrow> \<not> applied \<longrightarrow> length rem < length remaining + length ops)"
proof (induction E ops events applied remaining K rule: flush_pass.induct)
  case (2 E op ops events applied remaining K)
  obtain r K1 where r: "keyeo_apply E op K = (r, K1)" by (cases "keyeo_apply E op K")
  show ?case
  proof (cases r)
    case (Inl e)
    then show ?thesis using "2.prems" r by simp
  next
    case (Inr out)
    then show ?thesis using "2.prems" "2.IH"(1) [OF r [symmetric]] "2.IH"(2) [OF r [symmetric]] r
      by (cases out) fastforce+
  qed
qed simp

function flush_loop ::
  "('o::linorder, 'id::linorder, 'r, 'pk, 'sig) engine_env \<Rightarrow> 'id membership_event list \<Rightarrow>
     ('o, 'id, 'r, 'pk, 'sig) keyeo \<Rightarrow>
     ('id keyeo_error + 'id membership_event list) \<times> ('o, 'id, 'r, 'pk, 'sig) keyeo" where
  "flush_loop E all_events K =
     (case flush_pass E (k_pending K) all_events False [] (K\<lparr>k_pending := []\<rparr>) of
        (Inl e, K') \<Rightarrow> (Inl e, K')
      | (Inr (events, applied, remaining), K') \<Rightarrow>
          if applied then flush_loop E events (K'\<lparr>k_pending := remaining\<rparr>)
          else (Inr events, K'\<lparr>k_pending := remaining\<rparr>))"
  by pat_completeness auto

termination
proof (relation "measure (\<lambda>(E, evs, K). length (k_pending K))", goal_cases)
  case (2 E evs K x K' y events z applied remaining)
  then have "flush_pass E (k_pending K) evs False [] (K\<lparr>k_pending := []\<rparr>) = (Inr (events, True, remaining), K')"
    by simp
  from flush_pass_length [OF this] show ?case by simp
qed simp

declare flush_loop.simps [simp del]

definition flush ::
  "('o::linorder, 'id::linorder, 'r, 'pk, 'sig) engine_env \<Rightarrow> ('o, 'id, 'r, 'pk, 'sig) keyeo \<Rightarrow>
     ('id keyeo_error + 'id membership_event list) \<times> ('o, 'id, 'r, 'pk, 'sig) keyeo" where
  "flush E K = flush_loop E [] K"

end
