(* ===== verification/Dag_Admission.thy ===== *)
theory Dag_Admission
  imports Dag_Engine
begin

text \<open>
  What holds of the causal keyring engine in every state it can reach, whatever ops arrive in
  whatever order: the invariant of \<open>packages/keyeo-dag/src/engine.rs\<close>, and convergence of the
  resolved membership.
\<close>

subsection \<open>The graph of the admitted ops\<close>

lemma acyclic_less: "(\<And>p c. (p, c) \<in> r \<Longrightarrow> p < c) \<Longrightarrow> acyclic r" for r :: "('o :: order \<times> 'o) set"
proof -
  assume l: "\<And>p c. (p, c) \<in> r \<Longrightarrow> p < c"
  have "a < b" if "(a, b) \<in> r\<^sup>+" for a b
    using that
  proof (induction rule: trancl_induct)
    case (step y z)
    then show ?case using l [of y z] by (metis less_trans)
  qed (rule l)
  then show ?thesis by (auto simp: acyclic_def)
qed

lemma has_path_causal:
  assumes "reach_ok R" "set (g_edges g) = parent_rel (rx_ops X)" "distinct (op_ids (rx_ops X))"
    "acyclic (parent_rel (rx_ops X))" "rx_path X = has_path R g"
  shows "causal X"
proof -
  have "has_path R g a b \<longleftrightarrow> (a, b) \<in> (parent_rel (rx_ops X))\<^sup>+" for a b
    using assms(1,2,4) by (auto simp: has_path_def reach_ok_def acyclic_def rtrancl_eq_or_trancl)
  then show ?thesis using assms by (simp add: causal_def)
qed

lemma admit_graph_edges:
  "set (g_edges (admit_graph op g)) = set (g_edges g) \<union> (\<lambda>p. (p, op_id op)) ` set (op_parents op)"
proof -
  have "set (g_edges (foldl (\<lambda>g p. add_edge p c g) g ps)) = set (g_edges g) \<union> (\<lambda>p. (p, c)) ` set ps" for c :: 'a and ps
    by (induction ps arbitrary: g) simp_all
  then show ?thesis by (simp add: admit_graph_def)
qed

lemma admitted_edges:
  "set (g_edges (foldl (\<lambda>g op. admit_graph op g) g ops)) = set (g_edges g) \<union> parent_rel ops"
  by (induction ops arbitrary: g) (auto simp: admit_graph_edges parent_rel_def)


subsection \<open>The invariant\<close>

text \<open>What the code relies on: the graph library decides reachability, a hash map yields its
  entries once each in some order.\<close>

definition env_ok :: "('o, 'id, 'r, 'pk, 'sig) engine_env \<Rightarrow> bool" where
  "env_ok E \<longleftrightarrow> reach_ok (en_reach E) \<and> (\<forall>ops. mset (en_order E ops) = mset ops)"

text \<open>The ops in circulation are content addressed: an id names one op, no op is its own parent,
  and none has the id of a pruned frontier op.\<close>

definition addressed :: "('o, 'id, 'r, 'pk, 'sig) dag_op set \<Rightarrow> 'o list \<Rightarrow> bool" where
  "addressed U frontier \<longleftrightarrow> inj_on op_id U \<and> (\<forall>op \<in> U. op_id op \<notin> set (op_parents op) \<and> op_id op \<notin> set frontier)"

definition engine_ok ::
  "('o::linorder, 'id::linorder, 'r, 'pk, 'sig) dag_op set \<Rightarrow> ('o, 'id, 'r, 'pk, 'sig) engine_env \<Rightarrow>
     ('o, 'id, 'r, 'pk, 'sig) keyeo \<Rightarrow> bool" where
  "engine_ok U E K \<longleftrightarrow>
     set (k_ops K) \<union> set (k_pending K) \<subseteq> U \<and> distinct (op_ids (k_ops K)) \<and>
     set (g_edges (k_graph K)) = parent_rel (k_ops K) \<and> acyclic (parent_rel (k_ops K)) \<and>
     (\<forall>op \<in> set (k_ops K). op_group op = gs_group (k_genesis K) \<and> missing_parents K op = []) \<and>
     length (k_pending K) \<le> k_max_pending K \<and> rs_base (k_resolver K) = k_base_depths K \<and>
     rs_ignore (k_resolver K) = ignored_ops (resolver_ctx E K) (k_base_depths K) \<and>
     map_option fst (case resolve_walk E K of Inl _ \<Rightarrow> None | Inr r \<Rightarrow> Some r) = Some (k_state K)"

lemma engine_causal:
  assumes "env_ok E" "engine_ok U E K"
  shows "causal (resolver_ctx E K)"
  by (rule has_path_causal [of "en_reach E" "k_graph K"])
    (use assms in \<open>simp_all add: env_ok_def engine_ok_def resolver_ctx_def engine_path_def\<close>)

subsection \<open>Admitting an op\<close>

lemma ops_insert_facts:
  assumes "env_ok E" "distinct (op_ids ops)"
  shows "set (ops_insert E op ops) = insert op {q \<in> set ops. op_id q \<noteq> op_id op}"
    "distinct (op_ids (ops_insert E op ops))"
proof -
  let ?l = "op # filter (\<lambda>q. op_id q \<noteq> op_id op) ops"
  have m: "mset (en_order E ?l) = mset ?l" using assms(1) by (simp add: env_ok_def)
  show "set (ops_insert E op ops) = insert op {q \<in> set ops. op_id q \<noteq> op_id op}"
    using mset_eq_setD [OF m] by (auto simp: ops_insert_def)
  have "mset (op_ids (en_order E ?l)) = mset (op_ids ?l)" using m by (simp add: op_ids_def)
  moreover have "distinct (op_ids ?l)" using assms(2) by (auto simp: op_ids_def distinct_map_filter)
  ultimately show "distinct (op_ids (ops_insert E op ops))"
    using mset_eq_imp_distinct_iff unfolding ops_insert_def by blast
qed

lemma admitted_simps [simp]:
  "k_ops (admitted E op K) = ops_insert E op (k_ops K)" "k_graph (admitted E op K) = admit_graph op (k_graph K)"
  "k_genesis (admitted E op K) = k_genesis K" "k_access (admitted E op K) = k_access K"
  "k_quorum (admitted E op K) = k_quorum K" "k_pending (admitted E op K) = k_pending K"
  "k_max_pending (admitted E op K) = k_max_pending K" "k_base_frontier (admitted E op K) = k_base_frontier K"
  "k_base_depths (admitted E op K) = k_base_depths K" "k_state (admitted E op K) = k_state K"
  "rs_base (k_resolver (admitted E op K)) = rs_base (k_resolver K)" "k_events (admitted E op K) = k_events K"
  "rs_ignore (k_resolver (admitted E op K)) = ignored_ops (resolver_ctx E (admitted E op K)) (rs_base (k_resolver K))"
  by (simp_all add: admitted_def Let_def process_def resolver_ctx_def engine_path_def)

lemma acyclic_extend:
  assumes "acyclic r" "\<And>p c. (p, c) \<in> s \<Longrightarrow> c = x \<and> p \<noteq> x" "\<And>c. (x, c) \<notin> r"
  shows "acyclic (r \<union> s)"
proof -
  have step: "b = x \<and> a \<noteq> x \<or> (a, b) \<in> r\<^sup>+" if "(a, b) \<in> (r \<union> s)\<^sup>+" for a b
    using that
  proof (induction rule: trancl_induct)
    case (base b)
    then show ?case using assms(2) by blast
  next
    case (step b c)
    have "b \<noteq> x" using step(2) assms(2,3) by blast
    then have ab: "(a, b) \<in> r\<^sup>+" using step(3) by blast
    then obtain d where "(a, d) \<in> r" by (auto dest: tranclD)
    then have "a \<noteq> x" using assms(3) by blast
    then show ?case using step(2) ab assms(2) by (auto intro: trancl_into_trancl)
  qed
  show ?thesis
    unfolding acyclic_def
  proof (intro allI notI)
    fix a assume "(a, a) \<in> (r \<union> s)\<^sup>+"
    from step [OF this] assms(1) show False by (auto simp: acyclic_def)
  qed
qed

text \<open>The state after admission, before the walk.\<close>

lemma admitted_ok:
  assumes "env_ok E" "engine_ok U E K" "addressed U (k_base_frontier K)" "op \<in> U"
    "op_group op = gs_group (k_genesis K)" "missing_parents K op = []"
  shows "set (ops_insert E op (k_ops K)) = insert op (set (k_ops K))"
    "parent_rel (ops_insert E op (k_ops K)) = parent_rel (k_ops K) \<union> (\<lambda>p. (p, op_id op)) ` set (op_parents op)"
    "acyclic (parent_rel (ops_insert E op (k_ops K)))"
    "q \<in> insert op (set (k_ops K)) \<Longrightarrow> missing_parents (admitted E op K) q = []"
proof -
  have d: "distinct (op_ids (k_ops K))" "set (k_ops K) \<subseteq> U" using assms(2) by (simp_all add: engine_ok_def)
  have same: "q = op" if "q \<in> set (k_ops K)" "op_id q = op_id op" for q
    using assms(3,4) d(2) that unfolding addressed_def by (meson inj_onD subsetD)
  show s: "set (ops_insert E op (k_ops K)) = insert op (set (k_ops K))"
    unfolding ops_insert_facts(1) [OF assms(1) d(1)] using same by auto
  show p: "parent_rel (ops_insert E op (k_ops K)) = parent_rel (k_ops K) \<union> (\<lambda>p. (p, op_id op)) ` set (op_parents op)"
    unfolding parent_rel_def s by auto
  have miss: "missing_parents K q = []" if "q \<in> insert op (set (k_ops K))" for q
    using that assms(2,6) by (auto simp: engine_ok_def)
  have closed: "p \<in> set (op_ids (k_ops K)) \<or> p \<in> set (k_base_frontier K)"
    if "q \<in> insert op (set (k_ops K))" "p \<in> set (op_parents q)" for p q
    using miss [OF that(1)] that(2) by (auto simp: missing_parents_def filter_empty_conv)
  have ids: "set (op_ids (ops_insert E op (k_ops K))) = insert (op_id op) (set (op_ids (k_ops K)))"
    by (simp add: op_ids_def s)
  show "missing_parents (admitted E op K) q = []" if "q \<in> insert op (set (k_ops K))"
    using closed [OF that] by (auto simp: missing_parents_def filter_empty_conv ids)
  have a: "acyclic (parent_rel (k_ops K))" using assms(2) by (simp add: engine_ok_def)
  show "acyclic (parent_rel (ops_insert E op (k_ops K)))"
  proof (cases "op \<in> set (k_ops K)")
    case True
    then have "parent_rel (ops_insert E op (k_ops K)) = parent_rel (k_ops K)" unfolding p by (auto simp: parent_rel_def)
    then show ?thesis using a by simp
  next
    case False
    have new: "op_id op \<notin> set (op_ids (k_ops K))" using same False by (auto simp: op_ids_def)
    have fresh: "op_id op \<notin> set (op_parents op)" "op_id op \<notin> set (k_base_frontier K)"
      using assms(3,4) by (simp_all add: addressed_def)
    have "(op_id op, c) \<notin> parent_rel (k_ops K)" for c
      using closed new fresh(2) by (fastforce simp: parent_rel_def)
    then show ?thesis unfolding p by (rule acyclic_extend [where x = "op_id op", OF a, rotated]) (use fresh(1) in auto)
  qed
qed

subsection \<open>Engines that walk alike\<close>

definition walk_sim ::
  "('o::linorder, 'id::linorder, 'r, 'pk, 'sig) engine_env \<Rightarrow> ('o, 'id, 'r, 'pk, 'sig) keyeo \<Rightarrow> 'o list \<Rightarrow>
     ('o, 'id, 'r, 'pk, 'sig) engine_env \<Rightarrow> ('o, 'id, 'r, 'pk, 'sig) keyeo \<Rightarrow> 'o list \<Rightarrow> bool" where
  "walk_sim E K ign F L ign' \<longleftrightarrow>
     (\<forall>cid pid. find_propose E K ign cid pid = find_propose F L ign' cid pid) \<and>
     (\<forall>cid pid el p. approvers E K ign cid pid el p = approvers F L ign' cid pid el p) \<and>
     topo_order (k_ops K) = topo_order (k_ops L) \<and> find_op (k_ops K) = find_op (k_ops L) \<and>
     engine_path E K = engine_path F L \<and> k_access K = k_access L \<and> k_genesis K = k_genesis L \<and>
     k_quorum K = k_quorum L \<and> set ign = set ign'"

lemma walk_simps:
  assumes "walk_sim E K ign F L ign'"
  shows "find_propose E K ign cid pid = find_propose F L ign' cid pid"
    "approvers E K ign cid pid el p = approvers F L ign' cid pid el p"
    "topo_order (k_ops K) = topo_order (k_ops L)" "find_op (k_ops K) = find_op (k_ops L)"
    "engine_path E K = engine_path F L" "k_access K = k_access L" "k_genesis K = k_genesis L"
    "k_quorum K = k_quorum L" "i \<in> set ign \<longleftrightarrow> i \<in> set ign'"
  using assms by (simp_all add: walk_sim_def)

lemma walk_cong:
  shows "walk_sim E K ign F L ign' \<Longrightarrow>
      quorum_target E K ign visiting cid pid = quorum_target F L ign' visiting cid pid"
    and "walk_sim E K ign F L ign' \<Longrightarrow>
      resolved_excluding E K ign visiting pivot order s = resolved_excluding F L ign' visiting pivot order s"
proof (induction E K ign visiting cid pid and E K ign visiting pivot order s
      rule: quorum_target_resolved_excluding.induct)
  case (1 E K ign visiting cid pid)
  note w = walk_simps [OF "1.prems"]
  show ?case
  proof (cases "find_propose F L ign' cid pid")
    case None
    then show ?thesis by (simp add: quorum_target.simps [of E K] quorum_target.simps [of F L] w)
  next
    case (Some prop_op)
    show ?thesis
    proof (cases "is_propose pid (op_action prop_op)")
      case None
      then show ?thesis by (simp add: quorum_target.simps [of E K] quorum_target.simps [of F L] w Some)
    next
      case target: (Some target)
      have "resolved_excluding E K ign visiting (op_id prop_op) order (k_genesis K) =
          resolved_excluding F L ign' visiting (op_id prop_op) order (k_genesis L)"
        if "topo_order (k_ops K) = Some order" for order
        using "1.IH" [OF _ target that "1.prems"] Some by (simp add: w)
      then show ?thesis
        by (cases "topo_order (k_ops L)")
          (simp_all add: quorum_target.simps [of E K] quorum_target.simps [of F L] w Some target Let_def)
    qed
  qed
next
  case (2 E K ign visiting pivot s)
  show ?case by simp
next
  case (3 E K ign visiting pivot i order s)
  note w = walk_simps [OF "3.prems"]
  show ?case
  proof (cases "i \<in> set ign \<or> engine_path E K pivot i")
    case True
    then show ?thesis using "3.IH"(1) [OF True "3.prems"] by (auto simp: w)
  next
    case False
    note skip = False
    show ?thesis
    proof (cases "find_op (k_ops K) i")
      case None
      then show ?thesis using "3.IH"(2) [OF skip None "3.prems"] skip by (simp add: w)
    next
      case (Some op)
      have q: "quorum_target E K ign (i # visiting) i pid = quorum_target F L ign' (i # visiting) i pid"
        if "op_action op = Commit pid" "ac_authorized (k_access K) s (op_author op) (op_action op)" "i \<notin> set visiting" for pid
        using "3.IH"(3) [OF skip Some _ that(1) that(3) "3.prems"] that(2) by simp
      let ?next = "\<lambda>E K ign. if \<not> ac_authorized (k_access K) s (op_author op) (op_action op) then s
        else case op_action op of
               Commit pid \<Rightarrow>
                 if i \<in> set visiting then s
                 else (case quorum_target E K ign (i # visiting) i pid of
                         None \<Rightarrow> s | Some target \<Rightarrow> fold_action target s)
             | a \<Rightarrow> fold_action a s"
      have "?next E K ign = ?next F L ign'"
        using q by (cases "op_action op") (simp_all add: w)
      then show ?thesis using "3.IH"(4) [OF skip Some "3.prems"] skip Some by (simp add: w)
    qed
  qed
qed

lemma walk_step_cong:
  assumes "walk_sim E K ign F L ign'"
  shows "walk_step E K ign = walk_step F L ign'"
proof -
  note w = walk_simps [OF assms] and q = walk_cong(1) [OF assms]
  have "walk_step E K ign st i = walk_step F L ign' st i" for st i
    unfolding walk_step_def w q ..
  then show ?thesis by (simp add: fun_eq_iff)
qed

lemma resolve_walk_cong:
  assumes "walk_sim E K (rs_ignore (k_resolver K)) F L (rs_ignore (k_resolver L))"
  shows "resolve_walk E K = resolve_walk F L"
  unfolding resolve_walk_def walk_simps(3,7) [OF assms] walk_step_cong [OF assms] ..

text \<open>The walk reads neither the buffers nor the resolved state it replaces.\<close>

lemma walk_frame [simp]:
  "resolve_walk E (K\<lparr>k_pending := p\<rparr>) = resolve_walk E K"
  "resolve_walk E (K\<lparr>k_state := s\<rparr>) = resolve_walk E K"
  "resolve_walk E (K\<lparr>k_horizon := h\<rparr>) = resolve_walk E K"
  "resolve_walk E (K\<lparr>k_events := ev\<rparr>) = resolve_walk E K"
  by (rule resolve_walk_cong, simp add: walk_sim_def find_propose_def approvers_def engine_path_def fun_eq_iff)+

lemma ctx_frame [simp]:
  "resolver_ctx E (K\<lparr>k_pending := p\<rparr>) = resolver_ctx E K"
  "resolver_ctx E (K\<lparr>k_state := s\<rparr>) = resolver_ctx E K"
  "resolver_ctx E (K\<lparr>k_horizon := h\<rparr>) = resolver_ctx E K"
  "resolver_ctx E (K\<lparr>k_events := ev\<rparr>) = resolver_ctx E K"
  by (simp_all add: resolver_ctx_def engine_path_def)

lemma missing_frame [simp]:
  "missing_parents (K\<lparr>k_pending := p\<rparr>) = missing_parents K"
  "missing_parents (K\<lparr>k_state := s\<rparr>) = missing_parents K"
  "missing_parents (K\<lparr>k_horizon := h\<rparr>) = missing_parents K"
  "missing_parents (K\<lparr>k_events := ev\<rparr>) = missing_parents K"
  by (simp_all add: missing_parents_def fun_eq_iff)

lemma engine_ok_frame:
  "engine_ok U E K \<Longrightarrow> set p \<subseteq> U \<Longrightarrow> length p \<le> k_max_pending K \<Longrightarrow> engine_ok U E (K\<lparr>k_pending := p\<rparr>)"
  "engine_ok U E K \<Longrightarrow> engine_ok U E (K\<lparr>k_horizon := h\<rparr>)"
  "engine_ok U E K \<Longrightarrow> engine_ok U E (K\<lparr>k_events := ev\<rparr>)"
  by (simp_all add: engine_ok_def)

lemma walk_total:
  assumes "distinct (op_ids (k_ops K))" "acyclic (parent_rel (k_ops K))"
  obtains s eff where "resolve_walk E K = Inr (s, eff)"
proof -
  obtain order where "topo_order (k_ops K) = Some order" using topo_total [OF assms(1)] assms(2) by blast
  then show thesis using that by (cases "foldl (walk_step E K (rs_ignore (k_resolver K))) (k_genesis K, []) order")
    (simp add: resolve_walk_def)
qed

subsection \<open>Every operation keeps the invariant\<close>

lemma apply_cases:
  assumes "env_ok E" "engine_ok U E K" "addressed U (k_base_frontier K)" "op \<in> U"
  obtains (Refused) e where "keyeo_apply E op K = (Inl e, K)"
  | (Buffers) ps where "keyeo_apply E op K = (Inr (Buffered ps), K\<lparr>k_pending := k_pending K @ [op]\<rparr>)"
      "length (k_pending K) < k_max_pending K" "ps = missing_parents K op" "ps \<noteq> []"
  | (Applies) s eff where "resolve_walk E (admitted E op K) = Inr (s, eff)"
      "keyeo_apply E op K =
        (let events = diff_events (active_members (k_state K)) (active_members s)
         in (Inr (Applied events), (admitted E op K)\<lparr>k_state := s, k_events := k_events K @ events\<rparr>))"
      "op_group op = gs_group (k_genesis K)" "missing_parents K op = []"
proof (cases "op_group op \<noteq> gs_group (k_genesis K) \<or> missing_parents K op \<noteq> [] \<or> authenticate E K op \<noteq> None \<or> stale_fork E K op")
  case True
  consider (group) "op_group op \<noteq> gs_group (k_genesis K)"
    | (full) "op_group op = gs_group (k_genesis K)" "missing_parents K op \<noteq> []" "k_max_pending K \<le> length (k_pending K)"
    | (room) "op_group op = gs_group (k_genesis K)" "missing_parents K op \<noteq> []" "\<not> k_max_pending K \<le> length (k_pending K)"
    | (auth) e where "op_group op = gs_group (k_genesis K)" "missing_parents K op = []" "authenticate E K op = Some e"
    | (stale) "op_group op = gs_group (k_genesis K)" "missing_parents K op = []" "authenticate E K op = None" "stale_fork E K op"
    using True by blast
  then show thesis
  proof cases
    case group
    then show ?thesis by (intro Refused) (simp add: keyeo_apply_def)
  next
    case full
    then show ?thesis by (intro Refused) (simp add: keyeo_apply_def)
  next
    case room
    then show ?thesis by (intro Buffers) (simp_all add: keyeo_apply_def)
  next
    case auth
    then show ?thesis by (intro Refused) (simp add: keyeo_apply_def)
  next
    case stale
    then show ?thesis by (intro Refused) (simp add: keyeo_apply_def)
  qed
next
  case False
  then have f: "op_group op = gs_group (k_genesis K)" "missing_parents K op = []" by simp_all
  note a = admitted_ok [OF assms f]
  have "distinct (op_ids (k_ops (admitted E op K)))"
    using ops_insert_facts(2) [OF assms(1)] assms(2) by (simp add: engine_ok_def)
  moreover have "acyclic (parent_rel (k_ops (admitted E op K)))" using a(3) by simp
  ultimately obtain s eff where w: "resolve_walk E (admitted E op K) = Inr (s, eff)" by (rule walk_total)
  show thesis
    by (rule Applies [OF w _ f]) (use False w in \<open>auto simp: keyeo_apply_def Let_def\<close>)
qed

lemma apply_keeps_ok:
  assumes "env_ok E" "engine_ok U E K" "addressed U (k_base_frontier K)" "op \<in> U"
  shows "engine_ok U E (snd (keyeo_apply E op K))"
  using assms
proof (cases rule: apply_cases)
  case (Refused e)
  then show ?thesis using assms(2) by simp
next
  case (Buffers ps)
  then show ?thesis using assms(2,4) engine_ok_frame(1) [OF assms(2), of "k_pending K @ [op]"]
    by (simp add: engine_ok_def)
next
  case (Applies s eff)
  note a = admitted_ok [OF assms Applies(3,4)]
  have "distinct (op_ids (ops_insert E op (k_ops K)))"
    using ops_insert_facts(2) [OF assms(1)] assms(2) by (simp add: engine_ok_def)
  then show ?thesis
    using assms(2,4) Applies a by (auto simp: engine_ok_def Let_def admit_graph_edges)
qed

lemma frontier_frame:
  "k_base_frontier (snd (keyeo_apply E op K)) = k_base_frontier K"
  "k_max_pending (snd (keyeo_apply E op K)) = k_max_pending K"
  by (auto simp: keyeo_apply_def Let_def split: option.split sum.split)

lemma flush_pass_keeps:
  assumes "env_ok E"
  shows "flush_pass E ops evs ap rem K = (r, K') \<Longrightarrow> engine_ok U E K \<Longrightarrow> addressed U (k_base_frontier K) \<Longrightarrow>
     set ops \<union> set rem \<subseteq> U \<Longrightarrow>
     engine_ok U E K' \<and> k_base_frontier K' = k_base_frontier K \<and> k_max_pending K' = k_max_pending K \<and>
     (case r of Inl _ \<Rightarrow> True | Inr x \<Rightarrow> set (snd (snd x)) \<subseteq> U)"
proof (induction ops arbitrary: evs ap rem K)
  case (Cons op ops)
  obtain r1 K1 where r1: "keyeo_apply E op K = (r1, K1)" by (cases "keyeo_apply E op K")
  have ok: "engine_ok U E K1" "k_base_frontier K1 = k_base_frontier K" "k_max_pending K1 = k_max_pending K"
    using apply_keeps_ok [OF assms Cons.prems(2,3), of op] Cons.prems(4) frontier_frame [of E op K] r1 by auto
  show ?case
  proof (cases r1)
    case (Inl e)
    then show ?thesis using Cons.prems(1) ok r1 by auto
  next
    case (Inr out)
    show ?thesis
    proof (cases out)
      case (Applied es)
      then have "flush_pass E ops (evs @ es) True rem K1 = (r, K')" using Cons.prems(1) r1 Inr by simp
      from Cons.IH [OF this ok(1)] Cons.prems(3,4) ok(2,3) show ?thesis by simp
    next
      case (Buffered ps)
      then have "flush_pass E ops evs ap (rem @ [op]) K1 = (r, K')" using Cons.prems(1) r1 Inr by simp
      from Cons.IH [OF this ok(1)] Cons.prems(3,4) ok(2,3) show ?thesis by simp
    qed
  qed
qed auto

lemma flush_loop_keeps:
  assumes "env_ok E"
  shows "engine_ok U E K \<Longrightarrow> addressed U (k_base_frontier K) \<Longrightarrow>
     engine_ok U E (snd (flush_loop E evs K)) \<and> k_base_frontier (snd (flush_loop E evs K)) = k_base_frontier K"
proof (induction "length (k_pending K)" arbitrary: K evs rule: less_induct)
  case less
  let ?K = "K\<lparr>k_pending := []\<rparr>"
  obtain r K1 where r: "flush_pass E (k_pending K) evs False [] ?K = (r, K1)"
    by (cases "flush_pass E (k_pending K) evs False [] ?K")
  have "engine_ok U E ?K" using less(2) by (intro engine_ok_frame(1)) simp_all
  then have k: "engine_ok U E K1" "k_base_frontier K1 = k_base_frontier K" "k_max_pending K1 = k_max_pending K"
      "case r of Inl _ \<Rightarrow> True | Inr x \<Rightarrow> set (snd (snd x)) \<subseteq> U"
    using flush_pass_keeps [OF assms r, of U] less(2,3) by (simp_all add: engine_ok_def)
  show ?case
  proof (cases r)
    case (Inl e)
    then show ?thesis using k r by (simp add: flush_loop.simps [of E evs K])
  next
    case (Inr x)
    obtain es ap rem where x: "x = (es, ap, rem)" by (cases x)
    have len: "length rem \<le> length (k_pending K)" "ap \<Longrightarrow> length rem < length (k_pending K)"
      using flush_pass_length [OF r [unfolded Inr x]] by simp_all
    have pending: "length (k_pending K) \<le> k_max_pending K" using less(2) by (simp add: engine_ok_def)
    have "set rem \<subseteq> U" using k(4) Inr x by simp
    then have ok: "engine_ok U E (K1\<lparr>k_pending := rem\<rparr>)"
      using len(1) pending k(3) by (intro engine_ok_frame(1) [OF k(1)]) simp_all
    show ?thesis
    proof (cases ap)
      case True
      then show ?thesis using less(1) [of "K1\<lparr>k_pending := rem\<rparr>" es] len(2) ok k(2) less(3) r Inr x
        by (simp add: flush_loop.simps [of E evs K])
    next
      case False
      then show ?thesis using ok k(2) r Inr x by (simp add: flush_loop.simps [of E evs K])
    qed
  qed
qed

subsection \<open>Reachable engines\<close>

inductive engine_step ::
  "('o::linorder, 'id::linorder, 'r, 'pk, 'sig) dag_op set \<Rightarrow> ('o, 'id, 'r, 'pk, 'sig) engine_env \<Rightarrow>
     ('o, 'id, 'r, 'pk, 'sig) keyeo \<Rightarrow> ('o, 'id, 'r, 'pk, 'sig) keyeo \<Rightarrow> bool" for U E where
  step_apply: "op \<in> U \<Longrightarrow> engine_step U E K (snd (keyeo_apply E op K))"
| step_flush: "engine_step U E K (snd (flush E K))"
| step_horizon: "engine_step U E K (set_merge_horizon h K)"
| step_events: "engine_step U E K (snd (take_events K))"

inductive engine_reachable ::
  "('o::linorder, 'id::linorder, 'r, 'pk, 'sig) dag_op set \<Rightarrow> ('o, 'id, 'r, 'pk, 'sig) engine_env \<Rightarrow>
     ('o, 'id, 'r, 'pk, 'sig) keyeo \<Rightarrow> ('o, 'id, 'r, 'pk, 'sig) keyeo \<Rightarrow> bool" for U E K0 where
  reach_start: "engine_reachable U E K0 K0"
| reach_step: "engine_reachable U E K0 K \<Longrightarrow> engine_step U E K K' \<Longrightarrow> engine_reachable U E K0 K'"

lemma step_keeps_ok:
  assumes "engine_step U E K K'" "env_ok E" "engine_ok U E K" "addressed U (k_base_frontier K)"
  shows "engine_ok U E K' \<and> k_base_frontier K' = k_base_frontier K"
  using assms(1)
proof cases
  case (step_apply op)
  then show ?thesis using apply_keeps_ok [OF assms(2-4)] frontier_frame(1) by simp
next
  case step_flush
  then show ?thesis using flush_loop_keeps [OF assms(2-4)] by (simp add: flush_def)
next
  case (step_horizon h)
  then show ?thesis using engine_ok_frame(2) [OF assms(3)] by (simp add: set_merge_horizon_def)
next
  case step_events
  then show ?thesis using engine_ok_frame(3) [OF assms(3)] by (simp add: take_events_def)
qed

lemma reachable_ok:
  assumes "engine_reachable U E K0 K" "env_ok E" "engine_ok U E K0" "addressed U (k_base_frontier K0)"
  shows "engine_ok U E K \<and> k_base_frontier K = k_base_frontier K0"
  using assms(1)
proof (induction rule: engine_reachable.induct)
  case reach_start
  then show ?case using assms(3) by simp
next
  case (reach_step K K')
  then show ?case using step_keeps_ok [OF reach_step(2) assms(2), of] assms(4) by simp
qed

lemma with_quorum_adopt: "with_quorum s ac q = keyeo_adopt s [] False ac q"
  by (simp add: with_quorum_def keyeo_adopt_def seed_base_def resolver_default_def)

lemma no_ops_ignored: "rx_ops X = [] \<Longrightarrow> ignored_ops X base = []"
  using ignored_ids [of X base] by (simp add: op_ids_def)

lemma adopt_ok: "engine_ok U E (keyeo_adopt s depths shared ac q)"
proof -
  let ?K = "keyeo_adopt s depths shared ac q"
  have "g_edges (foldl (\<lambda>g i. add_node i g) g xs) = g_edges g" for g :: "'a graph" and xs
    by (induction xs arbitrary: g) simp_all
  then have e: "g_edges (k_graph ?K) = []" by (simp add: keyeo_adopt_def graph_new_def Let_def)
  have "topo_order ([] :: ('a, 'b, 'c, 'd, 'e) dag_op list) = Some []"
    by (simp add: topo_order_def op_ids_def)
  then have "resolve_walk E ?K = Inr (s, [])" by (simp add: resolve_walk_def keyeo_adopt_def Let_def)
  moreover have "ignored_ops (resolver_ctx E ?K) depths = []"
    by (rule no_ops_ignored) (simp add: resolver_ctx_def keyeo_adopt_def Let_def)
  ultimately show ?thesis using e
    by (simp add: engine_ok_def) (simp add: keyeo_adopt_def Let_def op_ids_def parent_rel_def acyclic_def seed_base_def resolver_default_def)
qed

text \<open>C32: whatever content-addressed ops arrive in whatever order, with flushes between, the
  engine holds each op once, only ops of its own group and only with their parents; its graph
  has no cycle, its buffer stays within bounds, and its membership is what the resolution walk
  over the admitted ops yields: the walk never fails.\<close>

theorem engine_invariant:
  assumes "env_ok E" "addressed U (map fst depths)"
    "engine_reachable U E (keyeo_adopt s depths shared ac q) K"
  shows "distinct (op_ids (k_ops K)) \<and> acyclic (parent_rel (k_ops K)) \<and>
    (\<forall>op. op \<in> set (k_ops K) \<longrightarrow> op_group op = gs_group (k_genesis K) \<and> missing_parents K op = []) \<and>
    length (k_pending K) \<le> k_max_pending K \<and>
    rs_ignore (k_resolver K) = ignored_ops (resolver_ctx E K) (k_base_depths K) \<and>
    (\<exists>eff. resolve_walk E K = Inr (k_state K, eff))"
proof -
  have "addressed U (k_base_frontier (keyeo_adopt s depths shared ac q))"
    using assms(2) by (simp add: keyeo_adopt_def Let_def)
  from reachable_ok [OF assms(3,1) adopt_ok this] have "engine_ok U E K" by simp
  then show ?thesis by (auto simp: engine_ok_def split: sum.splits)
qed

subsection \<open>Convergence\<close>

text \<open>What an engine is constructed with and never changes.\<close>

definition config ::
  "('o, 'id, 'r, 'pk, 'sig) keyeo \<Rightarrow> ('id, 'r, 'pk) group_state \<times> ('id, 'r, 'pk, 'sig) access_control \<times>
     ('id, 'r, 'pk, 'sig) quorum_policy \<times> ('o \<times> nat) list \<times> 'o list" where
  "config K = (k_genesis K, k_access K, k_quorum K, k_base_depths K, k_base_frontier K)"

lemma config_simps [simp]:
  "config (K\<lparr>k_pending := p\<rparr>) = config K" "config (K\<lparr>k_state := s\<rparr>) = config K"
  "config (K\<lparr>k_events := ev\<rparr>) = config K" "config (K\<lparr>k_horizon := h\<rparr>) = config K"
  "config (admitted E op K) = config K"
  by (simp_all add: config_def)

lemma apply_config [simp]: "config (snd (keyeo_apply E op K)) = config K"
  by (auto simp: keyeo_apply_def Let_def split: option.split sum.split)

lemma flush_pass_config: "config (snd (flush_pass E ops evs ap rem K)) = config K"
proof (induction E ops evs ap rem K rule: flush_pass.induct)
  case (2 E op ops evs ap rem K)
  obtain r1 K1 where r1: "keyeo_apply E op K = (r1, K1)" by (cases "keyeo_apply E op K")
  have "config K1 = config K" using apply_config [of E op K] by (simp add: r1)
  then show ?case using "2.IH"(1) [OF r1 [symmetric]] "2.IH"(2) [OF r1 [symmetric]]
    by (simp add: r1 split: sum.split apply_outcome.split)
qed simp

lemma flush_loop_config: "config (snd (flush_loop E evs K)) = config K"
proof (induction E evs K rule: flush_loop.induct)
  case (1 E evs K)
  obtain r K1 where r: "flush_pass E (k_pending K) evs False [] (K\<lparr>k_pending := []\<rparr>) = (r, K1)"
    by (cases "flush_pass E (k_pending K) evs False [] (K\<lparr>k_pending := []\<rparr>)")
  have c: "config K1 = config K" using flush_pass_config [of E "k_pending K" evs False "[]" "K\<lparr>k_pending := []\<rparr>"] by (simp add: r)
  show ?case
  proof (cases r)
    case (Inl e)
    then show ?thesis using c r by (simp add: flush_loop.simps [of E evs K])
  next
    case (Inr x)
    obtain es ap rem where x: "x = (es, ap, rem)" by (cases x)
    show ?thesis
      using "1.IH" [OF r [symmetric] Inr x [symmetric] refl] c r Inr x by (cases ap) (simp_all add: flush_loop.simps [of E evs K])
  qed
qed

lemma reachable_config: "engine_reachable U E K0 K \<Longrightarrow> config K = config K0"
proof (induction rule: engine_reachable.induct)
  case (reach_step K K')
  from reach_step(2) have "config K' = config K"
    by cases (simp_all add: flush_def flush_loop_config set_merge_horizon_def take_events_def)
  then show ?case using reach_step by simp
qed simp

text \<open>No two proposals of one id.\<close>

definition proposals_unique :: "('o, 'id, 'r, 'pk, 'sig) dag_op list \<Rightarrow> bool" where
  "proposals_unique ops \<longleftrightarrow>
     (\<forall>x \<in> set ops. \<forall>y \<in> set ops. \<forall>pid. is_propose pid (op_action x) \<noteq> None \<longrightarrow>
        is_propose pid (op_action y) \<noteq> None \<longrightarrow> x = y)"

lemma find_unique:
  assumes "set xs = set ys" "\<And>x y. x \<in> set xs \<Longrightarrow> y \<in> set xs \<Longrightarrow> P x \<Longrightarrow> P y \<Longrightarrow> x = y"
  shows "find P xs = find P ys"
proof (cases "find P xs")
  case None
  then have "find P ys = None" using assms(1) by (simp add: find_None_iff)
  then show ?thesis using None by simp
next
  case (Some x)
  then have x: "x \<in> set xs" "P x" by (auto simp: find_Some_iff)
  then obtain y where y: "find P ys = Some y" using assms(1) by (cases "find P ys") (auto simp: find_None_iff)
  then have "y \<in> set xs" "P y" using assms(1) by (auto simp: find_Some_iff)
  then show ?thesis using assms(2) [OF x(1) _ x(2)] Some y by simp
qed

lemma walk_sim_intro:
  assumes "mset (k_ops K) = mset (k_ops L)" "distinct (op_ids (k_ops K))" "proposals_unique (k_ops K)"
    "engine_path E K = engine_path F L" "config K = config L" "set ign = set ign'"
  shows "walk_sim E K ign F L ign'"
proof -
  have s: "set (k_ops K) = set (k_ops L)" using mset_eq_setD [OF assms(1)] .
  have "find_propose E K ign cid pid = find_propose F L ign' cid pid" for cid pid
    unfolding find_propose_def assms(4,6)
    by (rule find_unique [OF s]) (use assms(3) in \<open>auto simp: proposals_unique_def\<close>)
  moreover have "approvers E K ign cid pid el p = approvers F L ign' cid pid el p" for cid pid el p
    using s by (simp add: approvers_def assms(4,6))
  moreover have "find_op (k_ops K) = find_op (k_ops L)"
  proof
    fix i show "find_op (k_ops K) i = find_op (k_ops L) i"
      unfolding find_op_def
      by (rule find_unique [OF s]) (use assms(2) in \<open>auto simp: op_ids_def distinct_map dest: inj_onD\<close>)
  qed
  moreover have "topo_order (k_ops K) = topo_order (k_ops L)" by (rule topo_order_perm [OF assms(1,2)])
  ultimately show ?thesis using assms(4-6) by (simp add: walk_sim_def config_def)
qed

lemma same_ops_same_path:
  assumes "env_ok E" "env_ok F" "engine_ok U E K" "engine_ok U F L" "set (k_ops K) = set (k_ops L)"
  shows "engine_path E K = engine_path F L" "mset (k_ops K) = mset (k_ops L)"
proof -
  have "set (g_edges (k_graph K)) = set (g_edges (k_graph L))"
    using assms(3-5) by (simp add: engine_ok_def parent_rel_def)
  then show "engine_path E K = engine_path F L"
    using assms(1,2) by (simp add: env_ok_def engine_path_def has_path_def reach_ok_def fun_eq_iff)
  have "distinct (k_ops K)" "distinct (k_ops L)"
    using assms(3,4) by (auto simp: engine_ok_def op_ids_def distinct_map)
  then show "mset (k_ops K) = mset (k_ops L)" using assms(5) by (simp add: set_eq_iff_mset_eq_distinct)
qed

text \<open>C33: strong eventual consistency.  Two engines of one group that admitted the same ops, in
  different orders, with different arrivals buffered and different hash seeds, resolve the same
  membership and the same effective ops, provided that no member's presence is tied and that
  no proposal id is used twice.\<close>

theorem membership_converges:
  assumes "env_ok E" "env_ok F" "addressed U (map fst depths)"
    "engine_reachable U E (keyeo_adopt s depths shared ac q) K"
    "engine_reachable U F (keyeo_adopt s depths shared ac q) L"
    "set (k_ops K) = set (k_ops L)"
    "untied (resolver_ctx E K) depths" "proposals_unique (k_ops K)"
  shows "k_state K = k_state L \<and> effective_ops E K = effective_ops F L"
proof -
  have fr: "addressed U (k_base_frontier (keyeo_adopt s depths shared ac q))"
    using assms(3) by (simp add: keyeo_adopt_def Let_def)
  have K: "engine_ok U E K" and L: "engine_ok U F L"
    using reachable_ok [OF assms(4,1) adopt_ok fr] reachable_ok [OF assms(5,2) adopt_ok fr] by simp_all
  have c: "config K = config L" using reachable_config [OF assms(4)] reachable_config [OF assms(5)] by simp
  have base: "k_base_depths K = depths" "k_base_depths L = depths"
    using reachable_config [OF assms(4)] reachable_config [OF assms(5)] by (simp_all add: config_def keyeo_adopt_def Let_def)
  note p = same_ops_same_path [OF assms(1,2) K L assms(6)]
  have dag: "same_dag (resolver_ctx E K) (resolver_ctx F L)"
    using p c by (simp add: same_dag_def resolver_ctx_def config_def)
  have "set (ignored_ops (resolver_ctx E K) depths) = set (ignored_ops (resolver_ctx F L) depths)"
    by (rule sim_ignored [OF ctx_sim_intro [OF dag engine_causal [OF assms(1) K] assms(7)]])
      (use dag in \<open>simp add: same_dag_def\<close>)
  then have ign: "set (rs_ignore (k_resolver K)) = set (rs_ignore (k_resolver L))"
    using K L base by (simp add: engine_ok_def)
  have "distinct (op_ids (k_ops K))" using K by (simp add: engine_ok_def)
  then have "resolve_walk E K = resolve_walk F L"
    by (intro resolve_walk_cong walk_sim_intro [OF p(2) _ assms(8) p(1) c ign])
  then show ?thesis using K L by (auto simp: engine_ok_def effective_ops_def)
qed

end
