(* ===== verification/Dag_Compaction.thy ===== *)
theory Dag_Compaction
  imports Dag_Admission
begin

text \<open>
  Compaction of the causal engine: \<open>packages/keyeo-dag/src/gc.rs\<close> and the \<open>Compaction\<close> impl of
  \<open>engine.rs\<close>.  The view it works on holds the ops, the causal order, the resolved state and the
  shared marker.
\<close>

subsection \<open>The decision\<close>

record ('o, 'id, 'r, 'pk, 'sig) retained_view =
  rt_ops :: "('o, 'id, 'r, 'pk, 'sig) dag_op list"
  rt_path :: "'o \<Rightarrow> 'o \<Rightarrow> bool"
  rt_state :: "('id, 'r, 'pk) group_state"
  rt_shared :: bool

record ('o, 'id, 'r, 'pk) dag_compacted =
  dc_frontier :: "'o list"
  dc_state :: "('id, 'r, 'pk) group_state"
  dc_shared :: bool
  dc_prune :: "'o list"

datatype 'o compaction_error = EmptyFrontier | NonDominating 'o

definition retained ::
  "('o::linorder, 'id::linorder, 'r, 'pk, 'sig) engine_env \<Rightarrow> ('o, 'id, 'r, 'pk, 'sig) keyeo \<Rightarrow>
     ('o, 'id, 'r, 'pk, 'sig) retained_view" where
  "retained E K =
     \<lparr>rt_ops = k_ops K, rt_path = engine_path E K, rt_state = k_state K, rt_shared = has_been_shared E K\<rparr>"

definition below_or_at :: "('o, 'id, 'r, 'pk, 'sig) retained_view \<Rightarrow> 'o list \<Rightarrow> 'o \<Rightarrow> bool" where
  "below_or_at V tips i \<longleftrightarrow> list_ex (\<lambda>t. t = i \<or> rt_path V i t) tips"

definition above_all :: "('o, 'id, 'r, 'pk, 'sig) retained_view \<Rightarrow> 'o list \<Rightarrow> 'o \<Rightarrow> bool" where
  "above_all V tips i \<longleftrightarrow> list_all (\<lambda>t. rt_path V t i) tips"

text \<open>One popped op: its parents that are no tip join \<open>keep\<close>, the new ones the stack.\<close>

definition keep_parent :: "'o list \<Rightarrow> 'o list \<times> 'o list \<Rightarrow> 'o \<Rightarrow> 'o list \<times> 'o list" where
  "keep_parent tips st p =
     (if p \<in> set tips \<or> p \<in> set (fst st) then st else (p # fst st, p # snd st))"

definition all_parents :: "('o, 'id, 'r, 'pk, 'sig) dag_op list \<Rightarrow> 'o set" where
  "all_parents ops = (\<Union>op \<in> set ops. set (op_parents op))"

lemma keep_parents_facts:
  "\<exists>new. foldl (keep_parent tips) (keep, stack) ps = (new @ keep, new @ stack) \<and>
     set new = {p \<in> set ps. p \<notin> set tips \<and> p \<notin> set keep}"
proof (induction ps arbitrary: keep stack)
  case (Cons p ps)
  show ?case
  proof (cases "p \<in> set tips \<or> p \<in> set keep")
    case True
    then show ?thesis using Cons.IH [of keep stack] by (auto simp: keep_parent_def)
  next
    case False
    obtain new where new: "foldl (keep_parent tips) (p # keep, p # stack) ps = (new @ p # keep, new @ p # stack)"
        "set new = {q \<in> set ps. q \<notin> set tips \<and> q \<notin> set (p # keep)}"
      using Cons.IH [of "p # keep" "p # stack"] by blast
    have "foldl (keep_parent tips) (keep, stack) (p # ps) = ((new @ [p]) @ keep, (new @ [p]) @ stack)"
      using new(1) False by (simp add: keep_parent_def)
    moreover have "set (new @ [p]) = {q \<in> set (p # ps). q \<notin> set tips \<and> q \<notin> set keep}"
      using new(2) False by auto
    ultimately show ?thesis by blast
  qed
qed simp

lemma keep_walk_less:
  assumes "find_op ops x = Some op" "foldl (keep_parent tips) (keep, stack) (op_parents op) = (keep', stack')"
  shows "card (all_parents ops - set keep') < card (all_parents ops - set keep) \<or>
    card (all_parents ops - set keep') = card (all_parents ops - set keep) \<and> length stack' < Suc (length stack)"
proof -
  obtain new where n: "keep' = new @ keep" "stack' = new @ stack"
      "set new = {p \<in> set (op_parents op). p \<notin> set tips \<and> p \<notin> set keep}"
    using keep_parents_facts [of tips keep stack "op_parents op"] assms(2) by auto
  show ?thesis
  proof (cases new)
    case Nil
    then show ?thesis using n by simp
  next
    case (Cons y ys)
    then have y: "y \<in> all_parents ops" "y \<notin> set keep" "y \<in> set keep'"
      using n find_op_Some [OF assms(1)] by (auto simp: all_parents_def)
    have "finite (all_parents ops)" by (simp add: all_parents_def)
    then have "card (all_parents ops - set keep') < card (all_parents ops - set keep)"
      using y n(1) by (intro psubset_card_mono) auto
    then show ?thesis ..
  qed
qed

function keep_walk ::
  "('o, 'id, 'r, 'pk, 'sig) dag_op list \<Rightarrow> 'o list \<Rightarrow> 'o list \<Rightarrow> 'o list \<Rightarrow> 'o list" where
  "keep_walk ops tips [] keep = keep"
| "keep_walk ops tips (x # stack) keep =
     (case find_op ops x of
        None \<Rightarrow> keep_walk ops tips stack keep
      | Some op \<Rightarrow>
          (case foldl (keep_parent tips) (keep, stack) (op_parents op) of
             (keep', stack') \<Rightarrow> keep_walk ops tips stack' keep'))"
  by pat_completeness auto

termination
proof (relation "measures [\<lambda>(ops, tips, stack, keep). card (all_parents ops - set keep),
    \<lambda>(ops, tips, stack, keep). length stack]", goal_cases)
  case (3 ops tips x stack keep op keep' stack')
  from keep_walk_less [OF this(1) this(2) [symmetric]] show ?case by auto
qed simp_all

definition kept_parents :: "('o, 'id, 'r, 'pk, 'sig) retained_view \<Rightarrow> 'o list \<Rightarrow> 'o list" where
  "kept_parents V tips =
     keep_walk (rt_ops V) tips (rev (filter (\<lambda>i. \<not> below_or_at V tips i) (op_ids (rt_ops V)))) []"

definition dag_compact ::
  "('o, 'id, 'r, 'pk, 'sig) retained_view \<Rightarrow> 'o list \<Rightarrow> RetentionPlan \<Rightarrow>
     'o compaction_error + ('o, 'id, 'r, 'pk) dag_compacted option" where
  "dag_compact V tips plan =
     (case plan of
        KeepAll \<Rightarrow> Inr None
      | KeepLast _ \<Rightarrow>
          if tips = [] then Inl EmptyFrontier
          else (case find (\<lambda>i. \<not> below_or_at V tips i \<and> \<not> above_all V tips i) (op_ids (rt_ops V)) of
                  Some bad \<Rightarrow> Inl (NonDominating bad)
                | None \<Rightarrow>
                    Inr (Some \<lparr>dc_frontier = tips, dc_state = rt_state V, dc_shared = rt_shared V,
                      dc_prune = filter (\<lambda>i. i \<notin> set tips \<and> list_ex (\<lambda>t. rt_path V i t) tips \<and>
                        i \<notin> set (kept_parents V tips)) (op_ids (rt_ops V))\<rparr>)))"

subsection \<open>Nothing retained is orphaned\<close>

text \<open>Every op that was ever on the stack and left it has its parents kept or at a tip.\<close>

definition expanded ::
  "('o, 'id, 'r, 'pk, 'sig) dag_op list \<Rightarrow> 'o list \<Rightarrow> 'o list \<Rightarrow> 'o list \<Rightarrow> 'o set \<Rightarrow> bool" where
  "expanded ops tips stack keep S \<longleftrightarrow>
     (\<forall>i \<in> S \<union> set keep. i \<notin> set stack \<longrightarrow>
        (\<forall>op. find_op ops i = Some op \<longrightarrow> set (op_parents op) \<subseteq> set tips \<union> set keep))"

lemma keep_walk_expanded:
  "expanded ops tips stack keep S \<Longrightarrow>
     set keep \<subseteq> set (keep_walk ops tips stack keep) \<and> expanded ops tips [] (keep_walk ops tips stack keep) S"
proof (induction ops tips stack keep rule: keep_walk.induct)
  case (2 ops tips x stack keep)
  show ?case
  proof (cases "find_op ops x")
    case None
    have "expanded ops tips stack keep S"
      unfolding expanded_def
    proof (intro ballI impI allI)
      fix i q assume i: "i \<in> S \<union> set keep" "i \<notin> set stack" "find_op ops i = Some q"
      then have "i \<notin> set (x # stack)" using None by auto
      from "2.prems" [unfolded expanded_def, rule_format, OF i(1) this i(3)]
      show "set (op_parents q) \<subseteq> set tips \<union> set keep" .
    qed
    then show ?thesis using "2.IH"(1) [OF None] None by simp
  next
    case (Some op)
    obtain new where n: "foldl (keep_parent tips) (keep, stack) (op_parents op) = (new @ keep, new @ stack)"
        "set new = {p \<in> set (op_parents op). p \<notin> set tips \<and> p \<notin> set keep}"
      using keep_parents_facts [of tips keep stack "op_parents op"] by blast
    have "expanded ops tips (new @ stack) (new @ keep) S"
      unfolding expanded_def
    proof (intro ballI impI allI)
      fix i q assume i: "i \<in> S \<union> set (new @ keep)" "i \<notin> set (new @ stack)" "find_op ops i = Some q"
      show "set (op_parents q) \<subseteq> set tips \<union> set (new @ keep)"
      proof (cases "i = x")
        case True
        then have "q = op" using i(3) Some by simp
        then show ?thesis using n(2) by auto
      next
        case False
        have "i \<in> S \<union> set keep" using i(1,2) by auto
        then have "set (op_parents q) \<subseteq> set tips \<union> set keep"
          using "2.prems" [unfolded expanded_def, rule_format, of i q] i(2,3) False by auto
        then show ?thesis by auto
      qed
    qed
    from "2.IH"(2) [OF Some n(1) [symmetric] this] show ?thesis using Some n(1) by auto
  qed
qed simp

lemma kept_closed:
  assumes "distinct (op_ids (rt_ops V))" "op \<in> set (rt_ops V)"
    "\<not> below_or_at V tips (op_id op) \<or> op_id op \<in> set (kept_parents V tips)"
  shows "set (op_parents op) \<subseteq> set tips \<union> set (kept_parents V tips)"
proof -
  let ?S = "{i \<in> set (op_ids (rt_ops V)). \<not> below_or_at V tips i}"
  have "expanded (rt_ops V) tips (rev (filter (\<lambda>i. \<not> below_or_at V tips i) (op_ids (rt_ops V)))) [] ?S"
    by (auto simp: expanded_def)
  from keep_walk_expanded [OF this] have e: "expanded (rt_ops V) tips [] (kept_parents V tips) ?S"
    by (simp add: kept_parents_def)
  have f: "find_op (rt_ops V) (op_id op) = Some op" using assms(1,2) by (simp add: find_op_in)
  have "op_id op \<in> ?S \<union> set (kept_parents V tips)" using assms(2,3) by (auto simp: op_ids_def)
  then show ?thesis using e f by (auto simp: expanded_def)
qed

lemma find_None_all: "find P xs = None \<longleftrightarrow> list_all (\<lambda>x. \<not> P x) xs"
  by (induction xs) simp_all

text \<open>C34: a compaction is granted exactly for a non-empty cut that every op lies below, at, or
  wholly above.  It prunes only ops strictly below the cut, never a tip, and never the parent of
  an op it keeps above or beside the cut; every op it keeps that is not below the cut descends
  from every tip.\<close>

theorem dag_compact_safe:
  assumes "distinct (op_ids (rt_ops V))"
  shows "(\<exists>c. dag_compact V tips plan = Inr (Some c)) =
      (plan \<noteq> KeepAll \<and> tips \<noteq> [] \<and> list_all (\<lambda>i. below_or_at V tips i \<or> above_all V tips i) (op_ids (rt_ops V))) \<and>
    (\<forall>c. dag_compact V tips plan = Inr (Some c) \<longrightarrow>
       dc_frontier c = tips \<and> dc_state c = rt_state V \<and> dc_shared c = rt_shared V \<and>
       (\<forall>i \<in> set (dc_prune c). i \<notin> set tips \<and> (\<exists>t \<in> set tips. rt_path V i t)) \<and>
       (\<forall>op \<in> set (rt_ops V). op_id op \<notin> set (dc_prune c) \<longrightarrow> op_id op \<notin> set tips \<longrightarrow>
          set (op_parents op) \<inter> set (dc_prune c) = {}) \<and>
       (\<forall>i \<in> set (op_ids (rt_ops V)). \<not> below_or_at V tips i \<longrightarrow> (\<forall>t \<in> set tips. rt_path V t i)))"
proof (intro conjI allI impI)
  show "(\<exists>c. dag_compact V tips plan = Inr (Some c)) =
      (plan \<noteq> KeepAll \<and> tips \<noteq> [] \<and> list_all (\<lambda>i. below_or_at V tips i \<or> above_all V tips i) (op_ids (rt_ops V)))"
  proof (cases plan)
    case (KeepLast n)
    have "list_all (\<lambda>i. below_or_at V tips i \<or> above_all V tips i) (op_ids (rt_ops V)) \<longleftrightarrow>
        find (\<lambda>i. \<not> below_or_at V tips i \<and> \<not> above_all V tips i) (op_ids (rt_ops V)) = None"
      unfolding find_None_all by (rule list_all_cong) auto
    then show ?thesis using KeepLast by (simp add: dag_compact_def split: option.split)
  qed (simp add: dag_compact_def)
next
  fix c assume c: "dag_compact V tips plan = Inr (Some c)"
  then have dom: "\<And>i. i \<in> set (op_ids (rt_ops V)) \<Longrightarrow> below_or_at V tips i \<or> above_all V tips i"
    by (cases plan) (auto simp: dag_compact_def find_None_iff split: option.splits if_splits)
  have C: "dc_frontier c = tips" "dc_state c = rt_state V" "dc_shared c = rt_shared V"
    "dc_prune c = filter (\<lambda>i. i \<notin> set tips \<and> list_ex (\<lambda>t. rt_path V i t) tips \<and> i \<notin> set (kept_parents V tips)) (op_ids (rt_ops V))"
    using c by (cases plan; auto simp: dag_compact_def split: option.splits if_splits)+
  show "dc_frontier c = tips" "dc_state c = rt_state V" "dc_shared c = rt_shared V" by (fact C(1-3))+
  show "\<forall>i \<in> set (dc_prune c). i \<notin> set tips \<and> (\<exists>t \<in> set tips. rt_path V i t)"
    by (auto simp: C(4) list_ex_iff)
  show "\<forall>i \<in> set (op_ids (rt_ops V)). \<not> below_or_at V tips i \<longrightarrow> (\<forall>t \<in> set tips. rt_path V t i)"
    using dom by (auto simp: above_all_def list_all_iff)
  show "\<forall>op \<in> set (rt_ops V). op_id op \<notin> set (dc_prune c) \<longrightarrow> op_id op \<notin> set tips \<longrightarrow>
      set (op_parents op) \<inter> set (dc_prune c) = {}"
  proof (intro ballI impI)
    fix op assume op: "op \<in> set (rt_ops V)" "op_id op \<notin> set (dc_prune c)" "op_id op \<notin> set tips"
    then have "\<not> below_or_at V tips (op_id op) \<or> op_id op \<in> set (kept_parents V tips)"
      by (auto simp: C(4) below_or_at_def list_ex_iff op_ids_def)
    from kept_closed [OF assms op(1) this] show "set (op_parents op) \<inter> set (dc_prune c) = {}"
      by (auto simp: C(4))
  qed
qed

end
