(* ===== verification/Dag_Divergence.thy ===== *)
theory Dag_Divergence
  imports Dag_Compaction
begin

text \<open>
  A concrete DAG: the witnesses of the resolver's theorems, and two iteration orders of the one op
  map under which the resolver ignores different ops.
\<close>

subsection \<open>The race\<close>

type_synonym demo_dag_op = "(int, int, int, int, int) dag_op"

definition mk_op :: "int \<Rightarrow> int list \<Rightarrow> int \<Rightarrow> (int, int, int, int) action \<Rightarrow> int \<Rightarrow> demo_dag_op" where
  "mk_op i ps author a k = \<lparr>op_id = i, op_group = [], op_parents = ps, op_author = author, op_action = a,
     op_sig = 0, op_key = k, op_sealing = []\<rparr>"

definition race_genesis :: "(int, int, int) group_state" where
  "race_genesis = state_create [] (map (\<lambda>i. \<lparr>mi_id = i, mi_role = 9, mi_key = i, mi_hpke = []\<rparr>) [1, 2, 3, 4])"

text \<open>Ops 4 and 6 remove and add member 3, concurrently and at one depth, both before op 8.\<close>

definition race :: "demo_dag_op list" where
  "race =
     [mk_op 1 [] 2 (Remove 4) 2, mk_op 2 [] 1 (Remove 4) 1, mk_op 3 [2] 1 (Add 4 9 4 [] None) 1,
      mk_op 4 [1, 3] 4 (Remove 3) 4, mk_op 6 [3] 1 (Add 3 9 3 [] None) 1,
      mk_op 7 [4, 6] 1 (Retarget 3 33 []) 1, mk_op 8 [7] 3 (Add 5 9 5 [] None) 33]"

definition race_swapped :: "demo_dag_op list" where
  "race_swapped = [race ! 0, race ! 1, race ! 2, race ! 4, race ! 3, race ! 5, race ! 6]"

definition demo_ctx :: "demo_dag_op list \<Rightarrow> (int, int, int, int, int) rctx" where
  "demo_ctx ops = \<lparr>rx_ops = ops, rx_path = has_path reach_exec (foldl (\<lambda>g op. admit_graph op g) graph_new race),
     rx_ac = default_access (\<lambda>a b. b \<le> a) 1, rx_genesis = race_genesis\<rparr>"

lemma race_less: "(p, c) \<in> parent_rel race \<Longrightarrow> p < c"
  by (auto simp: parent_rel_def race_def mk_op_def)

lemma race_ids: "distinct (op_ids race)"
  by (simp add: op_ids_def race_def mk_op_def)

lemma race_causal: "causal (demo_ctx race)"
  by (rule has_path_causal [OF reach_exec_ok])
    (simp_all add: demo_ctx_def admitted_edges graph_new_def race_ids acyclic_less race_less)

lemma race_same: "same_dag (demo_ctx race) (demo_ctx race_swapped)"
  by (simp add: same_dag_def demo_ctx_def race_swapped_def race_def)

text \<open>The resolver is not a function of the op set.  One DAG of seven ops, every op of which
  the engine admits, and two iteration orders of its \<open>HashMap\<close>: under one the op of member 3
  stands, under the other it is ignored.\<close>

theorem order_dependent:
  "same_dag (demo_ctx race) (demo_ctx race_swapped) \<and> causal (demo_ctx race) \<and>
   8 \<notin> set (ignored_ops (demo_ctx race) []) \<and> 8 \<in> set (ignored_ops (demo_ctx race_swapped) [])"
proof -
  have "ignored_ops (demo_ctx race) [] = [4, 6, 3]" by code_simp
  moreover have "ignored_ops (demo_ctx race_swapped) [] = [4, 6, 3, 8]" by code_simp
  ultimately show ?thesis by (simp add: race_causal race_same)
qed

subsection \<open>Witnesses\<close>

theorem authority_from_past_witness:
  "op_authorized_at_position (demo_ctx race) [] (op_id (race ! 0)) = Some True"
proof -
  have "race ! 0 \<in> set (rx_ops (demo_ctx race))" by (simp add: demo_ctx_def race_def)
  note t = authority_from_past [OF race_causal this, of "[]"]
  have "(let D = compute_depths (rx_ops (demo_ctx race)) []; A = authorized_map (demo_ctx race) D;
         s = foldl (\<lambda>s a. if auth_of A a then fold_op (demo_ctx race) a s else s) (rx_genesis (demo_ctx race))
           (ancestors (demo_ctx race) D (op_id (race ! 0)))
     in Some (ac_authorized (rx_ac (demo_ctx race)) s (op_author (race ! 0)) (op_action (race ! 0)) \<and>
       key_matches_registration s (race ! 0))) = Some True"
    by code_simp
  with t show ?thesis by (simp only:)
qed

theorem resolution_sound_witness:
  "op_authorized_at_position (demo_ctx race) [] 8 = Some True"
proof -
  have "ignored_ops (demo_ctx race) [] = [4, 6, 3]" by code_simp
  then have "race ! 6 \<in> kept (demo_ctx race) []" by (simp add: kept_def demo_ctx_def race_def mk_op_def)
  then have "op_authorized_at_position (demo_ctx race) [] (op_id (race ! 6)) = Some True"
    using resolution_sound [OF race_causal, of "[]"] by blast
  then show ?thesis by (simp add: race_def mk_op_def)
qed

text \<open>The first three ops and the last alone have no tie.\<close>

definition calm :: "demo_dag_op list" where
  "calm = [mk_op 1 [] 2 (Remove 4) 2, mk_op 2 [1] 1 (Add 4 9 4 [] None) 1, mk_op 3 [1] 4 (Add 5 9 5 [] None) 4]"

definition calm_ctx :: "demo_dag_op list \<Rightarrow> (int, int, int, int, int) rctx" where
  "calm_ctx ops = \<lparr>rx_ops = ops, rx_path = has_path reach_exec (foldl (\<lambda>g op. admit_graph op g) graph_new calm),
     rx_ac = default_access (\<lambda>a b. b \<le> a) 1, rx_genesis = race_genesis\<rparr>"

theorem order_independent_witness:
  "3 \<in> set (ignored_ops (calm_ctx (rev calm)) [])"
proof -
  have "acyclic (parent_rel calm)"
    by (rule acyclic_less) (auto simp: parent_rel_def calm_def mk_op_def)
  moreover have "distinct (op_ids calm)" by (simp add: op_ids_def calm_def mk_op_def)
  ultimately have c: "causal (calm_ctx calm)"
    by (intro has_path_causal [OF reach_exec_ok]) (simp_all add: calm_ctx_def admitted_edges graph_new_def)
  have s: "same_dag (calm_ctx calm) (calm_ctx (rev calm))" by (simp add: same_dag_def calm_ctx_def)
  have "compute_depths calm [] = [(3, 1), (2, 1), (1, 0)]" by code_simp
  then have u: "untied (calm_ctx calm) []"
    by (auto simp: untied_def calm_ctx_def depth_of_def) (auto simp: calm_def mk_op_def)
  have "ignored_ops (calm_ctx calm) [] = [3]" by code_simp
  then show ?thesis using order_independent [OF s c u] by auto
qed

subsection \<open>A concrete engine\<close>

text \<open>Signatures are 0 when they are good; the encodings do not matter to the runs below.\<close>

definition blank_codec :: "(int, int, int, int, int) codec_env" where
  "blank_codec =
     \<lparr>cd_oid = (\<lambda>_. []), cd_id = (\<lambda>_. []), cd_role = (\<lambda>_. []), cd_pk = (\<lambda>_. []), cd_sig = (\<lambda>_. []), cd_sha = (\<lambda>_. [])\<rparr>"

definition demo_env :: "(demo_dag_op list \<Rightarrow> demo_dag_op list) \<Rightarrow> (int, int, int, int, int) engine_env" where
  "demo_env ord = \<lparr>en_reach = reach_exec, en_verify = (\<lambda>_ _ s. s = 0), en_codec = blank_codec, en_order = ord\<rparr>"

lemma demo_env_ok: "env_ok (demo_env (\<lambda>x. x))" "env_ok (demo_env rev)"
  by (simp_all add: env_ok_def demo_env_def reach_exec_ok)

definition demo_access :: "(int, int, int, int) access_control" where
  "demo_access = default_access (\<lambda>a b. b \<le> a) 1"

type_synonym demo_keyeo = "(int, int, int, int, int) keyeo"

definition apply_all :: "(int, int, int, int, int) engine_env \<Rightarrow> demo_dag_op list \<Rightarrow> demo_keyeo \<Rightarrow> demo_keyeo" where
  "apply_all E ops K = foldl (\<lambda>K op. snd (keyeo_apply E op K)) K ops"

lemma apply_all_reachable:
  "set ops \<subseteq> U \<Longrightarrow> engine_reachable U E K0 K \<Longrightarrow> engine_reachable U E K0 (apply_all E ops K)"
proof (induction ops arbitrary: K)
  case (Cons op ops)
  have "engine_reachable U E K0 (snd (keyeo_apply E op K))"
    by (rule reach_step [OF Cons.prems(2) step_apply]) (use Cons.prems(1) in simp)
  then show ?case using Cons by (simp add: apply_all_def)
qed (simp add: apply_all_def)

definition fresh_engine :: demo_keyeo where
  "fresh_engine = keyeo_adopt race_genesis [] False demo_access individual"

lemma calm_addressed: "addressed (set calm) (map fst ([] :: (int \<times> nat) list))"
  by (auto simp: addressed_def calm_def mk_op_def inj_on_def)

lemma calm_reachable:
  "set ops \<subseteq> set calm \<Longrightarrow> engine_reachable (set calm) E fresh_engine (apply_all E ops fresh_engine)"
  by (rule apply_all_reachable [OF _ reach_start])

theorem topo_order_is_reference_witness: "topo_order race = Some (topo_ref race [])"
  using topo_order_is_reference [OF race_ids] acyclic_less [OF race_less, where r = "parent_rel race"] by simp

theorem engine_invariant_witness:
  "\<exists>eff. resolve_walk (demo_env rev) (apply_all (demo_env rev) calm fresh_engine) =
     Inr (k_state (apply_all (demo_env rev) calm fresh_engine), eff)"
  using engine_invariant [OF demo_env_ok(2) calm_addressed calm_reachable [OF order_refl, unfolded fresh_engine_def]]
  by (simp add: fresh_engine_def)

theorem membership_converges_witness:
  "map fst (active_members (k_state (apply_all (demo_env rev) [calm ! 0, calm ! 2, calm ! 1] fresh_engine))) = [1, 2, 3, 4]"
proof -
  let ?K = "apply_all (demo_env (\<lambda>x. x)) calm fresh_engine"
  let ?L = "apply_all (demo_env rev) [calm ! 0, calm ! 2, calm ! 1] fresh_engine"
  have ops: "k_ops ?K = rev calm" by code_simp
  have d: "compute_depths (rev calm) [] = [(2, 1), (3, 1), (1, 0)]" by code_simp
  have u: "untied (resolver_ctx (demo_env (\<lambda>x. x)) ?K) []"
    by (auto simp: untied_def resolver_ctx_def ops d depth_of_def) (auto simp: calm_def mk_op_def)
  have p: "proposals_unique (k_ops ?K)"
    unfolding proposals_unique_def ops by (auto simp: calm_def mk_op_def is_propose_def)
  have same: "set (k_ops ?K) = set (k_ops ?L)" by code_simp
  have L: "set [calm ! 0, calm ! 2, calm ! 1] \<subseteq> set calm" by (simp add: calm_def)
  have "k_state ?K = k_state ?L"
    using membership_converges [OF demo_env_ok calm_addressed
        calm_reachable [OF order_refl, unfolded fresh_engine_def] calm_reachable [OF L, unfolded fresh_engine_def]]
      same u p by (simp add: fresh_engine_def)
  moreover have "map fst (active_members (k_state ?K)) = [1, 2, 3, 4]" by code_simp
  ultimately show ?thesis by simp
qed

theorem dag_compact_safe_witness:
  "\<exists>c. dag_compact (retained (demo_env rev) (apply_all (demo_env rev) calm fresh_engine)) [1] (KeepLast 0) = Inr (Some c)"
proof -
  let ?V = "retained (demo_env rev) (apply_all (demo_env rev) calm fresh_engine)"
  have "distinct (op_ids (rt_ops ?V))" by code_simp
  moreover have "list_all (\<lambda>i. below_or_at ?V [1] i \<or> above_all ?V [1] i) (op_ids (rt_ops ?V))" by code_simp
  ultimately show ?thesis using dag_compact_safe [of ?V "[1]" "KeepLast 0"] by simp
qed

subsection \<open>What the engine does that it does not mean to\<close>

definition silenced :: "demo_dag_op list" where
  "silenced = [mk_op 1 [] 1 (Remove 2) 1, mk_op 2 [] 2 (Remove 3) 2, mk_op 3 [1, 2] 3 (Add 5 9 5 [] None) 3]"

text \<open>A voided removal still takes the authority of the member it names.  Members 1 and 2
  remove 2 and 3 concurrently: the resolver voids the removal by 2, so member 3 is an active
  member; yet every op of 3 that has both in its past is ignored, because authority at a
  causal position folds the voided removal.\<close>

theorem voided_removal_silences:
  "rs_ignore (k_resolver (apply_all (demo_env rev) silenced fresh_engine)) = [2, 3] \<and>
   map fst (active_members (k_state (apply_all (demo_env rev) silenced fresh_engine))) = [1, 3, 4]"
  by code_simp

text \<open>A compacted replica and a full one disagree.  A replica cuts at the two concurrent
  removals, which every later op descends from; one that adopts the checkpoint accepts the
  next op of member 3, which the full replica ignores: with the same ops the one has member 5
  and the other has not.\<close>

theorem checkpoint_diverges:
  "\<exists>c. dag_compact (retained (demo_env rev) (apply_all (demo_env rev) (take 2 silenced) fresh_engine)) [1, 2]
       (KeepLast 0) = Inr (Some c) \<and>
     map fst (active_members (k_state (apply_all (demo_env rev) (drop 2 silenced)
       (keyeo_adopt (dc_state c) [(1, 0), (2, 0)] (dc_shared c) demo_access individual)))) = [1, 3, 4, 5] \<and>
     map fst (active_members (k_state (apply_all (demo_env rev) silenced fresh_engine))) = [1, 3, 4]"
proof -
  let ?K = "apply_all (demo_env rev) (take 2 silenced) fresh_engine"
  let ?c = "\<lparr>dc_frontier = [1, 2], dc_state = k_state ?K, dc_shared = False, dc_prune = []\<rparr>"
  have "dag_compact (retained (demo_env rev) ?K) [1, 2] (KeepLast 0) = Inr (Some ?c)" by code_simp
  moreover have "map fst (active_members (k_state (apply_all (demo_env rev) (drop 2 silenced)
       (keyeo_adopt (k_state ?K) [(1, 0), (2, 0)] False demo_access individual)))) = [1, 3, 4, 5]" by code_simp
  moreover have "map fst (active_members (k_state (apply_all (demo_env rev) silenced fresh_engine))) = [1, 3, 4]"
    by code_simp
  ultimately show ?thesis by (intro exI [of _ ?c]) simp
qed

definition pended :: "demo_dag_op list" where
  "pended = [(mk_op 2 [1] 1 Reseal 1)\<lparr>op_sig := 1\<rparr>, mk_op 3 [1] 1 (Add 5 9 5 [] None) 1, mk_op 1 [] 1 Reseal 1]"

text \<open>One forged op empties the pending buffer.  An op with a bad signature is buffered like
  any other while its parent is missing; when the parent arrives, the flush stops at the forged
  op and drops the genuine op that waited behind it, which is neither admitted nor pending.\<close>

theorem flush_drops_pending:
  "length (k_pending (apply_all (demo_env rev) pended fresh_engine)) = 2 \<and>
   fst (flush (demo_env rev) (apply_all (demo_env rev) pended fresh_engine)) = Inl BadSignature \<and>
   k_pending (snd (flush (demo_env rev) (apply_all (demo_env rev) pended fresh_engine))) = [] \<and>
   op_ids (k_ops (snd (flush (demo_env rev) (apply_all (demo_env rev) pended fresh_engine)))) = [1]"
  by code_simp

definition two_of_members :: "(int, int, int, int) quorum_policy" where
  "two_of_members =
     \<lparr>qp_eligible = (\<lambda>s a. set (map fst (active_members s))),
      qp_requirement = (\<lambda>s a. Threshold 2 (set (map fst (active_members s))))\<rparr>"

definition hijack :: "demo_dag_op list" where
  "hijack = [mk_op 1 [] 1 (Propose [7] (Add 5 9 5 [] None)) 1, mk_op 2 [1] 2 (Approve [7]) 2,
     mk_op 3 [] 3 (Propose [7] (Remove 1)) 3, mk_op 4 [2, 3] 2 (Commit [7]) 2]"

text \<open>An approval is bound to a proposal id, not to what was proposed.  Member 2 approves the
  addition that member 1 proposed; member 3 proposes under the same id the removal of member 1;
  the commit then adds member 5 or removes member 1, as the iteration order of the map has it.\<close>

theorem approval_hijacked:
  "map fst (active_members (k_state (apply_all (demo_env (sort_key op_id)) hijack (with_quorum race_genesis demo_access two_of_members)))) =
     [1, 2, 3, 4, 5] \<and>
   map fst (active_members (k_state (apply_all (demo_env (\<lambda>x. x)) hijack (with_quorum race_genesis demo_access two_of_members)))) =
     [2, 3, 4]"
  by code_simp

definition redundant :: "demo_dag_op list" where
  "redundant = [mk_op 1 [] 1 Reseal 1, mk_op 2 [1] 1 Reseal 1, mk_op 3 [2, 1] 1 (Add 5 9 5 [] None) 1]"

text \<open>An op that names a parent below the cut beside its tip keeps that parent from being pruned,
  but an adopted engine refuses the parent as a stale fork, and so buffers the op forever.\<close>

theorem kept_parent_refused:
  "(\<exists>c. dag_compact (retained (demo_env rev) (apply_all (demo_env rev) redundant fresh_engine)) [2] (KeepLast 0) = Inr (Some c) \<and>
      dc_prune c = []) \<and>
   fst (keyeo_apply (demo_env rev) (redundant ! 0) (keyeo_adopt race_genesis [(2, 1)] False demo_access individual)) = Inl StaleFork \<and>
   fst (keyeo_apply (demo_env rev) (redundant ! 2) (keyeo_adopt race_genesis [(2, 1)] False demo_access individual)) = Inr (Buffered [1])"
proof -
  let ?K = "apply_all (demo_env rev) redundant fresh_engine"
  let ?c = "\<lparr>dc_frontier = [2], dc_state = k_state ?K, dc_shared = True, dc_prune = []\<rparr>"
  have "dag_compact (retained (demo_env rev) ?K) [2] (KeepLast 0) = Inr (Some ?c)" by code_simp
  moreover have "fst (keyeo_apply (demo_env rev) (redundant ! 0) (keyeo_adopt race_genesis [(2, 1)] False demo_access individual)) =
      Inl StaleFork" by code_simp
  moreover have "fst (keyeo_apply (demo_env rev) (redundant ! 2) (keyeo_adopt race_genesis [(2, 1)] False demo_access individual)) =
      Inr (Buffered [1])" by code_simp
  ultimately show ?thesis by (intro conjI exI [of _ ?c]) simp_all
qed

end
