(* ===== verification/Json.thy ===== *)
theory Json
  imports Prelude "HOL-Library.Multiset"
begin

text \<open>
  JSON values and their canonical form (\<open>packages/format-jcs/src/lib.rs\<close>).  A value is what
  \<open>serde_json::Value\<close> holds: an object is a \<open>BTreeMap\<close> from keys to values, an integer fits
  \<open>i64\<close> or \<open>u64\<close>, and a float is kept as its text because nothing here computes with it.
  Strings are their UTF-8 bytes, so a character of the code is one to four characters here;
  every escape is a single byte, and only the order of the keys looks at whole characters.
  The lemmas end in the fact that content addressing rests on: the canonical bytes determine
  the value.
\<close>

subsection \<open>Values\<close>

datatype json =
    JNull | JBool bool | JInt int | JFloat string | JStr string
  | JArr "json list" | JObj "(string \<times> json) list"

fun js_get :: "json \<Rightarrow> string \<Rightarrow> json option" where
  "js_get (JObj m) k = bt_get m k"
| "js_get _ k = None"

fun as_str :: "json \<Rightarrow> string option" where
  "as_str (JStr s) = Some s"
| "as_str _ = None"

fun as_array :: "json \<Rightarrow> json list option" where
  "as_array (JArr xs) = Some xs"
| "as_array _ = None"

fun as_object :: "json \<Rightarrow> (string \<times> json) list option" where
  "as_object (JObj m) = Some m"
| "as_object _ = None"

definition str_field :: "json \<Rightarrow> string \<Rightarrow> string option" where
  "str_field v k = Option.bind (js_get v k) as_str"

fun json_wf :: "json \<Rightarrow> bool" where
  "json_wf (JArr xs) = list_all json_wf xs"
| "json_wf (JObj m) = (bt_wf m \<and> list_all (\<lambda>kv. json_wf (snd kv)) m)"
| "json_wf _ = True"

subsection \<open>Canonical bytes\<close>

datatype jcs_error = Float | NotObject | TooDeep

definition MAX_DEPTH :: nat where "MAX_DEPTH = 128"

text \<open>The characters of a string (UTF-8), and a character as UTF-16 code units.\<close>

fun code_points :: "string \<Rightarrow> int list" where
  "code_points (a # b # c # d # s) =
     (if (of_char a :: int) < 0x80 then of_char a # code_points (b # c # d # s)
      else if (of_char a :: int) < 0xE0
      then ((of_char a - 0xC0) * 64 + (of_char b - 0x80)) # code_points (c # d # s)
      else if (of_char a :: int) < 0xF0
      then ((of_char a - 0xE0) * 4096 + (of_char b - 0x80) * 64 + (of_char c - 0x80)) # code_points (d # s)
      else ((of_char a - 0xF0) * 262144 + (of_char b - 0x80) * 4096 + (of_char c - 0x80) * 64 +
            (of_char d - 0x80)) # code_points s)"
| "code_points [a, b, c] =
     (if (of_char a :: int) < 0x80 then of_char a # code_points [b, c]
      else if (of_char a :: int) < 0xE0
      then ((of_char a - 0xC0) * 64 + (of_char b - 0x80)) # code_points [c]
      else [(of_char a - 0xE0) * 4096 + (of_char b - 0x80) * 64 + (of_char c - 0x80)])"
| "code_points [a, b] =
     (if (of_char a :: int) < 0x80 then of_char a # code_points [b]
      else [(of_char a - 0xC0) * 64 + (of_char b - 0x80)])"
| "code_points [a] = [of_char a]"
| "code_points [] = []"

definition utf16_of :: "int \<Rightarrow> int list" where
  "utf16_of n = (if n < 0x10000 then [n]
     else [0xD800 + (n - 0x10000) div 1024, 0xDC00 + (n - 0x10000) mod 1024])"

definition utf16_units :: "string \<Rightarrow> int list" where
  "utf16_units s = concat (map utf16_of (code_points s))"

definition hex_lower :: "nat \<Rightarrow> char" where
  "hex_lower n = (if n \<le> 9 then char_of (48 + n) else char_of (97 + (n - 10)))"

definition hex :: "bytes \<Rightarrow> string" where
  "hex bs = concat (map (\<lambda>b. [hex_lower (unat b div 16), hex_lower (unat b mod 16)]) bs)"

definition escape :: "char \<Rightarrow> string" where
  "escape c =
     (let n = (of_char c :: nat) in
      if n = 34 then [CHR 0x5C, CHR 0x22]
      else if n = 92 then [CHR 0x5C, CHR 0x5C]
      else if n = 8 then [CHR 0x5C, CHR ''b'']
      else if n = 9 then [CHR 0x5C, CHR ''t'']
      else if n = 10 then [CHR 0x5C, CHR ''n'']
      else if n = 12 then [CHR 0x5C, CHR ''f'']
      else if n = 13 then [CHR 0x5C, CHR ''r'']
      else if n < 32 then [CHR 0x5C, CHR ''u'', CHR ''0'', CHR ''0'', hex_lower (n div 16), hex_lower (n mod 16)]
      else [c])"

definition write_string :: "string \<Rightarrow> string" where
  "write_string s = [CHR 0x22] @ concat (map escape s) @ [CHR 0x22]"

definition int_text :: "int \<Rightarrow> string" where
  "int_text i = (if i < 0 then CHR ''-'' # nat_to_dec (nat (- i)) else nat_to_dec (nat i))"

definition utf16_sort :: "(string \<times> json) list \<Rightarrow> (string \<times> json) list" where
  "utf16_sort m = sort_key (\<lambda>kv. utf16_units (fst kv)) m"

lemma size_utf16_sort [simp]: "size_list f (utf16_sort m) = size_list f m"
proof -
  have "sum_mset (mset (map f (utf16_sort m))) = sum_mset (mset (map f m))"
    by (simp add: utf16_sort_def)
  then have "sum_list (map f (utf16_sort m)) = sum_list (map f m)" by (simp only: sum_mset_sum_list)
  then show ?thesis by (simp add: size_list_conv_sum_list utf16_sort_def)
qed

definition comma :: "bool \<Rightarrow> string" where
  "comma first = (if first then [] else [CHR '',''])"

function write_value :: "nat \<Rightarrow> json \<Rightarrow> jcs_error + string"
  and write_items :: "nat \<Rightarrow> bool \<Rightarrow> json list \<Rightarrow> jcs_error + string"
  and write_members :: "nat \<Rightarrow> bool \<Rightarrow> (string \<times> json) list \<Rightarrow> jcs_error + string" where
  "write_value depth v =
     (if MAX_DEPTH < depth then Inl TooDeep
      else case v of
        JNull \<Rightarrow> Inr ''null''
      | JBool b \<Rightarrow> Inr (if b then ''true'' else ''false'')
      | JInt i \<Rightarrow> Inr (int_text i)
      | JFloat t \<Rightarrow> Inl Float
      | JStr s \<Rightarrow> Inr (write_string s)
      | JArr xs \<Rightarrow>
          (case write_items (depth + 1) True xs of
             Inl e \<Rightarrow> Inl e | Inr t \<Rightarrow> Inr (''['' @ t @ '']''))
      | JObj m \<Rightarrow>
          (case write_members (depth + 1) True (utf16_sort m) of
             Inl e \<Rightarrow> Inl e | Inr t \<Rightarrow> Inr (''{'' @ t @ ''}'')))"
| "write_items depth first [] = Inr []"
| "write_items depth first (x # xs) =
     (case write_value depth x of
        Inl e \<Rightarrow> Inl e
      | Inr t \<Rightarrow> (case write_items depth False xs of Inl e \<Rightarrow> Inl e | Inr ts \<Rightarrow> Inr (comma first @ t @ ts)))"
| "write_members depth first [] = Inr []"
| "write_members depth first ((k, x) # m) =
     (case write_value depth x of
        Inl e \<Rightarrow> Inl e
      | Inr t \<Rightarrow>
          (case write_members depth False m of
             Inl e \<Rightarrow> Inl e | Inr ts \<Rightarrow> Inr (comma first @ write_string k @ '':'' @ t @ ts)))"
  by pat_completeness auto
termination
  by (relation "measure (case_sum (\<lambda>(d, v). size v)
       (case_sum (\<lambda>(d, f, xs). size_list size xs) (\<lambda>(d, f, m). size_list (\<lambda>kv. size (snd kv)) m)))")
    (auto simp: size_prod_def intro!: le_imp_less_Suc size_list_pointwise)


declare write_value.simps [simp del]

definition to_canonical_value :: "json \<Rightarrow> jcs_error + bytes" where
  "to_canonical_value v =
     (case write_value 0 v of Inl e \<Rightarrow> Inl e | Inr t \<Rightarrow> Inr (string_bytes t))"

definition canonical_subset :: "json \<Rightarrow> string list \<Rightarrow> jcs_error + bytes" where
  "canonical_subset v include =
     (case as_object v of
        None \<Rightarrow> Inl NotObject
      | Some obj \<Rightarrow>
          to_canonical_value (JObj (foldl (\<lambda>sub k. case bt_get obj k of
            None \<Rightarrow> sub | Some x \<Rightarrow> bt_insert k x sub) [] include)))"

definition canonical_excluding :: "json \<Rightarrow> string list \<Rightarrow> jcs_error + bytes" where
  "canonical_excluding v exclude =
     (case as_object v of
        None \<Rightarrow> Inl NotObject
      | Some obj \<Rightarrow> to_canonical_value (JObj (foldl (\<lambda>sub kv. if fst kv \<in> set exclude then sub
            else bt_insert (fst kv) (snd kv) sub) [] obj)))"

subsection \<open>The text of a value is self-delimiting\<close>

text \<open>What may follow a value inside a text: nothing, a separator or a closing bracket.\<close>

definition stop :: "string \<Rightarrow> bool" where
  "stop r \<longleftrightarrow> r = [] \<or> hd r \<in> {CHR '','', CHR '']'', CHR ''}''}"

text \<open>The first character of a text tells the kind of the value.\<close>

definition shape_char :: "char \<Rightarrow> nat option" where
  "shape_char c =
     (if c = CHR ''n'' then Some 0 else if c = CHR ''t'' \<or> c = CHR ''f'' then Some 1
      else if is_ascii_digit c \<or> c = CHR ''-'' then Some 2 else if c = CHR 0x22 then Some 3
      else if c = CHR ''['' then Some 4 else if c = CHR ''{'' then Some 5 else None)"

fun shape :: "json \<Rightarrow> nat" where
  "shape JNull = 0" | "shape (JBool b) = 1" | "shape (JInt i) = 2" | "shape (JFloat t) = 6"
| "shape (JStr s) = 3" | "shape (JArr xs) = 4" | "shape (JObj m) = 5"

lemma shape_char_simps [simp]:
  "shape_char CHR ''n'' = Some 0" "shape_char CHR ''t'' = Some 1" "shape_char CHR ''f'' = Some 1"
  "shape_char CHR ''-'' = Some 2" "shape_char CHR 0x22 = Some 3" "shape_char CHR ''['' = Some 4"
  "shape_char CHR ''{'' = Some 5" "shape_char CHR '']'' = None" "shape_char CHR ''}'' = None"
  "shape_char CHR '','' = None" "is_ascii_digit c \<Longrightarrow> shape_char c = Some 2"
  by (auto simp: shape_char_def is_ascii_digit_def)

lemma int_text_nonempty [simp]: "int_text i \<noteq> []"
  by (simp add: int_text_def)

lemma int_text_hd: "shape_char (hd (int_text i)) = Some 2"
  using hd_nat_to_dec_digit by (simp add: int_text_def)

lemma write_value_shape:
  "write_value d v = Inr t \<Longrightarrow> t \<noteq> [] \<and> shape_char (hd t) = Some (shape v)"
  using int_text_hd
  by (subst (asm) write_value.simps)
    (auto simp: write_string_def split: if_splits json.splits sum.splits)

lemma same_shape:
  assumes "write_value d v = Inr s" "write_value d' w = Inr t" "s @ r = t @ r'"
  shows "shape v = shape w"
  using write_value_shape [OF assms(1)] write_value_shape [OF assms(2)] assms(3)
  by (metis hd_append2 option.inject)

lemma digits_split:
  assumes "list_all is_ascii_digit xs" "list_all is_ascii_digit ys"
    and "stop r" "stop r'" "xs @ r = ys @ r'"
  shows "xs = ys \<and> r = r'"
proof -
  have no: "stop z \<Longrightarrow> takeWhile is_ascii_digit z = []" for z
    by (cases z) (auto simp: stop_def is_ascii_digit_def)
  have "takeWhile is_ascii_digit (xs @ r) = xs" "takeWhile is_ascii_digit (ys @ r') = ys"
    using assms(1-4) no by (simp_all add: takeWhile_append2 list_all_iff)
  then show ?thesis using assms(5) by auto
qed

lemma minus_not_digit: "\<not> is_ascii_digit CHR ''-''"
  by (simp add: is_ascii_digit_def)

lemma int_text_split:
  assumes "int_text i @ r = int_text j @ r'" "stop r" "stop r'"
  shows "i = j \<and> r = r'"
proof -
  have hd: "nat_to_dec n @ x \<noteq> CHR ''-'' # y" for n x y
  proof
    assume "nat_to_dec n @ x = CHR ''-'' # y"
    then have "hd (nat_to_dec n) = CHR ''-''" using nat_to_dec_nonempty [of n] by (metis hd_append2 list.sel(1))
    then show False using hd_nat_to_dec_digit [of n] minus_not_digit by simp
  qed
  have num: "m = n \<and> r = r'" if "nat_to_dec m @ r = nat_to_dec n @ r'" for m n
  proof -
    have eq: "nat_to_dec m = nat_to_dec n \<and> r = r'"
      by (rule digits_split [OF nat_to_dec_digits nat_to_dec_digits assms(2,3) that])
    then have "dec_value (nat_to_dec m) = dec_value (nat_to_dec n)" by (simp only:)
    then have "m = n" by simp
    then show ?thesis using eq by simp
  qed
  consider "i < 0" "j < 0" | "i < 0" "\<not> j < 0" | "\<not> i < 0" "j < 0" | "\<not> i < 0" "\<not> j < 0" by blast
  then show ?thesis
  proof cases
    case 1
    then have "nat (- i) = nat (- j) \<and> r = r'" using assms(1) by (intro num) (simp add: int_text_def)
    then show ?thesis using 1 by (auto simp: eq_nat_nat_iff)
  next
    case 2
    then have "nat_to_dec (nat j) @ r' = CHR ''-'' # (nat_to_dec (nat (- i)) @ r)"
      using assms(1) by (simp add: int_text_def)
    then show ?thesis using hd by blast
  next
    case 3
    then have "nat_to_dec (nat i) @ r = CHR ''-'' # (nat_to_dec (nat (- j)) @ r')"
      using assms(1) by (simp add: int_text_def)
    then show ?thesis using hd by blast
  next
    case 4
    then have "nat i = nat j \<and> r = r'" using assms(1) by (intro num) (simp add: int_text_def)
    then show ?thesis using 4 by (auto simp: eq_nat_nat_iff)
  qed
qed

text \<open>An escape can be read back off the front of a text.\<close>

definition hex_value :: "char \<Rightarrow> nat" where
  "hex_value c = (if is_ascii_digit c then of_char c - 48 else of_char c - 87)"

fun read_escape :: "string \<Rightarrow> (char \<times> string) option" where
  "read_escape [] = None"
| "read_escape (a # s) =
     (if a \<noteq> CHR 0x5C then Some (a, s)
      else case s of
        [] \<Rightarrow> None
      | b # r \<Rightarrow>
          if b = CHR ''b'' then Some (CHR 0x08, r) else if b = CHR ''t'' then Some (CHR 0x09, r)
          else if b = CHR ''n'' then Some (CHR 0x0A, r) else if b = CHR ''f'' then Some (CHR 0x0C, r)
          else if b = CHR ''r'' then Some (CHR 0x0D, r)
          else if b = CHR ''u'' then
            Some (char_of (16 * hex_value (r ! 2) + hex_value (r ! 3)), drop 4 r)
          else Some (b, r))"

lemma hex_value_lower [simp]: "n < 16 \<Longrightarrow> hex_value (hex_lower n) = n"
  by (auto simp: hex_value_def hex_lower_def is_ascii_digit_def)

lemma control_chars:
  "char_of (34 :: nat) = CHR 0x22" "char_of (8 :: nat) = CHR 0x08" "char_of (9 :: nat) = CHR 0x09"
  "char_of (10 :: nat) = CHR 0x0A" "char_of (12 :: nat) = CHR 0x0C" "char_of (13 :: nat) = CHR 0x0D"
  by code_simp+

lemma read_escape_escape: "read_escape (escape c @ x) = Some (c, x)"
proof -
  define n :: nat where "n = of_char c"
  have c: "c = char_of n" by (simp add: n_def)
  have lt: "n < 256" by (simp add: n_def)
  have ctl: "16 * hex_value (hex_lower (n div 16)) + hex_value (hex_lower (n mod 16)) = n" if "n < 32"
    using that by simp
  have lit: "char_of n = CHR 0x5C \<longleftrightarrow> n = 92" using lt by (auto simp: char_of_eq_iff take_bit_eq_mod)
  show ?thesis using ctl lit lt by (auto simp: escape_def c Let_def of_char_of control_chars)
qed

lemma escape_split: "escape c @ x = escape d @ y \<Longrightarrow> c = d \<and> x = y"
  by (metis read_escape_escape option.inject prod.inject)

lemma escape_first: "escape c @ x \<noteq> CHR 0x22 # y"
  by (auto simp: escape_def Let_def)

lemma write_string_split:
  "write_string s @ r = write_string t @ r' \<Longrightarrow> s = t \<and> r = r'"
proof -
  have "concat (map escape s) @ CHR 0x22 # r = concat (map escape t) @ CHR 0x22 # r' \<Longrightarrow> s = t \<and> r = r'"
  proof (induction s arbitrary: t)
    case Nil
    then show ?case using escape_first by (cases t) (auto simp: eq_commute [of "CHR 0x22 # r"])
  next
    case (Cons c s)
    then obtain d t' where t: "t = d # t'" using escape_first by (cases t) auto
    then have "c = d \<and> concat (map escape s) @ CHR 0x22 # r = concat (map escape t') @ CHR 0x22 # r'"
      using Cons.prems by (intro escape_split) simp
    then show ?case using Cons.IH t by simp
  qed
  then show "write_string s @ r = write_string t @ r' \<Longrightarrow> s = t \<and> r = r'"
    by (simp add: write_string_def)
qed


subsection \<open>Canonical bytes determine the value\<close>

lemma write_items_stop: "write_items d False xs = Inr ts \<Longrightarrow> stop (ts @ CHR '']'' # r)"
  by (cases xs) (auto simp: stop_def comma_def split: sum.splits)

lemma write_members_stop: "write_members d False m = Inr ts \<Longrightarrow> stop (ts @ CHR ''}'' # r)"
  by (cases m) (auto simp: stop_def comma_def split: sum.splits)

lemma write_items_first: "write_items d f (x # xs) = Inr ts \<Longrightarrow> ts @ z \<noteq> CHR '']'' # y"
  by (auto simp: comma_def split: sum.splits if_splits dest!: write_value_shape)
    (metis append_eq_Cons_conv list.sel(1) shape_char_simps(8) option.distinct(1))

lemma write_members_first: "write_members d f (kx # m) = Inr ts \<Longrightarrow> ts @ z \<noteq> CHR ''}'' # y"
  by (cases kx) (auto simp: comma_def write_string_def split: sum.splits if_splits)

lemma mset_utf16_sort [simp]: "mset (utf16_sort m) = mset m"
  by (simp add: utf16_sort_def)

lemma set_utf16_sort [simp]: "set (utf16_sort m) = set m"
  by (simp add: utf16_sort_def)

lemma bt_wf_set_unique: "bt_wf m \<Longrightarrow> bt_wf n \<Longrightarrow> set m = set n \<Longrightarrow> m = n"
  by (intro bt_ext ext) (metis bt_get_mem not_Some_eq option.inject)+

lemma write_split:
  "write_value d v = Inr s \<Longrightarrow> write_value d' w = Inr t \<Longrightarrow> json_wf v \<Longrightarrow> json_wf w \<Longrightarrow>
     stop r \<Longrightarrow> stop r' \<Longrightarrow> s @ r = t @ r' \<Longrightarrow> v = w \<and> r = r'"
  "write_items d f xs = Inr s \<Longrightarrow> write_items d' f ys = Inr t \<Longrightarrow> list_all json_wf xs \<Longrightarrow> list_all json_wf ys \<Longrightarrow>
     s @ CHR '']'' # r = t @ CHR '']'' # r' \<Longrightarrow> xs = ys \<and> r = r'"
  "write_members d f m = Inr s \<Longrightarrow> write_members d' f n = Inr t \<Longrightarrow>
     list_all (\<lambda>kv. json_wf (snd kv)) m \<Longrightarrow> list_all (\<lambda>kv. json_wf (snd kv)) n \<Longrightarrow>
     s @ CHR ''}'' # r = t @ CHR ''}'' # r' \<Longrightarrow> m = n \<and> r = r'"
proof (induction d v and d f xs and d f m arbitrary: d' w s t r r' and d' ys s t r r' and d' n s t r r'
    rule: write_value_write_items_write_members.induct)
  case (1 depth v)
  have sh: "shape v = shape w" by (rule same_shape [OF "1.prems"(1,2,7)])
  have depth: "\<not> MAX_DEPTH < depth" "\<not> MAX_DEPTH < d'"
    using "1.prems"(1,2) by (auto simp: write_value.simps [of depth] write_value.simps [of d'])
  show ?case
  proof (cases v)
    case JNull
    then show ?thesis using "1.prems" sh depth by (cases w) (auto simp: write_value.simps)
  next
    case (JBool b)
    then show ?thesis using "1.prems" sh depth
      by (cases w) (auto simp: write_value.simps split: if_splits)
  next
    case (JInt i)
    then show ?thesis using "1.prems" sh depth
      by (cases w) (auto simp: write_value.simps dest: int_text_split)
  next
    case (JFloat x)
    then show ?thesis using "1.prems" depth by (simp add: write_value.simps)
  next
    case (JStr x)
    then show ?thesis using "1.prems" sh depth
      by (cases w) (auto simp: write_value.simps dest: write_string_split)
  next
    case (JArr xs)
    then obtain ys where w: "w = JArr ys" using sh by (cases w) auto
    obtain a where a: "write_items (depth + 1) True xs = Inr a" "s = CHR ''['' # a @ '']''"
      using "1.prems"(1) depth JArr by (auto simp: write_value.simps split: sum.splits)
    obtain b where b: "write_items (d' + 1) True ys = Inr b" "t = CHR ''['' # b @ '']''"
      using "1.prems"(2) depth w by (auto simp: write_value.simps split: sum.splits)
    have "xs = ys \<and> r = r'"
      using "1.IH"(1) [OF depth(1) JArr a(1) b(1), of r r'] "1.prems"(3,4,7) a(2) b(2) JArr w by simp
    then show ?thesis using JArr w by simp
  next
    case (JObj m)
    then obtain n where w: "w = JObj n" using sh by (cases w) auto
    obtain a where a: "write_members (depth + 1) True (utf16_sort m) = Inr a" "s = CHR ''{'' # a @ ''}''"
      using "1.prems"(1) depth JObj by (auto simp: write_value.simps split: sum.splits)
    obtain b where b: "write_members (d' + 1) True (utf16_sort n) = Inr b" "t = CHR ''{'' # b @ ''}''"
      using "1.prems"(2) depth w by (auto simp: write_value.simps split: sum.splits)
    have "utf16_sort m = utf16_sort n \<and> r = r'"
      using "1.IH"(2) [OF depth(1) JObj a(1) b(1), of r r'] "1.prems"(3,4,7) a(2) b(2) JObj w
      by (simp add: list_all_iff)
    then have "set m = set n" "r = r'" using set_utf16_sort by metis+
    then show ?thesis using JObj w "1.prems"(3,4) bt_wf_set_unique by auto
  qed
next
  case (2 depth first)
  have "ys = []"
  proof (rule ccontr)
    assume "ys \<noteq> []"
    then obtain y ys' where "ys = y # ys'" by (cases ys) auto
    then show False using write_items_first [of d' first y ys' t "CHR '']'' # r'" r] 2 by simp
  qed
  then show ?case using 2 by simp
next
  case (3 depth first x xs)
  obtain a as where a: "write_value depth x = Inr a" "write_items depth False xs = Inr as"
      "s = comma first @ a @ as"
    using "3.prems"(1) by (auto split: sum.splits)
  have "ys \<noteq> []"
  proof
    assume "ys = []"
    then have "s @ CHR '']'' # r = CHR '']'' # r'" using "3.prems"(2,5) by simp
    then show False using write_items_first [OF "3.prems"(1)] by blast
  qed
  then obtain y ys' where ys: "ys = y # ys'" by (cases ys) auto
  obtain b bs where b: "write_value d' y = Inr b" "write_items d' False ys' = Inr bs"
      "t = comma first @ b @ bs"
    using "3.prems"(2) ys by (auto split: sum.splits)
  have "a @ as @ CHR '']'' # r = b @ bs @ CHR '']'' # r'" using "3.prems"(5) a(3) b(3) by simp
  then have "x = y \<and> as @ CHR '']'' # r = bs @ CHR '']'' # r'"
    using "3.prems"(3,4) ys
    by (intro "3.IH"(1) [OF a(1) b(1) _ _ write_items_stop [OF a(2)] write_items_stop [OF b(2)]]) auto
  moreover have "xs = ys' \<and> r = r'" if "as @ CHR '']'' # r = bs @ CHR '']'' # r'"
    using "3.IH"(2) [OF a(1) a(2) b(2) _ _ that] "3.prems"(3,4) ys by simp
  ultimately show ?case using ys by simp
next
  case (4 depth first)
  have "n = []"
  proof (rule ccontr)
    assume "n \<noteq> []"
    then obtain y n' where "n = y # n'" by (cases n) auto
    then show False using write_members_first [of d' first y n' t "CHR ''}'' # r'" r] 4 by simp
  qed
  then show ?case using 4 by simp
next
  case (5 depth first k x m)
  obtain a as where a: "write_value depth x = Inr a" "write_members depth False m = Inr as"
      "s = comma first @ write_string k @ '':'' @ a @ as"
    using "5.prems"(1) by (auto split: sum.splits)
  have "n \<noteq> []"
  proof
    assume "n = []"
    then have "s @ CHR ''}'' # r = CHR ''}'' # r'" using "5.prems"(2,5) by simp
    then show False using write_members_first [OF "5.prems"(1)] by blast
  qed
  then obtain l y n' where n: "n = (l, y) # n'" by (cases n) auto
  obtain b bs where b: "write_value d' y = Inr b" "write_members d' False n' = Inr bs"
      "t = comma first @ write_string l @ '':'' @ b @ bs"
    using "5.prems"(2) n by (auto split: sum.splits)
  have "k = l \<and> CHR '':'' # a @ as @ CHR ''}'' # r = CHR '':'' # b @ bs @ CHR ''}'' # r'"
    using "5.prems"(5) a(3) b(3) by (intro write_string_split) simp
  moreover have "x = y \<and> as @ CHR ''}'' # r = bs @ CHR ''}'' # r'"
    if "a @ as @ CHR ''}'' # r = b @ bs @ CHR ''}'' # r'"
    using "5.prems"(3,4) n that
    by (intro "5.IH"(1) [OF a(1) b(1) _ _ write_members_stop [OF a(2)] write_members_stop [OF b(2)]]) auto
  moreover have "m = n' \<and> r = r'" if "as @ CHR ''}'' # r = bs @ CHR ''}'' # r'"
    using "5.IH"(2) [OF a(1) a(2) b(2) _ _ that] "5.prems"(3,4) n by simp
  ultimately show ?case using n by simp
qed

text \<open>C39: content addressing is sound: two values with the same canonical bytes are the same
  value, whatever order their keys were written in.\<close>

theorem canonical_injective:
  assumes "json_wf v" "json_wf w" "to_canonical_value v = Inr b" "to_canonical_value w = Inr b"
  shows "v = w"
proof -
  obtain s t where s: "write_value 0 v = Inr s" "write_value 0 w = Inr t" "string_bytes s = b" "string_bytes t = b"
    using assms(3,4) by (auto simp: to_canonical_value_def split: sum.splits)
  then have "s @ [] = t @ []" by (metis string_bytes_inj)
  then show ?thesis
    using write_split(1) [OF s(1,2) assms(1,2), of "[]" "[]"] by (simp add: stop_def)
qed


definition sample_json :: json where
  "sample_json = JObj [(''a'', JInt (- 1)), (''b'', JArr [JStr ''x'', JNull])]"

lemma one_char: "char_of (49 :: nat) = CHR ''1''"
  by code_simp

lemma sample_text: "write_value 0 sample_json = Inr (''{'' @ write_string ''a'' @ '':-1,'' @ write_string ''b'' @
    '':['' @ write_string ''x'' @ '',null]}'')"
  by (simp add: write_value.simps sample_json_def MAX_DEPTH_def utf16_sort_def utf16_units_def
      utf16_of_def comma_def int_text_def nat_to_dec.simps digit_char_def one_char)

theorem canonical_injective_witness:
  "\<exists>b. to_canonical_value sample_json = Inr b \<and>
     (\<forall>w. json_wf w \<and> to_canonical_value w = Inr b \<longrightarrow> w = sample_json)"
proof -
  obtain b where b: "to_canonical_value sample_json = Inr b"
    by (simp add: to_canonical_value_def sample_text)
  have "json_wf sample_json" by (simp add: sample_json_def)
  then show ?thesis using canonical_injective [OF _ _ _ b] b by blast
qed

end
