(* ===== verification/Proj_Cluster.thy ===== *)
theory Proj_Cluster
  imports Prelude "HOL-Library.Monad_Syntax"
begin

text \<open>
  The constraint-repair union-find of the read model
  (\<open>packages/openom-data-projection/src/lib.rs\<close>, \<open>Uf\<close> and \<open>cluster\<close>): positive edges are
  admitted best first, and an edge that would put both ends of a cut into one cluster is
  skipped and reported.  The two loops of \<open>Uf::find\<close> follow parent pointers that nothing in
  the type keeps acyclic, so they are partial functions: \<open>None\<close> stands for a loop that does
  not end (and, in \<open>cluster\<close>, for the panic of an index that is not in the map).  The first
  group of lemmas shows that on every forest the code builds they end at the least
  member of the cluster; the second relates \<open>cluster\<close> to the greedy merging of
  equivalence classes (\<open>greedy\<close>), where the order of the merges is all that is left.
\<close>

subsection \<open>The disjoint-set forest\<close>

type_synonym uf = "(string, string) btmap"

definition uf_new :: "string btset \<Rightarrow> uf" where
  "uf_new nodes = map (\<lambda>n. (n, n)) nodes"

partial_function (option) find_root :: "uf \<Rightarrow> string \<Rightarrow> string option" where
  "find_root p x =
     (case bt_get p x of
        None \<Rightarrow> Some x
      | Some q \<Rightarrow> if q = x then Some x else find_root p q)"

partial_function (option) compress_path :: "uf \<Rightarrow> string \<Rightarrow> string \<Rightarrow> uf option" where
  "compress_path p root cur =
     (if cur = root then Some p
      else compress_path (bt_insert cur root p) root
             (case bt_get p cur of None \<Rightarrow> root | Some q \<Rightarrow> q))"

declare find_root.simps [code] compress_path.simps [code]

definition uf_find :: "uf \<Rightarrow> string \<Rightarrow> (string \<times> uf) option" where
  "uf_find p x = do {
     root \<leftarrow> find_root p x;
     p' \<leftarrow> compress_path p root x;
     Some (root, p')
   }"

definition uf_union :: "uf \<Rightarrow> string \<Rightarrow> string \<Rightarrow> uf option" where
  "uf_union p a b = do {
     (ra, p1) \<leftarrow> uf_find p a;
     (rb, p2) \<leftarrow> uf_find p1 b;
     if ra = rb then Some p2
     else Some (if ra < rb then bt_insert rb ra p2 else bt_insert ra rb p2)
   }"

subsection \<open>Clustering\<close>

record edge =
  ed_a :: string
  ed_b :: string
  ed_score :: int

record clustering =
  cl_rep :: "(string, string) btmap"
  cl_skipped :: "(string \<times> string) list"

definition sorted_pair :: "string \<Rightarrow> string \<Rightarrow> string \<times> string" where
  "sorted_pair a b = (if a \<le> b then (a, b) else (b, a))"

definition sort_edges :: "edge list \<Rightarrow> edge list" where
  "sort_edges = sort_key (\<lambda>e. (- ed_score e, sorted_pair (ed_a e) (ed_b e)))"

fun violates :: "uf \<Rightarrow> string \<Rightarrow> string \<Rightarrow> (string \<times> string) list \<Rightarrow> (bool \<times> uf) option" where
  "violates p ra rb [] = Some (False, p)"
| "violates p ra rb (c # cuts) = do {
     (rp, p1) \<leftarrow> uf_find p (fst c);
     (rq, p2) \<leftarrow> uf_find p1 (snd c);
     if rp = ra \<and> rq = rb \<or> rp = rb \<and> rq = ra then Some (True, p2) else violates p2 ra rb cuts
   }"

definition admit_edge ::
  "(string \<times> string) list \<Rightarrow> edge \<Rightarrow> uf \<times> (string \<times> string) list \<Rightarrow>
     (uf \<times> (string \<times> string) list) option" where
  "admit_edge cuts e st = do {
     (ra, p1) \<leftarrow> uf_find (fst st) (ed_a e);
     (rb, p2) \<leftarrow> uf_find p1 (ed_b e);
     if ra = rb then Some (p2, snd st)
     else do {
       (bad, p3) \<leftarrow> violates p2 ra rb cuts;
       if bad then Some (p3, snd st @ [sorted_pair (ed_a e) (ed_b e)])
       else do { p4 \<leftarrow> uf_union p3 ra rb; Some (p4, snd st) }
     }
   }"

fun admit_edges ::
  "(string \<times> string) list \<Rightarrow> edge list \<Rightarrow> uf \<times> (string \<times> string) list \<Rightarrow>
     (uf \<times> (string \<times> string) list) option" where
  "admit_edges cuts [] st = Some st"
| "admit_edges cuts (e # es) st = do { st' \<leftarrow> admit_edge cuts e st; admit_edges cuts es st' }"

text \<open>The least member of every cluster.\<close>

fun min_members :: "string list \<Rightarrow> uf \<Rightarrow> (string, string) btmap \<Rightarrow> ((string, string) btmap \<times> uf) option" where
  "min_members [] p m = Some (m, p)"
| "min_members (n # ns) p m = do {
     (root, p1) \<leftarrow> uf_find p n;
     let cur = (case bt_get m root of None \<Rightarrow> n | Some x \<Rightarrow> x);
     min_members ns p1 (bt_insert root (if n < cur then n else cur) m)
   }"

fun rep_of :: "string list \<Rightarrow> uf \<Rightarrow> (string, string) btmap \<Rightarrow> (string, string) btmap option" where
  "rep_of [] p m = Some []"
| "rep_of (n # ns) p m = do {
     (root, p1) \<leftarrow> uf_find p n;
     least \<leftarrow> bt_get m root;
     rest \<leftarrow> rep_of ns p1 m;
     Some ((n, least) # rest)
   }"

definition cluster ::
  "string btset \<Rightarrow> edge list \<Rightarrow> (string \<times> string) list \<Rightarrow> clustering option" where
  "cluster nodes edges cuts = do {
     (p, skipped) \<leftarrow> admit_edges cuts (sort_edges edges) (uf_new nodes, []);
     (m, p1) \<leftarrow> min_members nodes p [];
     rep \<leftarrow> rep_of nodes p1 m;
     Some \<lparr>cl_rep = rep, cl_skipped = remdups_adj (sort skipped)\<rparr>
   }"

subsection \<open>Forests whose pointers descend\<close>

text \<open>Every forest the code builds points downwards: a union makes the smaller root the
  parent, and compression points at a root.\<close>

definition uf_ok :: "string btset \<Rightarrow> uf \<Rightarrow> bool" where
  "uf_ok nodes p \<longleftrightarrow> bt_wf p \<and> fst ` set p = set nodes \<and>
     (\<forall>x y. bt_get p x = Some y \<longrightarrow> y \<in> set nodes \<and> y \<le> x)"

definition root :: "uf \<Rightarrow> string \<Rightarrow> string" where
  "root p x = the (find_root p x)"

lemma uf_ok_get: "uf_ok nodes p \<Longrightarrow> x \<in> set nodes \<Longrightarrow> \<exists>y. bt_get p x = Some y \<and> y \<in> set nodes \<and> y \<le> x"
  by (metis uf_ok_def map_of_eq_None_iff not_Some_eq)

lemma find_root_step:
  "find_root p x = (case bt_get p x of None \<Rightarrow> Some x | Some q \<Rightarrow> if q = x then Some x else find_root p q)"
  by (rule find_root.simps)

text \<open>Induction along the parent pointers of a descending forest.\<close>

lemma uf_induct [consumes 2, case_names root step]:
  assumes "uf_ok nodes p" "x \<in> set nodes"
    and root: "\<And>x. x \<in> set nodes \<Longrightarrow> bt_get p x = Some x \<Longrightarrow> P x"
    and step: "\<And>x y. x \<in> set nodes \<Longrightarrow> bt_get p x = Some y \<Longrightarrow> y < x \<Longrightarrow> y \<in> set nodes \<Longrightarrow> P y \<Longrightarrow> P x"
  shows "P x"
  using assms(2)
proof (induction "card {z \<in> set nodes. z < x}" arbitrary: x rule: less_induct)
  case less
  obtain y where y: "bt_get p x = Some y" "y \<in> set nodes" "y \<le> x"
    using uf_ok_get [OF assms(1) less.prems] by blast
  show ?case
  proof (cases "y = x")
    case True
    then show ?thesis using root less.prems y by simp
  next
    case False
    then have "y < x" using y by simp
    then have "{z \<in> set nodes. z < y} \<subset> {z \<in> set nodes. z < x}" using y(2) by auto
    then have "card {z \<in> set nodes. z < y} < card {z \<in> set nodes. z < x}"
      by (intro psubset_card_mono) auto
    then have "P y" by (rule less.hyps) (rule y(2))
    then show ?thesis by (rule step [OF less.prems y(1) \<open>y < x\<close> y(2)])
  qed
qed

lemma find_root_Some:
  assumes "uf_ok nodes p" "x \<in> set nodes"
  shows "find_root p x = Some (root p x) \<and> root p x \<in> set nodes \<and> root p x \<le> x \<and>
    bt_get p (root p x) = Some (root p x)"
  using assms
proof (induction rule: uf_induct)
  case (root x)
  then have "find_root p x = Some x" by (subst find_root_step) simp
  then show ?case using root by (simp add: root_def)
next
  case (step x y)
  then have "y \<noteq> x" by auto
  with step have "find_root p x = find_root p y" by (subst find_root_step) simp
  moreover have "root p x = root p y" using calculation by (simp add: root_def)
  ultimately show ?case using step by auto
qed

lemma root_root: "uf_ok nodes p \<Longrightarrow> x \<in> set nodes \<Longrightarrow> root p (root p x) = root p x"
proof -
  assume a: "uf_ok nodes p" "x \<in> set nodes"
  then have "find_root p (root p x) = Some (root p x)"
    using find_root_Some [OF a] by (subst find_root_step) simp
  then show ?thesis by (simp add: root_def)
qed

lemma root_parent: "bt_get p x = Some y \<Longrightarrow> root p y = root p x"
proof (cases "y = x")
  case False
  assume "bt_get p x = Some y"
  then have "find_root p x = find_root p y" using False by (subst find_root_step) simp
  then show ?thesis by (simp add: root_def)
qed simp

lemma root_fixed: "bt_get p x = Some x \<Longrightarrow> root p x = x"
proof -
  assume "bt_get p x = Some x"
  then have "find_root p x = Some x" by (subst find_root_step) simp
  then show ?thesis by (simp add: root_def)
qed

text \<open>A map that is constant along parent pointers and fixes the roots is the root map.\<close>

lemma root_unique:
  assumes "uf_ok nodes p" "x \<in> set nodes"
    and "\<And>y z. bt_get p y = Some z \<Longrightarrow> f z = f y" "\<And>y. bt_get p y = Some y \<Longrightarrow> f y = y"
  shows "root p x = f x"
  using assms(1,2)
proof (induction rule: uf_induct)
  case (root x)
  then show ?case using assms(4) by (simp add: root_fixed)
next
  case (step x y)
  then show ?case using assms(3) root_parent by metis
qed

lemma uf_ok_set_parent:
  "uf_ok nodes p \<Longrightarrow> x \<in> set nodes \<Longrightarrow> r \<in> set nodes \<Longrightarrow> r \<le> x \<Longrightarrow> uf_ok nodes (bt_insert x r p)"
  by (auto simp: uf_ok_def split: if_splits)

text \<open>Pointing a node at its root changes no root; pointing a root below itself moves its cluster.\<close>

lemma root_compress:
  assumes "uf_ok nodes p" "x \<in> set nodes" "z \<in> set nodes"
  shows "root (bt_insert x (root p x) p) z = root p z"
proof (rule root_unique)
  show "uf_ok nodes (bt_insert x (root p x) p)"
    using assms find_root_Some by (intro uf_ok_set_parent) auto
  fix y w assume w: "bt_get (bt_insert x (root p x) p) y = Some w"
  show "root p w = root p y"
    using w assms root_root root_parent by (auto split: if_splits)
next
  fix y assume "bt_get (bt_insert x (root p x) p) y = Some y"
  then show "root p y = y" by (auto simp: root_fixed split: if_splits)
qed (rule assms)

lemma root_link:
  assumes "uf_ok nodes p" "a \<in> set nodes" "b \<in> set nodes" "z \<in> set nodes"
    and "root p a = a" "root p b = b" "a < b"
  shows "root (bt_insert b a p) z = (if root p z = b then a else root p z)"
proof (rule root_unique)
  show "uf_ok nodes (bt_insert b a p)" using assms by (intro uf_ok_set_parent) auto
  fix y w assume "bt_get (bt_insert b a p) y = Some w"
  then show "(if root p w = b then a else root p w) = (if root p y = b then a else root p y)"
    using assms root_parent by (auto split: if_splits)
next
  fix y assume y: "bt_get (bt_insert b a p) y = Some y"
  then have "y \<noteq> b" using assms by auto
  then show "(if root p y = b then a else root p y) = y" using y by (auto simp: root_fixed)
qed (rule assms)

lemma compress_path_step:
  "compress_path p r cur = (if cur = r then Some p
     else compress_path (bt_insert cur r p) r (case bt_get p cur of None \<Rightarrow> r | Some q \<Rightarrow> q))"
  by (rule compress_path.simps)

text \<open>Two forests agree when they have the same roots.\<close>

definition same_roots :: "string btset \<Rightarrow> uf \<Rightarrow> uf \<Rightarrow> bool" where
  "same_roots nodes p q \<longleftrightarrow> uf_ok nodes q \<and> (\<forall>z \<in> set nodes. root q z = root p z)"

lemma same_roots_refl: "uf_ok nodes p \<Longrightarrow> same_roots nodes p p"
  by (simp add: same_roots_def)

lemma same_roots_trans: "same_roots nodes p q \<Longrightarrow> same_roots nodes q r \<Longrightarrow> same_roots nodes p r"
  by (simp add: same_roots_def)

lemma compress_path_ok:
  assumes "uf_ok nodes p" "cur \<in> set nodes"
  shows "\<exists>q. compress_path p (root p cur) cur = Some q \<and> same_roots nodes p q"
  using assms
proof (induction "card {z \<in> set nodes. z < cur}" arbitrary: p cur rule: less_induct)
  case less
  obtain y where y: "bt_get p cur = Some y" "y \<in> set nodes" "y \<le> cur"
    using uf_ok_get [OF less.prems] by blast
  show ?case
  proof (cases "cur = root p cur")
    case True
    then have "compress_path p (root p cur) cur = Some p" by (subst compress_path_step) simp
    then show ?thesis using less.prems(1) by (auto intro: same_roots_refl)
  next
    case False
    let ?p = "bt_insert cur (root p cur) p"
    have ok: "uf_ok nodes ?p" and same: "same_roots nodes p ?p"
      using less.prems find_root_Some root_compress
      by (auto simp: same_roots_def intro!: uf_ok_set_parent)
    have "y \<noteq> cur" using False y(1) root_fixed by metis
    then have "y < cur" using y by simp
    then have "{z \<in> set nodes. z < y} \<subset> {z \<in> set nodes. z < cur}" using y(2) by auto
    then have lt: "card {z \<in> set nodes. z < y} < card {z \<in> set nodes. z < cur}"
      by (intro psubset_card_mono) auto
    have r: "root ?p y = root p cur"
      using same y root_parent by (simp add: same_roots_def)
    obtain q where "compress_path ?p (root p cur) y = Some q" "same_roots nodes ?p q"
      using less.hyps [OF lt ok y(2)] r by auto
    then show ?thesis
      using False y(1) same same_roots_trans by (subst compress_path_step) auto
  qed
qed

lemma uf_find_ok:
  assumes "uf_ok nodes p" "x \<in> set nodes"
  shows "\<exists>q. uf_find p x = Some (root p x, q) \<and> same_roots nodes p q"
  using find_root_Some [OF assms] compress_path_ok [OF assms] by (auto simp: uf_find_def)

lemma uf_union_ok:
  assumes "uf_ok nodes p" "a \<in> set nodes" "b \<in> set nodes"
  shows "\<exists>q. uf_union p a b = Some q \<and> uf_ok nodes q \<and>
    (\<forall>z \<in> set nodes. root q z =
       (if root p z \<in> {root p a, root p b} then min (root p a) (root p b) else root p z))"
proof -
  obtain p1 where p1: "uf_find p a = Some (root p a, p1)" "same_roots nodes p p1"
    using uf_find_ok [OF assms(1,2)] by blast
  then have ok1: "uf_ok nodes p1" and r1: "\<And>z. z \<in> set nodes \<Longrightarrow> root p1 z = root p z"
    by (auto simp: same_roots_def)
  obtain p2 where p2: "uf_find p1 b = Some (root p b, p2)" "same_roots nodes p p2"
    using uf_find_ok [OF ok1 assms(3)] r1 [OF assms(3)] p1(2) same_roots_trans by metis
  then have ok2: "uf_ok nodes p2" and r2: "\<And>z. z \<in> set nodes \<Longrightarrow> root p2 z = root p z"
    by (auto simp: same_roots_def)
  have in_nodes: "root p a \<in> set nodes" "root p b \<in> set nodes"
    using find_root_Some assms by auto
  have fixed: "root p2 (root p a) = root p a" "root p2 (root p b) = root p b"
    using r2 root_root assms in_nodes by auto
  consider "root p a = root p b" | "root p a < root p b" | "root p b < root p a"
    by (rule linorder_cases)
  then show ?thesis
  proof cases
    case 1
    then show ?thesis using p1 p2 ok2 r2 by (auto simp: uf_union_def)
  next
    case 2
    then show ?thesis
      using p1(1) p2(1) ok2 r2 in_nodes fixed root_link [OF ok2 in_nodes]
      by (auto simp: uf_union_def min_def intro!: uf_ok_set_parent)
  next
    case 3
    then show ?thesis
      using p1(1) p2(1) ok2 r2 in_nodes fixed root_link [OF ok2 in_nodes(2,1)]
      by (auto simp: uf_union_def min_def intro!: uf_ok_set_parent)
  qed
qed

lemma uf_new_ok: "bs_wf nodes \<Longrightarrow> uf_ok nodes (uf_new nodes)"
proof -
  assume "bs_wf nodes"
  then have "bt_wf (uf_new nodes)" by (simp add: bt_wf_def bs_wf_def uf_new_def comp_def)
  moreover have "bt_get (uf_new nodes) x = (if x \<in> set nodes then Some x else None)" for x
    by (simp add: uf_new_def map_of_map_restrict restrict_map_def)
  ultimately show ?thesis by (auto simp: uf_ok_def uf_new_def image_image)
qed

lemma root_uf_new: "x \<in> set nodes \<Longrightarrow> root (uf_new nodes) x = x"
  by (rule root_fixed) (simp add: uf_new_def map_of_map_restrict restrict_map_def)


subsection \<open>Greedy merging of equivalence classes\<close>

text \<open>What \<open>cluster\<close> promises, on equivalence relations: take the edges best first and join the
  two classes of an edge unless that would put both ends of a cut into one class.\<close>

type_synonym classes = "(string \<times> string) set"

definition join :: "classes \<Rightarrow> string \<Rightarrow> string \<Rightarrow> classes" where
  "join E a b = E \<union> {(x, y). (x, a) \<in> E \<and> (b, y) \<in> E} \<union> {(x, y). (x, b) \<in> E \<and> (a, y) \<in> E}"

fun greedy :: "(string \<times> string) list \<Rightarrow> edge list \<Rightarrow> classes \<times> (string \<times> string) set \<Rightarrow>
    classes \<times> (string \<times> string) set" where
  "greedy cuts [] st = st"
| "greedy cuts (e # es) (E, S) =
     greedy cuts es
       (if (ed_a e, ed_b e) \<in> E then (E, S)
        else if \<exists>c \<in> set cuts. c \<in> join E (ed_a e) (ed_b e)
        then (E, insert (sorted_pair (ed_a e) (ed_b e)) S)
        else (join E (ed_a e) (ed_b e), S))"

definition classes_of :: "string btset \<Rightarrow> uf \<Rightarrow> classes" where
  "classes_of nodes p = {(x, y). x \<in> set nodes \<and> y \<in> set nodes \<and> root p x = root p y}"

definition cut_free :: "(string \<times> string) list \<Rightarrow> classes \<Rightarrow> bool" where
  "cut_free cuts E \<longleftrightarrow> (\<forall>c \<in> set cuts. c \<notin> E)"

definition ends_in :: "string btset \<Rightarrow> (string \<times> string) list \<Rightarrow> bool" where
  "ends_in nodes ps \<longleftrightarrow> (\<forall>p \<in> set ps. fst p \<in> set nodes \<and> snd p \<in> set nodes)"

lemma classes_of_same: "same_roots nodes p q \<Longrightarrow> classes_of nodes q = classes_of nodes p"
  by (auto simp: classes_of_def same_roots_def)

lemma violates_ok:
  assumes "uf_ok nodes p" "ends_in nodes cuts"
  shows "\<exists>q. violates p ra rb cuts =
      Some (list_ex (\<lambda>c. root p (fst c) = ra \<and> root p (snd c) = rb \<or>
                         root p (fst c) = rb \<and> root p (snd c) = ra) cuts, q) \<and> same_roots nodes p q"
  using assms
proof (induction cuts arbitrary: p)
  case (Cons c cuts)
  have ends: "fst c \<in> set nodes" "snd c \<in> set nodes" "ends_in nodes cuts"
    using Cons.prems(2) by (auto simp: ends_in_def)
  obtain p1 where p1: "uf_find p (fst c) = Some (root p (fst c), p1)" "same_roots nodes p p1"
    using uf_find_ok [OF Cons.prems(1) ends(1)] by blast
  have ok1: "uf_ok nodes p1" and r1: "root p1 (snd c) = root p (snd c)"
    using p1(2) ends by (auto simp: same_roots_def)
  obtain p2 where p2: "uf_find p1 (snd c) = Some (root p (snd c), p2)" "same_roots nodes p p2"
    using uf_find_ok [OF ok1 ends(2)] r1 p1(2) same_roots_trans by metis
  have ok2: "uf_ok nodes p2" and r2: "\<And>z. z \<in> set nodes \<Longrightarrow> root p2 z = root p z"
    using p2(2) by (auto simp: same_roots_def)
  obtain q where q: "violates p2 ra rb cuts =
      Some (list_ex (\<lambda>c. root p2 (fst c) = ra \<and> root p2 (snd c) = rb \<or>
                         root p2 (fst c) = rb \<and> root p2 (snd c) = ra) cuts, q)" "same_roots nodes p2 q"
    using Cons.IH [OF ok2 ends(3)] by blast
  have ex: "list_ex (\<lambda>c. root p2 (fst c) = ra \<and> root p2 (snd c) = rb \<or>
                         root p2 (fst c) = rb \<and> root p2 (snd c) = ra) cuts =
            list_ex (\<lambda>c. root p (fst c) = ra \<and> root p (snd c) = rb \<or>
                         root p (fst c) = rb \<and> root p (snd c) = ra) cuts"
    by (rule list_ex_cong) (use ends(3) r2 in \<open>auto simp: ends_in_def\<close>)
  show ?case
    using p1(1) p2 q ex same_roots_trans [OF p2(2) q(2)] by auto
qed (simp add: same_roots_refl)

text \<open>Joining two classes of a cut-free relation puts a cut inside exactly when its ends are in
  those two classes.\<close>

lemma cut_in_join:
  assumes "uf_ok nodes p" "a \<in> set nodes" "b \<in> set nodes" "ends_in nodes cuts"
    and "cut_free cuts (classes_of nodes p)"
  shows "(\<exists>c \<in> set cuts. c \<in> join (classes_of nodes p) a b) =
    list_ex (\<lambda>c. root p (fst c) = root p a \<and> root p (snd c) = root p b \<or>
                 root p (fst c) = root p b \<and> root p (snd c) = root p a) cuts"
proof -
  have "c \<in> join (classes_of nodes p) a b \<longleftrightarrow>
      root p (fst c) = root p a \<and> root p (snd c) = root p b \<or>
      root p (fst c) = root p b \<and> root p (snd c) = root p a" if "c \<in> set cuts" for c
  proof -
    have nodes: "fst c \<in> set nodes" "snd c \<in> set nodes" and "c \<notin> classes_of nodes p"
      using that assms(4,5) by (auto simp: cut_free_def ends_in_def)
    then have "root p (fst c) \<noteq> root p (snd c)" by (cases c) (simp add: classes_of_def)
    with nodes assms(2,3) show ?thesis by (cases c) (simp add: join_def classes_of_def, metis)
  qed
  then show ?thesis by (auto simp: list_ex_iff)
qed

lemma classes_of_union:
  assumes "a \<in> set nodes" "b \<in> set nodes"
    and "\<And>z. z \<in> set nodes \<Longrightarrow> root q z =
       (if root p z \<in> {root p a, root p b} then min (root p a) (root p b) else root p z)"
  shows "classes_of nodes q = join (classes_of nodes p) a b"
  using assms by (auto simp: classes_of_def join_def min_def split: if_splits)

text \<open>The simulation: a forest and its classes, the skipped list and its elements.\<close>

definition simulates ::
  "string btset \<Rightarrow> (string \<times> string) list \<Rightarrow> uf \<times> (string \<times> string) list \<Rightarrow>
     classes \<times> (string \<times> string) set \<Rightarrow> bool" where
  "simulates nodes cuts st spec \<longleftrightarrow>
     uf_ok nodes (fst st) \<and> cut_free cuts (fst spec) \<and>
     spec = (classes_of nodes (fst st), set (snd st))"

lemma admit_edge_simulates:
  assumes sim: "simulates nodes cuts st (E, S)"
    and e: "ed_a e \<in> set nodes" "ed_b e \<in> set nodes" and cuts: "ends_in nodes cuts"
  shows "\<exists>st' spec'. admit_edge cuts e st = Some st' \<and> simulates nodes cuts st' spec' \<and>
    greedy cuts (e # es) (E, S) = greedy cuts es spec'"
proof -
  let ?a = "ed_a e" and ?b = "ed_b e"
  obtain p sk where st: "st = (p, sk)" by (cases st)
  have ok: "uf_ok nodes p" and E: "E = classes_of nodes p" and S: "S = set sk"
    and free: "cut_free cuts (classes_of nodes p)"
    using sim by (auto simp: simulates_def st)
  obtain p1 where p1: "uf_find p ?a = Some (root p ?a, p1)" "same_roots nodes p p1"
    using uf_find_ok [OF ok e(1)] by blast
  have ok1: "uf_ok nodes p1" and r1: "root p1 ?b = root p ?b"
    using p1(2) e by (auto simp: same_roots_def)
  obtain p2 where p2: "uf_find p1 ?b = Some (root p ?b, p2)" "same_roots nodes p p2"
    using uf_find_ok [OF ok1 e(2)] r1 p1(2) same_roots_trans by metis
  have ok2: "uf_ok nodes p2" and r2: "\<And>z. z \<in> set nodes \<Longrightarrow> root p2 z = root p z"
    using p2(2) by (auto simp: same_roots_def)
  have same2: "classes_of nodes p2 = E" using classes_of_same [OF p2(2)] E by simp
  have joined: "(?a, ?b) \<in> E \<longleftrightarrow> root p ?a = root p ?b" using e by (simp add: E classes_of_def)
  show ?thesis
  proof (cases "root p ?a = root p ?b")
    case True
    then have "admit_edge cuts e st = Some (p2, sk)" using p1 p2 by (simp add: admit_edge_def st)
    then show ?thesis
      using True joined ok2 same2 free E S by (auto simp: simulates_def cut_free_def)
  next
    case False
    obtain p3 where p3: "violates p2 (root p ?a) (root p ?b) cuts =
        Some (list_ex (\<lambda>c. root p2 (fst c) = root p ?a \<and> root p2 (snd c) = root p ?b \<or>
                           root p2 (fst c) = root p ?b \<and> root p2 (snd c) = root p ?a) cuts, p3)"
        "same_roots nodes p2 p3"
      using violates_ok [OF ok2 cuts] by blast
    have ok3: "uf_ok nodes p3" and same3: "classes_of nodes p3 = E"
      using p3(2) classes_of_same [OF p3(2)] same2 by (auto simp: same_roots_def)
    have bad: "list_ex (\<lambda>c. root p2 (fst c) = root p ?a \<and> root p2 (snd c) = root p ?b \<or>
                           root p2 (fst c) = root p ?b \<and> root p2 (snd c) = root p ?a) cuts =
        (\<exists>c \<in> set cuts. c \<in> join E ?a ?b)"
      using cut_in_join [OF ok2 e cuts] free same2 E r2 [OF e(1)] r2 [OF e(2)] by simp
    show ?thesis
    proof (cases "\<exists>c \<in> set cuts. c \<in> join E ?a ?b")
      case True
      then have "admit_edge cuts e st = Some (p3, sk @ [sorted_pair ?a ?b])"
        using False p1 p2 p3 bad by (simp add: admit_edge_def st)
      then show ?thesis
        using True False joined ok3 same3 free E S by (auto simp: simulates_def cut_free_def)
    next
      case nobad: False
      have nodes: "root p ?a \<in> set nodes" "root p ?b \<in> set nodes"
        using find_root_Some ok e by auto
      have r3: "\<And>z. z \<in> set nodes \<Longrightarrow> root p3 z = root p z"
        using r2 p3(2) by (auto simp: same_roots_def)
      have rr: "root p3 (root p ?a) = root p ?a" "root p3 (root p ?b) = root p ?b"
        using r3 nodes root_root [OF ok] e by auto
      obtain p4 where p4: "uf_union p3 (root p ?a) (root p ?b) = Some p4" "uf_ok nodes p4"
        "\<And>z. z \<in> set nodes \<Longrightarrow> root p4 z = (if root p3 z \<in> {root p3 (root p ?a), root p3 (root p ?b)}
            then min (root p3 (root p ?a)) (root p3 (root p ?b)) else root p3 z)"
        using uf_union_ok [OF ok3 nodes] by blast
      have "classes_of nodes p4 = join (classes_of nodes p3) ?a ?b"
        using p4(3) rr r3 e by (intro classes_of_union) auto
      then have cl: "classes_of nodes p4 = join E ?a ?b" using same3 by simp
      have "admit_edge cuts e st = Some (p4, sk)"
        using False p1 p2 p3 bad nobad p4 by (simp add: admit_edge_def st)
      then show ?thesis
        using False nobad joined p4(2) cl S by (auto simp: simulates_def cut_free_def)
    qed
  qed
qed

definition edges_in :: "string btset \<Rightarrow> edge list \<Rightarrow> bool" where
  "edges_in nodes es \<longleftrightarrow> (\<forall>e \<in> set es. ed_a e \<in> set nodes \<and> ed_b e \<in> set nodes)"

lemma admit_edges_simulates:
  assumes "simulates nodes cuts st spec" "edges_in nodes es" "ends_in nodes cuts"
  shows "\<exists>st'. admit_edges cuts es st = Some st' \<and> simulates nodes cuts st' (greedy cuts es spec)"
  using assms
proof (induction es arbitrary: st spec)
  case (Cons e es)
  obtain E S where spec: "spec = (E, S)" by (cases spec)
  have e: "ed_a e \<in> set nodes" "ed_b e \<in> set nodes" and es: "edges_in nodes es"
    using Cons.prems(2) by (auto simp: edges_in_def)
  obtain st1 spec1 where one: "admit_edge cuts e st = Some st1" "simulates nodes cuts st1 spec1"
      "greedy cuts (e # es) (E, S) = greedy cuts es spec1"
    using admit_edge_simulates [OF Cons.prems(1) [unfolded spec] e Cons.prems(3)] by blast
  show ?case using Cons.IH [OF one(2) es Cons.prems(3)] one(1,3) spec by auto
qed simp

subsection \<open>The representative of a cluster\<close>

lemma min_members_ok:
  assumes "uf_ok nodes p" "set ns \<subseteq> set nodes" "\<And>k v. bt_get m k = Some v \<Longrightarrow> k \<le> v"
  shows "\<exists>m' q. min_members ns p m = Some (m', q) \<and> same_roots nodes p q \<and>
    (\<forall>k. bt_get m k = Some k \<or> k \<in> set ns \<and> root p k = k \<longrightarrow> bt_get m' k = Some k)"
  using assms
proof (induction ns arbitrary: p m)
  case (Cons n ns)
  have n: "n \<in> set nodes" using Cons.prems(2) by simp
  obtain p1 where p1: "uf_find p n = Some (root p n, p1)" "same_roots nodes p p1"
    using uf_find_ok [OF Cons.prems(1) n] by blast
  have ok1: "uf_ok nodes p1" using p1(2) by (simp add: same_roots_def)
  have le: "root p n \<le> n" using find_root_Some [OF Cons.prems(1) n] by simp
  let ?cur = "case bt_get m (root p n) of None \<Rightarrow> n | Some x \<Rightarrow> x"
  let ?m = "bt_insert (root p n) (if n < ?cur then n else ?cur) m"
  have cur: "root p n \<le> ?cur" using le Cons.prems(3) by (auto split: option.splits)
  have above: "\<And>k v. bt_get ?m k = Some v \<Longrightarrow> k \<le> v"
    using le cur Cons.prems(3) by (auto split: if_splits)
  have "set ns \<subseteq> set nodes" using Cons.prems(2) by simp
  from Cons.IH [OF ok1 this above] obtain m' q where r: "min_members ns p1 ?m = Some (m', q)"
      "same_roots nodes p1 q"
      "\<forall>k. bt_get ?m k = Some k \<or> k \<in> set ns \<and> root p1 k = k \<longrightarrow> bt_get m' k = Some k"
    by blast
  have "bt_get m' k = Some k" if k: "bt_get m k = Some k \<or> k \<in> set (n # ns) \<and> root p k = k" for k
  proof (rule r(3) [rule_format])
    have "k \<in> set ns \<and> root p k = k \<Longrightarrow> root p1 k = k"
      using p1(2) Cons.prems(2) by (auto simp: same_roots_def)
    moreover have "bt_get ?m k = Some k" if "bt_get m k = Some k \<or> k = n \<and> root p k = k"
      using that le cur by (auto simp: not_less)
    ultimately show "bt_get ?m k = Some k \<or> k \<in> set ns \<and> root p1 k = k" using k by auto
  qed
  then show ?case
    using p1(1) r(1) same_roots_trans [OF p1(2) r(2)] by auto
qed (simp add: same_roots_refl)

lemma rep_of_ok:
  assumes "uf_ok nodes p" "set ns \<subseteq> set nodes" "\<And>k. k \<in> set nodes \<Longrightarrow> bt_get m (root p k) = Some (root p k)"
  shows "rep_of ns p m = Some (map (\<lambda>n. (n, root p n)) ns)"
  using assms
proof (induction ns arbitrary: p)
  case (Cons n ns)
  obtain p1 where p1: "uf_find p n = Some (root p n, p1)" "same_roots nodes p p1"
    using uf_find_ok [OF Cons.prems(1)] Cons.prems(2) by auto
  then have ok1: "uf_ok nodes p1" and r1: "\<And>z. z \<in> set nodes \<Longrightarrow> root p1 z = root p z"
    by (auto simp: same_roots_def)
  have "rep_of ns p1 m = Some (map (\<lambda>n. (n, root p1 n)) ns)"
    using Cons.prems r1 by (intro Cons.IH [OF ok1]) auto
  then show ?case using p1(1) Cons.prems(2,3) r1 by (auto simp: map_eq_conv)
qed simp

lemma root_is_Min:
  assumes "uf_ok nodes p" "n \<in> set nodes"
  shows "root p n = Min (classes_of nodes p `` {n})"
proof -
  have fin: "finite (classes_of nodes p `` {n})"
    by (rule finite_subset [of _ "set nodes"]) (auto simp: classes_of_def)
  have "root p n \<le> z" if "z \<in> classes_of nodes p `` {n}" for z
    using that find_root_Some [OF assms(1), of z] by (auto simp: classes_of_def)
  moreover have "root p n \<in> classes_of nodes p `` {n}"
    using find_root_Some [OF assms] root_root [OF assms] assms(2) by (auto simp: classes_of_def)
  ultimately show ?thesis using fin by (metis Min_eqI)
qed

definition proper_cuts :: "(string \<times> string) list \<Rightarrow> bool" where
  "proper_cuts cuts \<longleftrightarrow> (\<forall>c \<in> set cuts. fst c \<noteq> snd c)"

lemma classes_of_new: "classes_of nodes (uf_new nodes) = Id_on (set nodes)"
  by (auto simp: classes_of_def root_uf_new)

lemma set_sort_edges [simp]: "set (sort_edges es) = set es"
  by (simp add: sort_edges_def)

lemma cluster_is_greedy:
  assumes "bs_wf nodes" "edges_in nodes edges" "ends_in nodes cuts" "proper_cuts cuts"
    and "greedy cuts (sort_edges edges) (Id_on (set nodes), {}) = (E, S)"
  shows "\<exists>p. uf_ok nodes p \<and> E = classes_of nodes p \<and> finite S \<and>
    cluster nodes edges cuts =
      Some \<lparr>cl_rep = map (\<lambda>n. (n, root p n)) nodes, cl_skipped = sorted_list_of_set S\<rparr>"
proof -
  have "simulates nodes cuts (uf_new nodes, []) (Id_on (set nodes), {})"
    using assms(1,4) uf_new_ok
    by (auto simp: simulates_def cut_free_def proper_cuts_def classes_of_new)
  moreover have "edges_in nodes (sort_edges edges)" using assms(2) by (simp add: edges_in_def)
  ultimately obtain p sk where adm: "admit_edges cuts (sort_edges edges) (uf_new nodes, []) = Some (p, sk)"
      "simulates nodes cuts (p, sk) (E, S)"
    using admit_edges_simulates [OF _ _ assms(3)] assms(5) by (metis surj_pair)
  then have ok: "uf_ok nodes p" and E: "E = classes_of nodes p" and S: "S = set sk"
    by (auto simp: simulates_def)
  obtain m q where m: "min_members nodes p [] = Some (m, q)" "same_roots nodes p q"
      "\<And>k. k \<in> set nodes \<Longrightarrow> root p k = k \<Longrightarrow> bt_get m k = Some k"
    using min_members_ok [OF ok order_refl, of "[]"] by auto
  have okq: "uf_ok nodes q" and rq: "\<And>z. z \<in> set nodes \<Longrightarrow> root q z = root p z"
    using m(2) by (auto simp: same_roots_def)
  have "rep_of nodes q m = Some (map (\<lambda>n. (n, root q n)) nodes)"
    using rq m(3) find_root_Some [OF ok] root_root [OF ok] by (intro rep_of_ok [OF okq]) auto
  moreover have "map (\<lambda>n. (n, root q n)) nodes = map (\<lambda>n. (n, root p n)) nodes" using rq by simp
  moreover have "remdups_adj (sort sk) = sorted_list_of_set S" by (simp add: S sort_dedup)
  ultimately show ?thesis using adm(1) m(1) ok E S by (auto simp: cluster_def)
qed

text \<open>C35: the clustering implements the greedy merging.  It always returns, every node's
  representative is the least member of its class, and the reported edges are the skipped ones.\<close>

theorem cluster_refines_greedy:
  assumes "bs_wf nodes" "edges_in nodes edges" "ends_in nodes cuts" "proper_cuts cuts"
  shows "\<exists>E S. greedy cuts (sort_edges edges) (Id_on (set nodes), {}) = (E, S) \<and>
    cluster nodes edges cuts =
      Some \<lparr>cl_rep = map (\<lambda>n. (n, Min (E `` {n}))) nodes, cl_skipped = sorted_list_of_set S\<rparr>"
proof -
  obtain E S where g: "greedy cuts (sort_edges edges) (Id_on (set nodes), {}) = (E, S)"
    by (cases "greedy cuts (sort_edges edges) (Id_on (set nodes), {})")
  then obtain p where p: "uf_ok nodes p" "E = classes_of nodes p"
      "cluster nodes edges cuts =
        Some \<lparr>cl_rep = map (\<lambda>n. (n, root p n)) nodes, cl_skipped = sorted_list_of_set S\<rparr>"
    using cluster_is_greedy [OF assms] by blast
  have "map (\<lambda>n. (n, root p n)) nodes = map (\<lambda>n. (n, Min (E `` {n}))) nodes"
    using root_is_Min [OF p(1)] p(2) by simp
  then show ?thesis using g p(3) by auto
qed


subsection \<open>What the clusters are\<close>

definition linked :: "edge list \<Rightarrow> (string \<times> string) set" where
  "linked es = (\<lambda>e. (ed_a e, ed_b e)) ` set es \<union> (\<lambda>e. (ed_b e, ed_a e)) ` set es"

lemma join_mono: "E \<subseteq> F \<Longrightarrow> join E a b \<subseteq> join F a b"
  by (auto simp: join_def)

lemma join_grows: "E \<subseteq> join E a b"
  by (auto simp: join_def)

lemma join_comm: "join E a b = join E b a"
  by (auto simp: join_def)

lemma join_pair: "join E (fst (sorted_pair a b)) (snd (sorted_pair a b)) = join E a b"
  by (simp add: sorted_pair_def join_comm)

lemma join_links: "equiv V E \<Longrightarrow> a \<in> V \<Longrightarrow> b \<in> V \<Longrightarrow> (a, b) \<in> join E a b"
  by (auto simp: join_def equiv_def refl_on_def)

lemma equiv_join: "equiv V E \<Longrightarrow> a \<in> V \<Longrightarrow> b \<in> V \<Longrightarrow> equiv V (join E a b)"
  unfolding equiv_def refl_on_def sym_def trans_def join_def by safe blast+

lemma join_inside: "equiv V E \<Longrightarrow> (a, b) \<in> E \<Longrightarrow> join E a b = E"
  unfolding equiv_def sym_def trans_def join_def by blast

definition greedy_ok ::
  "string set \<Rightarrow> (string \<times> string) list \<Rightarrow> edge list \<Rightarrow> classes \<times> (string \<times> string) set \<Rightarrow> bool" where
  "greedy_ok V cuts done st \<longleftrightarrow>
     equiv V (fst st) \<and> cut_free cuts (fst st) \<and> fst st \<subseteq> (linked done)\<^sup>* \<and>
     (\<forall>e \<in> set done. (ed_a e, ed_b e) \<in> fst st \<or> sorted_pair (ed_a e) (ed_b e) \<in> snd st) \<and>
     (\<forall>s \<in> snd st. \<exists>c \<in> set cuts. c \<in> join (fst st) (fst s) (snd s))"

lemma linked_Cons: "linked (e # es) = insert (ed_a e, ed_b e) (insert (ed_b e, ed_a e) (linked es))"
  by (auto simp: linked_def)

lemma join_linked:
  assumes "E \<subseteq> (linked done)\<^sup>*"
  shows "join E (ed_a e) (ed_b e) \<subseteq> (linked (e # done))\<^sup>*"
proof -
  let ?L = "(linked (e # done))\<^sup>*"
  have E: "\<And>u v. (u, v) \<in> E \<Longrightarrow> (u, v) \<in> ?L"
    using assms rtrancl_mono [of "linked done" "linked (e # done)"] by (auto simp: linked_Cons)
  have ab: "(ed_a e, ed_b e) \<in> ?L" "(ed_b e, ed_a e) \<in> ?L" by (auto simp: linked_Cons)
  show ?thesis
  proof (rule subrelI)
    fix u v assume "(u, v) \<in> join E (ed_a e) (ed_b e)"
    then consider "(u, v) \<in> E" | "(u, ed_a e) \<in> E" "(ed_b e, v) \<in> E"
      | "(u, ed_b e) \<in> E" "(ed_a e, v) \<in> E" by (auto simp: join_def)
    then show "(u, v) \<in> ?L" using E ab by cases (blast intro: rtrancl_trans)+
  qed
qed

lemma greedy_keeps:
  assumes "greedy_ok V cuts done st" "\<forall>e \<in> set es. ed_a e \<in> V \<and> ed_b e \<in> V"
  shows "greedy_ok V cuts (rev es @ done) (greedy cuts es st)"
  using assms
proof (induction es arbitrary: st "done")
  case (Cons e es)
  obtain E S where st: "st = (E, S)" by (cases st)
  let ?a = "ed_a e" and ?b = "ed_b e"
  have ab: "?a \<in> V" "?b \<in> V" using Cons.prems(2) by auto
  have eq: "equiv V E" and free: "cut_free cuts E" and link: "E \<subseteq> (linked done)\<^sup>*"
    and each: "\<forall>e \<in> set done. (ed_a e, ed_b e) \<in> E \<or> sorted_pair (ed_a e) (ed_b e) \<in> S"
    and block: "\<forall>s \<in> S. \<exists>c \<in> set cuts. c \<in> join E (fst s) (snd s)"
    using Cons.prems(1) by (auto simp: greedy_ok_def st)
  have link': "E \<subseteq> (linked (e # done))\<^sup>*"
    using link rtrancl_mono [of "linked done" "linked (e # done)"] by (auto simp: linked_Cons)
  let ?st = "if (?a, ?b) \<in> E then (E, S)
     else if \<exists>c \<in> set cuts. c \<in> join E ?a ?b then (E, insert (sorted_pair ?a ?b) S)
     else (join E ?a ?b, S)"
  have "greedy_ok V cuts (e # done) ?st"
  proof -
    consider "(?a, ?b) \<in> E" | "(?a, ?b) \<notin> E" "\<exists>c \<in> set cuts. c \<in> join E ?a ?b"
      | "(?a, ?b) \<notin> E" "\<not> (\<exists>c \<in> set cuts. c \<in> join E ?a ?b)" by blast
    then show ?thesis
    proof cases
      case 1
      then show ?thesis using eq free link' each block by (simp add: greedy_ok_def)
    next
      case 2
      then show ?thesis using eq free link' each block by (auto simp: greedy_ok_def join_pair)
    next
      case 3
      have "\<forall>s \<in> S. \<exists>c \<in> set cuts. c \<in> join (join E ?a ?b) (fst s) (snd s)"
        using block join_mono [OF join_grows] by blast
      moreover have "(?a, ?b) \<in> join E ?a ?b" by (rule join_links [OF eq ab])
      ultimately show ?thesis
        using 3 equiv_join [OF eq ab] join_linked [OF link, of e] each join_grows [of E ?a ?b]
        by (auto simp: greedy_ok_def cut_free_def)
    qed
  qed
  then show ?case using Cons.IH [of "e # done" ?st] Cons.prems(2) by (simp add: st)
qed simp

lemma greedy_start: "proper_cuts cuts \<Longrightarrow> greedy_ok V cuts [] (Id_on V, {})"
  by (auto simp: greedy_ok_def proper_cuts_def cut_free_def equiv_def refl_on_def sym_def trans_def)

lemma linked_perm: "set xs = set ys \<Longrightarrow> linked xs = linked ys"
  by (simp add: linked_def)

text \<open>C36: no cluster contains both ends of a cut; an edge is either inside a cluster or reported
  as skipped, never both; a skipped edge is one that a cut between its two clusters forbids;
  and two nodes share a cluster only along a chain of edges.\<close>

theorem cluster_respects_cuts:
  assumes "bs_wf nodes" "edges_in nodes edges" "ends_in nodes cuts" "proper_cuts cuts"
    and "cluster nodes edges cuts = Some cl"
  shows "(\<forall>c \<in> set cuts. bt_get (cl_rep cl) (fst c) \<noteq> bt_get (cl_rep cl) (snd c)) \<and>
    (\<forall>e \<in> set edges. (bt_get (cl_rep cl) (ed_a e) = bt_get (cl_rep cl) (ed_b e)) \<noteq>
       (sorted_pair (ed_a e) (ed_b e) \<in> set (cl_skipped cl))) \<and>
    (\<forall>s \<in> set (cl_skipped cl). \<exists>c \<in> set cuts.
       {bt_get (cl_rep cl) (fst c), bt_get (cl_rep cl) (snd c)} =
       {bt_get (cl_rep cl) (fst s), bt_get (cl_rep cl) (snd s)}) \<and>
    (\<forall>x \<in> set nodes. \<forall>y \<in> set nodes.
       bt_get (cl_rep cl) x = bt_get (cl_rep cl) y \<longrightarrow> (x, y) \<in> (linked edges)\<^sup>*)"
proof -
  let ?V = "set nodes"
  obtain E S where g: "greedy cuts (sort_edges edges) (Id_on ?V, {}) = (E, S)"
    by (cases "greedy cuts (sort_edges edges) (Id_on ?V, {})")
  then obtain p where p: "uf_ok nodes p" "E = classes_of nodes p"
      "cl = \<lparr>cl_rep = map (\<lambda>n. (n, root p n)) nodes, cl_skipped = sorted_list_of_set S\<rparr>" "finite S"
    using cluster_is_greedy [OF assms(1-4)] assms(5) by auto
  have rep: "bt_get (cl_rep cl) x = (if x \<in> ?V then Some (root p x) else None)" for x
    by (auto simp: p(3) map_of_map_restrict restrict_map_def)
  have same: "bt_get (cl_rep cl) x = bt_get (cl_rep cl) y \<longleftrightarrow> (x, y) \<in> E" if "x \<in> ?V" "y \<in> ?V" for x y
    using that by (simp add: rep p(2) classes_of_def)
  have ok: "greedy_ok ?V cuts (rev (sort_edges edges)) (E, S)"
    using greedy_keeps [OF greedy_start [OF assms(4)], of "sort_edges edges" ?V] assms(2) g
    by (simp add: edges_in_def)
  have eq: "equiv ?V E" and free: "cut_free cuts E" and link: "E \<subseteq> (linked edges)\<^sup>*"
    and each: "\<And>e. e \<in> set edges \<Longrightarrow> (ed_a e, ed_b e) \<in> E \<or> sorted_pair (ed_a e) (ed_b e) \<in> S"
    and block: "\<And>s. s \<in> S \<Longrightarrow> \<exists>c \<in> set cuts. c \<in> join E (fst s) (snd s)"
    using ok linked_perm [of "rev (sort_edges edges)" edges] by (auto simp: greedy_ok_def)
  have apart: "(fst s, snd s) \<notin> E" if "s \<in> S" for s
    using block [OF that] free join_inside [OF eq] by (auto simp: cut_free_def)
  have ends: "c \<in> set cuts \<Longrightarrow> fst c \<in> ?V \<and> snd c \<in> ?V" for c
    using assms(3) by (auto simp: ends_in_def)
  have edge: "e \<in> set edges \<Longrightarrow> ed_a e \<in> ?V \<and> ed_b e \<in> ?V" for e
    using assms(2) by (auto simp: edges_in_def)
  have skipped: "set (cl_skipped cl) = S" using p(3,4) by simp
  have pair: "(fst (sorted_pair a b), snd (sorted_pair a b)) \<in> E \<longleftrightarrow> (a, b) \<in> E" for a b
    using eq by (auto simp: sorted_pair_def equiv_def dest: symD)
  show ?thesis
  proof (intro conjI ballI impI)
    fix c assume "c \<in> set cuts"
    then show "bt_get (cl_rep cl) (fst c) \<noteq> bt_get (cl_rep cl) (snd c)"
      using free ends same by (auto simp: cut_free_def)
  next
    fix e assume e: "e \<in> set edges"
    show "(bt_get (cl_rep cl) (ed_a e) = bt_get (cl_rep cl) (ed_b e)) \<noteq>
        (sorted_pair (ed_a e) (ed_b e) \<in> set (cl_skipped cl))"
      using each [OF e] apart [of "sorted_pair (ed_a e) (ed_b e)"] pair edge [OF e] same skipped by auto
  next
    fix s assume "s \<in> set (cl_skipped cl)"
    then obtain c where c: "c \<in> set cuts" "c \<in> join E (fst s) (snd s)" using block skipped by blast
    moreover have "c \<notin> E" using free c(1) by (simp add: cut_free_def)
    ultimately have "(fst c, fst s) \<in> E \<and> (snd s, snd c) \<in> E \<or> (fst c, snd s) \<in> E \<and> (fst s, snd c) \<in> E"
      by (auto simp: join_def)
    then have "{bt_get (cl_rep cl) (fst c), bt_get (cl_rep cl) (snd c)} =
        {bt_get (cl_rep cl) (fst s), bt_get (cl_rep cl) (snd s)}"
      by (auto simp: rep p(2) classes_of_def)
    then show "\<exists>c \<in> set cuts. {bt_get (cl_rep cl) (fst c), bt_get (cl_rep cl) (snd c)} =
        {bt_get (cl_rep cl) (fst s), bt_get (cl_rep cl) (snd s)}"
      using c(1) by blast
  next
    fix x y assume "x \<in> ?V" "y \<in> ?V" "bt_get (cl_rep cl) x = bt_get (cl_rep cl) y"
    then show "(x, y) \<in> (linked edges)\<^sup>*" using same link by blast
  qed
qed

subsection \<open>Witnesses\<close>

text \<open>A chain a-b-c with a cut between its ends: the weaker edge is skipped.\<close>

definition chain_edges :: "edge list" where
  "chain_edges = [\<lparr>ed_a = ''a'', ed_b = ''b'', ed_score = 1\<rparr>, \<lparr>ed_a = ''b'', ed_b = ''c'', ed_score = 2\<rparr>]"

lemma chain_cluster:
  "cluster [''a'', ''b'', ''c''] chain_edges [(''a'', ''c'')] =
     Some \<lparr>cl_rep = [(''a'', ''a''), (''b'', ''b''), (''c'', ''b'')], cl_skipped = [(''a'', ''b'')]\<rparr>"
  by code_simp

lemma chain_ok:
  "bs_wf [''a'', ''b'', ''c'']" "edges_in [''a'', ''b'', ''c''] chain_edges"
  "ends_in [''a'', ''b'', ''c''] [(''a'', ''c'')]" "proper_cuts [(''a'', ''c'')]"
  by code_simp+

theorem cluster_refines_greedy_witness:
  "\<exists>E S. greedy [(''a'', ''c'')] (sort_edges chain_edges) (Id_on {''a'', ''b'', ''c''}, {}) = (E, S) \<and>
     map (\<lambda>n. (n, Min (E `` {n}))) [''a'', ''b'', ''c''] = [(''a'', ''a''), (''b'', ''b''), (''c'', ''b'')] \<and>
     sorted_list_of_set S = [(''a'', ''b'')]"
  using cluster_refines_greedy [OF chain_ok] by (auto simp: chain_cluster)

theorem cluster_respects_cuts_witness:
  "(''b'', ''c'') \<in> (linked chain_edges)\<^sup>* \<and>
   (\<exists>c \<in> {(''a'', ''c'')}. c = (''a'', ''c''))"
  using cluster_respects_cuts [OF chain_ok chain_cluster] by simp

end
