(* ===== verification/Proj_Collect.thy ===== *)
theory Proj_Collect
  imports Json Data_Crdt Proj_Cluster
begin

text \<open>
  The first phase of the read model (\<open>packages/openom-data-projection/src/lib.rs\<close>): the live
  records are folded, claim by claim, into one accumulator per kind of fact.  A
  \<open>BTreeMap\<close> is a sorted association list and \<open>entry(k).or_default()\<close> is \<open>bt_entry\<close>; a
  struct whose order the code derives is a tuple in the order of its fields.  The text a
  value prints as (\<open>serde_json\<close>) and SHA-256 are parameters, the canonical form is \<open>Json\<close>.
\<close>

subsection \<open>Vocabulary\<close>

record proj_env =
  pe_data :: "json data_env"
  pe_text :: "json \<Rightarrow> string"

definition P_NAME :: string where "P_NAME = ''openom.org/core/name/v1''"
definition P_EVENT_TYPE :: string where "P_EVENT_TYPE = ''openom.org/core/event_type/v1''"
definition P_DATE :: string where "P_DATE = ''openom.org/core/date/v1''"
definition P_EVENT_PLACE :: string where "P_EVENT_PLACE = ''openom.org/core/event_place/v1''"
definition P_PARTICIPANT :: string where "P_PARTICIPANT = ''openom.org/core/participant/v1''"
definition P_SEX :: string where "P_SEX = ''openom.org/core/sex/v1''"
definition P_BIOGRAPHY :: string where "P_BIOGRAPHY = ''openom.org/core/biography/v1''"
definition P_SAME_AS :: string where "P_SAME_AS = ''openom.org/core/same_as/v1''"
definition P_DIFFERENT_FROM :: string where "P_DIFFERENT_FROM = ''openom.org/core/different_from/v1''"
definition P_REATTRIBUTE :: string where "P_REATTRIBUTE = ''openom.org/core/reattribute_to/v1''"
definition P_PREFERRED :: string where "P_PREFERRED = ''openom.org/core/preferred/v1''"
definition P_PARENT :: string where "P_PARENT = ''openom.org/core/parent/v1''"
definition P_PARTNERSHIP :: string where "P_PARTNERSHIP = ''openom.org/core/partnership/v1''"
definition P_CUSTOM_FIELD :: string where "P_CUSTOM_FIELD = ''openom.org/core/custom/field/v1''"
definition P_CUSTOM_VALUE :: string where "P_CUSTOM_VALUE = ''openom.org/core/custom/value/v1''"
definition P_ATTEST :: string where "P_ATTEST = ''openom.org/core/attest/v1''"
definition P_SOURCE :: string where "P_SOURCE = ''openom.org/core/source/v1''"
definition P_PLACE_POINT :: string where "P_PLACE_POINT = ''openom.org/core/place_point/v1''"
definition P_PLACE_NAME :: string where "P_PLACE_NAME = ''openom.org/core/place_name/v1''"
definition P_PART_OF :: string where "P_PART_OF = ''openom.org/core/part_of/v1''"
definition P_MEDIA_LINK :: string where "P_MEDIA_LINK = ''openom.org/core/media_link/v1''"
definition P_EXISTENCE :: string where "P_EXISTENCE = ''openom.org/core/existence/v1''"
definition DEFAULT_KIND :: string where "DEFAULT_KIND = ''biological''"
definition DEFAULT_ROLE :: string where "DEFAULT_ROLE = ''partner''"

lemmas predicates = P_NAME_def P_EVENT_TYPE_def P_DATE_def P_EVENT_PLACE_def P_PARTICIPANT_def
  P_SEX_def P_BIOGRAPHY_def P_SAME_AS_def P_DIFFERENT_FROM_def P_REATTRIBUTE_def P_PREFERRED_def
  P_PARENT_def P_PARTNERSHIP_def P_CUSTOM_FIELD_def P_CUSTOM_VALUE_def P_ATTEST_def P_SOURCE_def
  P_PLACE_POINT_def P_PLACE_NAME_def P_PART_OF_def P_MEDIA_LINK_def P_EXISTENCE_def

record policy =
  same_as_threshold :: int
  different_from_threshold :: int
  reattribute_threshold :: int
  preferred_threshold :: int
  relationship_threshold :: int

definition policy_default :: policy where
  "policy_default = \<lparr>same_as_threshold = 1, different_from_threshold = 1, reattribute_threshold = 1,
     preferred_threshold = 1, relationship_threshold = 1\<rparr>"

subsection \<open>Accumulators\<close>

record pair_info =
  pi_authors :: "string btset"
  pi_claims :: "string btset"
  pi_fingerprint :: "string option"

definition pair_info_default :: pair_info where
  "pair_info_default = \<lparr>pi_authors = [], pi_claims = [], pi_fingerprint = None\<rparr>"

record votes =
  vo_support :: "string btset"
  vo_reject :: "string btset"

definition votes_default :: votes where
  "votes_default = \<lparr>vo_support = [], vo_reject = []\<rparr>"

text \<open>Value to its authors, per target; and the same with the value kept beside its text.\<close>

type_synonym tally = "(string, (string, string btset) btmap) btmap"
type_synonym json_tally = "(string, (string, string btset \<times> json) btmap) btmap"
type_synonym triple = "string \<times> string \<times> string"

record collected =
  co_anchors :: "string btset"
  co_same_as :: "(string \<times> string, pair_info) btmap"
  co_different_from :: "(string \<times> string, pair_info) btmap"
  co_attests :: "(string, votes) btmap"
  co_names :: "(string \<times> string \<times> json) list"
  co_sex :: "(string \<times> string \<times> string \<times> string) list"
  co_biography :: "(string \<times> string \<times> string \<times> string) list"
  co_field_label :: tally
  co_field_type :: tally
  co_customs :: "(string \<times> string \<times> string \<times> json \<times> string) list"
  co_reattribute :: "(string, (string, pair_info) btmap) btmap"
  co_preferred :: "(triple, pair_info) btmap"
  co_parent_child :: "(triple, pair_info) btmap"
  co_partnership :: "((string \<times> string) \<times> string, pair_info) btmap"
  co_events :: "string btset"
  co_event_type :: tally
  co_event_date :: tally
  co_event_place :: tally
  co_participants :: "(string, (string \<times> string) btset) btmap"
  co_sources :: "(string, json) btmap"
  co_citations :: "(string \<times> string \<times> string \<times> json) list"
  co_place_point :: json_tally
  co_place_name :: "(string, (string \<times> string, string btset) btmap) btmap"
  co_part_of :: tally
  co_media :: "(string \<times> string \<times> json) list"
  co_other :: "(string \<times> string \<times> string \<times> json \<times> string) list"

definition collected_default :: collected where
  "collected_default = \<lparr>co_anchors = [], co_same_as = [], co_different_from = [], co_attests = [],
     co_names = [], co_sex = [], co_biography = [], co_field_label = [], co_field_type = [],
     co_customs = [], co_reattribute = [], co_preferred = [], co_parent_child = [], co_partnership = [],
     co_events = [], co_event_type = [], co_event_date = [], co_event_place = [], co_participants = [],
     co_sources = [], co_citations = [], co_place_point = [], co_place_name = [], co_part_of = [],
     co_media = [], co_other = []\<rparr>"

definition bt_entry :: "'k::linorder \<Rightarrow> 'v \<Rightarrow> ('v \<Rightarrow> 'v) \<Rightarrow> ('k, 'v) btmap \<Rightarrow> ('k, 'v) btmap" where
  "bt_entry k d f m = bt_insert k (f (case bt_get m k of None \<Rightarrow> d | Some v \<Rightarrow> v)) m"

definition count_vote :: "string \<Rightarrow> 'k::linorder \<Rightarrow> string \<Rightarrow> (string, ('k, string btset) btmap) btmap \<Rightarrow>
    (string, ('k, string btset) btmap) btmap" where
  "count_vote target v author = bt_entry target [] (bt_entry v [] (bs_insert author))"

definition count_json :: "string \<Rightarrow> json \<Rightarrow> string \<Rightarrow> (string, string btset \<times> json) btmap \<Rightarrow>
    (string, string btset \<times> json) btmap" where
  "count_json txt v author = bt_entry txt ([], v) (\<lambda>(s, x). (bs_insert author s, x))"

subsection \<open>Fields of a claim\<close>

definition content_ref :: "proj_env \<Rightarrow> json \<Rightarrow> string option" where
  "content_ref E v =
     (case to_canonical_value v of
        Inl e \<Rightarrow> None
      | Inr b \<Rightarrow> Some (''sha256:'' @ hex (sha256 (env_hash (pe_data E)) b)))"

definition fingerprint_of :: "proj_env \<Rightarrow> json \<Rightarrow> bytes option" where
  "fingerprint_of E v =
     (case canonical_subset v [''targetId'', ''predicate'', ''value''] of
        Inl e \<Rightarrow> None
      | Inr b \<Rightarrow> Some (sha256 (env_hash (pe_data E)) b))"

definition fingerprint_str :: "proj_env \<Rightarrow> json claim \<Rightarrow> string option" where
  "fingerprint_str E c =
     map_option (\<lambda>h. ''sha256:'' @ hex h)
       (fingerprint_of E (JObj [(''predicate'', JStr (cl_predicate c)),
          (''targetId'', JStr (cl_target c)), (''value'', cl_value c)]))"

definition claim_pair :: "json claim \<Rightarrow> (string \<times> string) option" where
  "claim_pair c =
     (case Option.bind (js_get (cl_value c) ''pair'') as_array of
        Some [x, y] \<Rightarrow>
          (case (as_str x, as_str y) of
             (Some a, Some b) \<Rightarrow> if a = b then None else Some (sorted_pair a b)
           | _ \<Rightarrow> None)
      | _ \<Rightarrow> None)"

definition citation_value :: "json citation \<Rightarrow> json" where
  "citation_value ci = JObj
     ((case ci_extract ci of None \<Rightarrow> [] | Some x \<Rightarrow> [(''extract'', JStr x)]) @
      (case ci_locator ci of None \<Rightarrow> [] | Some l \<Rightarrow> [(''locator'', l)]) @
      [(''sourceId'', JStr (ci_source_id ci))])"

definition bump_pair_info :: "proj_env \<Rightarrow> json claim \<Rightarrow> pair_info \<Rightarrow> pair_info" where
  "bump_pair_info E c info =
     \<lparr>pi_authors = bs_insert (cl_created_by c) (pi_authors info),
      pi_claims = bs_insert (cl_id c) (pi_claims info),
      pi_fingerprint = (case pi_fingerprint info of None \<Rightarrow> fingerprint_str E c | Some f \<Rightarrow> Some f)\<rparr>"

definition collect_pair ::
  "proj_env \<Rightarrow> json claim \<Rightarrow> (string \<times> string, pair_info) btmap \<Rightarrow> (string \<times> string, pair_info) btmap" where
  "collect_pair E c m =
     (case claim_pair c of
        None \<Rightarrow> m | Some p \<Rightarrow> bt_entry p pair_info_default (bump_pair_info E c) m)"

definition tally_field :: "json claim \<Rightarrow> string \<Rightarrow> tally \<Rightarrow> tally" where
  "tally_field c field m =
     (case str_field (cl_value c) field of
        None \<Rightarrow> m | Some v \<Rightarrow> count_vote (cl_target c) v (cl_created_by c) m)"

subsection \<open>One claim\<close>

definition parse_place_point :: "proj_env \<Rightarrow> json claim \<Rightarrow> collected \<Rightarrow> collected" where
  "parse_place_point E c acc = acc\<lparr>co_place_point :=
     bt_entry (cl_target c) [] (count_json (pe_text E (cl_value c)) (cl_value c) (cl_created_by c))
       (co_place_point acc)\<rparr>"

definition parse_place_name :: "json claim \<Rightarrow> collected \<Rightarrow> collected" where
  "parse_place_name c acc =
     (case str_field (cl_value c) ''name'' of
        None \<Rightarrow> acc
      | Some name \<Rightarrow>
          acc\<lparr>co_place_name := count_vote (cl_target c)
            (str_or_empty (str_field (cl_value c) ''validRange''), name) (cl_created_by c) (co_place_name acc)\<rparr>)"

definition parse_media_link :: "json claim \<Rightarrow> collected \<Rightarrow> collected" where
  "parse_media_link c acc =
     (case str_field (cl_value c) ''mediaHash'' of
        None \<Rightarrow> acc
      | Some h \<Rightarrow> acc\<lparr>co_media := co_media acc @ [(cl_target c, cl_id c, cl_value c)]\<rparr>)"

definition parse_attest :: "json claim \<Rightarrow> collected \<Rightarrow> collected" where
  "parse_attest c acc =
     (case str_field (cl_value c) ''verdict'' of
        None \<Rightarrow> acc
      | Some verdict \<Rightarrow>
          acc\<lparr>co_attests := bt_entry (cl_target c) votes_default
            (\<lambda>v. if verdict = ''support'' then v\<lparr>vo_support := bs_insert (cl_created_by c) (vo_support v)\<rparr>
                 else if verdict = ''reject'' then v\<lparr>vo_reject := bs_insert (cl_created_by c) (vo_reject v)\<rparr>
                 else v) (co_attests acc)\<rparr>)"

definition parse_preferred :: "proj_env \<Rightarrow> json claim \<Rightarrow> collected \<Rightarrow> collected" where
  "parse_preferred E c acc =
     (case (str_field (cl_value c) ''for'', str_field (cl_value c) ''contentRef'') of
        (Some for_pred, Some rf) \<Rightarrow>
          acc\<lparr>co_preferred := bt_entry (cl_target c, for_pred, rf) pair_info_default (bump_pair_info E c)
            (co_preferred acc)\<rparr>
      | _ \<Rightarrow> acc)"

definition parse_parent :: "proj_env \<Rightarrow> json claim \<Rightarrow> collected \<Rightarrow> collected" where
  "parse_parent E c acc =
     (case str_field (cl_value c) ''parentPersonId'' of
        None \<Rightarrow> acc
      | Some parent \<Rightarrow>
          acc\<lparr>co_parent_child := bt_entry
            (cl_target c, parent, (case str_field (cl_value c) ''kind'' of None \<Rightarrow> DEFAULT_KIND | Some k \<Rightarrow> k))
            pair_info_default (bump_pair_info E c) (co_parent_child acc)\<rparr>)"

definition parse_partnership :: "proj_env \<Rightarrow> json claim \<Rightarrow> collected \<Rightarrow> collected" where
  "parse_partnership E c acc =
     (case claim_pair c of
        None \<Rightarrow> acc
      | Some p \<Rightarrow>
          acc\<lparr>co_partnership := bt_entry
            (p, (case str_field (cl_value c) ''role'' of None \<Rightarrow> DEFAULT_ROLE | Some r \<Rightarrow> r))
            pair_info_default (bump_pair_info E c) (co_partnership acc)\<rparr>)"

definition parse_participant :: "json claim \<Rightarrow> collected \<Rightarrow> collected" where
  "parse_participant c acc =
     (case (str_field (cl_value c) ''personId'', str_field (cl_value c) ''role'') of
        (Some person, Some role) \<Rightarrow>
          acc\<lparr>co_participants := bt_entry (cl_target c) [] (bs_insert (person, role)) (co_participants acc)\<rparr>
      | _ \<Rightarrow> acc)"

definition parse_sex :: "json claim \<Rightarrow> collected \<Rightarrow> collected" where
  "parse_sex c acc =
     (case str_field (cl_value c) ''sex'' of
        None \<Rightarrow> acc
      | Some sex \<Rightarrow> acc\<lparr>co_sex := co_sex acc @ [(cl_target c, cl_id c, sex, cl_created_by c)]\<rparr>)"

definition parse_biography :: "json claim \<Rightarrow> collected \<Rightarrow> collected" where
  "parse_biography c acc =
     (case str_field (cl_value c) ''text'' of
        None \<Rightarrow> acc
      | Some txt \<Rightarrow> acc\<lparr>co_biography := co_biography acc @ [(cl_target c, cl_id c, txt, cl_created_by c)]\<rparr>)"

definition parse_custom_field :: "json claim \<Rightarrow> collected \<Rightarrow> collected" where
  "parse_custom_field c acc =
     (case str_field (cl_value c) ''fieldId'' of
        None \<Rightarrow> acc
      | Some fid \<Rightarrow>
          acc\<lparr>co_field_label := (case str_field (cl_value c) ''label'' of None \<Rightarrow> co_field_label acc
                | Some l \<Rightarrow> count_vote fid l (cl_created_by c) (co_field_label acc)),
              co_field_type := (case str_field (cl_value c) ''type'' of None \<Rightarrow> co_field_type acc
                | Some t \<Rightarrow> count_vote fid t (cl_created_by c) (co_field_type acc))\<rparr>)"

definition parse_custom_value :: "json claim \<Rightarrow> collected \<Rightarrow> collected" where
  "parse_custom_value c acc =
     (case (str_field (cl_value c) ''fieldId'', js_get (cl_value c) ''value'') of
        (Some fid, Some v) \<Rightarrow>
          acc\<lparr>co_customs := co_customs acc @ [(cl_target c, cl_id c, fid, v, cl_created_by c)]\<rparr>
      | _ \<Rightarrow> acc)"

definition parse_reattribute :: "proj_env \<Rightarrow> json claim \<Rightarrow> collected \<Rightarrow> collected" where
  "parse_reattribute E c acc =
     (case str_field (cl_value c) ''personId'' of
        None \<Rightarrow> acc
      | Some person \<Rightarrow>
          acc\<lparr>co_reattribute := bt_entry (cl_target c) []
            (bt_entry person pair_info_default (bump_pair_info E c)) (co_reattribute acc)\<rparr>)"

definition parse_claim :: "proj_env \<Rightarrow> json claim \<Rightarrow> collected \<Rightarrow> collected" where
  "parse_claim E c acc =
     (let p = cl_predicate c in
      if p = P_SOURCE then acc\<lparr>co_sources := bt_insert (cl_id c) (cl_value c) (co_sources acc)\<rparr>
      else if p = P_PLACE_POINT then parse_place_point E c acc
      else if p = P_PLACE_NAME then parse_place_name c acc
      else if p = P_PART_OF then acc\<lparr>co_part_of := tally_field c ''parentPlaceId'' (co_part_of acc)\<rparr>
      else if p = P_MEDIA_LINK then parse_media_link c acc
      else if p = P_SAME_AS then acc\<lparr>co_same_as := collect_pair E c (co_same_as acc)\<rparr>
      else if p = P_DIFFERENT_FROM then acc\<lparr>co_different_from := collect_pair E c (co_different_from acc)\<rparr>
      else if p = P_ATTEST then parse_attest c acc
      else if p = P_PREFERRED then parse_preferred E c acc
      else if p = P_PARENT then parse_parent E c acc
      else if p = P_PARTNERSHIP then parse_partnership E c acc
      else if p = P_EVENT_TYPE then acc\<lparr>co_event_type := tally_field c ''type'' (co_event_type acc)\<rparr>
      else if p = P_DATE then acc\<lparr>co_event_date := tally_field c ''edtf'' (co_event_date acc)\<rparr>
      else if p = P_EVENT_PLACE then acc\<lparr>co_event_place := tally_field c ''placeId'' (co_event_place acc)\<rparr>
      else if p = P_PARTICIPANT then parse_participant c acc
      else if p = P_NAME then acc\<lparr>co_names := co_names acc @ [(cl_target c, cl_id c, cl_value c)]\<rparr>
      else if p = P_SEX then parse_sex c acc
      else if p = P_BIOGRAPHY then parse_biography c acc
      else if p = P_CUSTOM_FIELD then parse_custom_field c acc
      else if p = P_CUSTOM_VALUE then parse_custom_value c acc
      else if p = P_REATTRIBUTE then parse_reattribute E c acc
      else if p = P_EXISTENCE then acc
      else acc\<lparr>co_other := co_other acc @ [(cl_target c, cl_id c, p, cl_value c, cl_created_by c)]\<rparr>)"

definition collect_one :: "proj_env \<Rightarrow> json Record \<Rightarrow> collected \<Rightarrow> collected" where
  "collect_one E r acc =
     (case r of
        Anchor a \<Rightarrow>
          if an_type a = TYPE_PERSON then acc\<lparr>co_anchors := bs_insert (an_id a) (co_anchors acc)\<rparr>
          else if an_type a = TYPE_EVENT then acc\<lparr>co_events := bs_insert (an_id a) (co_events acc)\<rparr>
          else acc
      | Unknown v \<Rightarrow> acc
      | Claim c \<Rightarrow>
          parse_claim E c
            (case cl_citation c of
               Some (One ci) \<Rightarrow>
                 acc\<lparr>co_citations := co_citations acc @
                   [(cl_target c, cl_id c, cl_predicate c, citation_value ci)]\<rparr>
             | _ \<Rightarrow> acc))"

definition collect :: "proj_env \<Rightarrow> json Record list \<Rightarrow> collected" where
  "collect E deduped = foldl (\<lambda>acc r. collect_one E r acc) collected_default deduped"

text \<open>The first record of every id.\<close>

definition dedup_records :: "proj_env \<Rightarrow> json Record list \<Rightarrow> json Record list" where
  "dedup_records E records =
     fst (foldl (\<lambda>(out, seen) r.
            if record_id (pe_data E) r \<in> set seen then (out, seen)
            else (out @ [r], bs_insert (record_id (pe_data E) r) seen)) ([], []) records)"

subsection \<open>Scores\<close>

definition sat_i64 :: "nat \<Rightarrow> int" where
  "sat_i64 n = min (int n) (2 ^ 63 - 1)"

definition vote_targets :: "pair_info \<Rightarrow> string list" where
  "vote_targets info = pi_claims info @ (case pi_fingerprint info of None \<Rightarrow> [] | Some f \<Rightarrow> [f])"

definition gather :: "(votes \<Rightarrow> string btset) \<Rightarrow> string list \<Rightarrow> (string, votes) btmap \<Rightarrow> string btset" where
  "gather sel targets attests =
     foldl (\<lambda>s t. case bt_get attests t of None \<Rightarrow> s | Some v \<Rightarrow> foldl (\<lambda>s a. bs_insert a s) s (sel v)) []
       targets"

definition score :: "pair_info \<Rightarrow> (string, votes) btmap \<Rightarrow> int" where
  "score info attests =
     (let support = gather vo_support (vote_targets info) attests;
          reject = gather vo_reject (vote_targets info) attests
      in sat_i64 (length (pi_authors info)) +
         sat_i64 (length (filter (\<lambda>a. a \<notin> set (pi_authors info)) support)) -
         sat_i64 (length reject))"

end
