(* ===== verification/Edtf.thy ===== *)
theory Edtf
  imports Hlc
begin

text \<open>
  Extended dates (\<open>packages/format-edtf/src/lib.rs\<close>): the parser of the EDTF level that the
  data model uses (years, months, seasons, days, unspecified digits, qualifiers, intervals)
  and the day bounds it derives.  A year (\<open>i32\<close>) is an integer and a month or day
  (\<open>u8\<close>) a natural number; the theorems show that they stay far inside their types.
  Strings are UTF-8 bytes, so the characters that \<open>str::trim\<close> takes for white space are byte
  sequences.
\<close>

subsection \<open>Dates\<close>

record date =
  d_year :: int
  d_month :: nat
  d_day :: nat

datatype precision = PYear | PMonth | PDay | PSeason | PUnknown

datatype edtf_kind = Single | Interval

record edtf =
  ed_input :: string
  ed_kind :: edtf_kind
  ed_min :: "date option"
  ed_max :: "date option"
  ed_precision :: precision
  ed_uncertain :: bool
  ed_approximate :: bool

datatype edtf_error = EmptyDate | MalformedDate string

record bounds =
  bo_min :: date
  bo_max :: date
  bo_precision :: precision

definition date_of :: "int \<Rightarrow> nat \<Rightarrow> nat \<Rightarrow> date" where
  "date_of y m d = \<lparr>d_year = y, d_month = m, d_day = d\<rparr>"

definition is_leap :: "int \<Rightarrow> bool" where
  "is_leap y \<longleftrightarrow> y smod 4 = 0 \<and> y smod 100 \<noteq> 0 \<or> y smod 400 = 0"

definition days_in_month :: "int \<Rightarrow> nat \<Rightarrow> nat" where
  "days_in_month y m =
     (if m \<in> {1, 3, 5, 7, 8, 10, 12} then 31
      else if m = 2 then (if is_leap y then 29 else 28) else 30)"

definition tuple :: "date \<Rightarrow> int \<times> nat \<times> nat" where
  "tuple d = (d_year d, d_month d, d_day d)"

definition season_bounds :: "int \<Rightarrow> int \<Rightarrow> nat \<Rightarrow> bounds" where
  "season_bounds y0 y1 code =
     (case (if code = 21 then (date_of y0 3 1, date_of y1 5 31)
            else if code = 22 then (date_of y0 6 1, date_of y1 8 31)
            else if code = 23 then (date_of y0 9 1, date_of y1 11 30)
            else (date_of y0 12 1, date_of (y1 + 1) 2 (days_in_month (y1 + 1) 2))) of
        (lo, hi) \<Rightarrow> \<lparr>bo_min = lo, bo_max = hi, bo_precision = PSeason\<rparr>)"

subsection \<open>Text\<close>

definition white_space :: "string list" where
  "white_space =
     map (\<lambda>n. [char_of n]) [9 :: nat, 10, 11, 12, 13, 32] @
     map (map char_of) [[0xC2 :: nat, 0x85], [0xC2, 0xA0], [0xE1, 0x9A, 0x80], [0xE2, 0x80, 0xA8],
       [0xE2, 0x80, 0xA9], [0xE2, 0x80, 0xAF], [0xE2, 0x81, 0x9F], [0xE3, 0x80, 0x80]] @
     map (\<lambda>n. map char_of [0xE2, 0x80, n]) [0x80 :: nat ..< 0x8B]"

fun trim_with :: "string list \<Rightarrow> string \<Rightarrow> string" where
  "trim_with ws [] = []"
| "trim_with ws (c # s) =
     (case find (\<lambda>w. w \<noteq> [] \<and> prefix w (c # s)) ws of
        None \<Rightarrow> c # s
      | Some w \<Rightarrow> trim_with ws (drop (length w - 1) s))"

definition trim :: "string \<Rightarrow> string" where
  "trim s = rev (trim_with (map rev white_space) (rev (trim_with white_space s)))"

fun split_char :: "char \<Rightarrow> string \<Rightarrow> string list" where
  "split_char d [] = [[]]"
| "split_char d (c # s) =
     (if c = d then [] # split_char d s
      else case split_char d s of [] \<Rightarrow> [[c]] | p # ps \<Rightarrow> (c # p) # ps)"

text \<open>The range of numbers that a run of digits and unspecified digits stands for.\<close>

definition parse_digits_range :: "string \<Rightarrow> (nat \<times> nat) option" where
  "parse_digits_range s =
     (if s = [] \<or> \<not> list_all (\<lambda>c. is_ascii_digit c \<or> c = CHR ''X'') s then None
      else Some (foldl (\<lambda>(lo, hi) c.
             if c = CHR ''X'' then (lo * 10, hi * 10 + 9)
             else (lo * 10 + digit_val c, hi * 10 + digit_val c)) (0, 0) s))"

definition parse_u8_range :: "string \<Rightarrow> (nat \<times> nat) option" where
  "parse_u8_range s = map_option (\<lambda>(lo, hi). (min lo 255, min hi 255)) (parse_digits_range s)"

subsection \<open>The parser\<close>

definition month_range :: "nat \<Rightarrow> nat \<Rightarrow> (nat \<times> nat) option" where
  "month_range mlo mhi =
     (if mlo = mhi then (if 1 \<le> mlo \<and> mlo \<le> 12 then Some (mlo, mlo) else None)
      else if max mlo 1 > min mhi 12 then None else Some (max mlo 1, min mhi 12))"

definition day_range :: "nat \<Rightarrow> nat \<Rightarrow> (nat \<times> nat) option" where
  "day_range dlo dhi =
     (if dlo = dhi then (if 1 \<le> dlo \<and> dlo \<le> 31 then Some (dlo, dlo) else None)
      else if max dlo 1 > min dhi 31 then None else Some (max dlo 1, min dhi 31))"

definition day_bounds ::
  "int \<times> int \<Rightarrow> nat \<times> nat \<Rightarrow> nat \<times> nat \<Rightarrow> bounds option" where
  "day_bounds y m d =
     (if fst y = snd y \<and> fst m = snd m \<and> fst d = snd d \<and> days_in_month (fst y) (fst m) < fst d then None
      else Some \<lparr>bo_min = date_of (fst y) (fst m) (min (fst d) (days_in_month (fst y) (fst m))),
                 bo_max = date_of (snd y) (snd m) (min (snd d) (days_in_month (snd y) (snd m))),
                 bo_precision = PDay\<rparr>)"

definition parse_parts :: "bool \<Rightarrow> string list \<Rightarrow> bounds option" where
  "parse_parts neg parts =
     (if parts = [] \<or> 3 < length parts then None
      else if length (parts ! 0) \<noteq> 4 then None
      else case parse_digits_range (parts ! 0) of
        None \<Rightarrow> None
      | Some (ylo, yhi) \<Rightarrow>
          let y = (if neg then (- int yhi, - int ylo) else (int ylo, int yhi)) in
          if length parts = 1 then
            Some \<lparr>bo_min = date_of (fst y) 1 1, bo_max = date_of (snd y) 12 (days_in_month (snd y) 12),
                  bo_precision = PYear\<rparr>
          else if length (parts ! 1) \<noteq> 2 then None
          else case parse_u8_range (parts ! 1) of
            None \<Rightarrow> None
          | Some (mlo, mhi) \<Rightarrow>
              if mlo = mhi \<and> 21 \<le> mlo \<and> mlo \<le> 24 then
                (if length parts \<noteq> 2 then None else Some (season_bounds (fst y) (snd y) mlo))
              else case month_range mlo mhi of
                None \<Rightarrow> None
              | Some m \<Rightarrow>
                  if length parts = 2 then
                    Some \<lparr>bo_min = date_of (fst y) (fst m) 1,
                          bo_max = date_of (snd y) (snd m) (days_in_month (snd y) (snd m)),
                          bo_precision = PMonth\<rparr>
                  else if length (parts ! 2) \<noteq> 2 then None
                  else case parse_u8_range (parts ! 2) of
                    None \<Rightarrow> None
                  | Some (dlo, dhi) \<Rightarrow>
                      (case day_range dlo dhi of None \<Rightarrow> None | Some d \<Rightarrow> day_bounds y m d))"

definition parse_core :: "string \<Rightarrow> edtf_error + bounds" where
  "parse_core s =
     (case (case s of
              c # r \<Rightarrow> if c = CHR ''-'' then parse_parts True (split_char (CHR ''-'') r)
                       else parse_parts False (split_char (CHR ''-'') s)
            | [] \<Rightarrow> parse_parts False (split_char (CHR ''-'') s)) of
        None \<Rightarrow> Inl (MalformedDate s)
      | Some b \<Rightarrow> Inr b)"

definition parse_single :: "string \<Rightarrow> edtf_error + bounds \<times> bool \<times> bool" where
  "parse_single s =
     (case (if s \<noteq> [] \<and> last s = CHR ''%'' then (butlast s, True, True)
            else if s \<noteq> [] \<and> last s = CHR ''?'' then (butlast s, True, False)
            else if s \<noteq> [] \<and> last s = CHR 0x7E then (butlast s, False, True)
            else (s, False, False)) of
        (core, uncertain, approximate) \<Rightarrow>
          (case parse_core core of Inl e \<Rightarrow> Inl e | Inr b \<Rightarrow> Inr (b, uncertain, approximate)))"

definition parse_side :: "string \<Rightarrow> edtf_error + bounds option \<times> bool \<times> bool" where
  "parse_side side =
     (let t = trim side in
      if t = [] \<or> t = ''..'' then Inr (None, False, False)
      else case parse_single t of Inl e \<Rightarrow> Inl e | Inr (b, u, a) \<Rightarrow> Inr (Some b, u, a))"

definition backwards :: "bounds option \<Rightarrow> bounds option \<Rightarrow> bool" where
  "backwards s e =
     (case (s, e) of (Some sb, Some eb) \<Rightarrow> tuple (bo_max eb) < tuple (bo_min sb) | _ \<Rightarrow> False)"

definition parse_interval :: "string \<Rightarrow> string \<Rightarrow> string \<Rightarrow> edtf_error + edtf" where
  "parse_interval input start ending =
     (if CHR ''/'' \<in> set ending
      then Inl (MalformedDate (''more than one '' @ [CHR 0x27, CHR ''/'', CHR 0x27]))
      else case parse_side start of
        Inl e \<Rightarrow> Inl e
      | Inr (s, su, sa) \<Rightarrow>
          (case parse_side ending of
             Inl e \<Rightarrow> Inl e
           | Inr (e, eu, ea) \<Rightarrow>
               if backwards s e then Inl (MalformedDate ''interval start is after its end'')
               else Inr \<lparr>ed_input = input, ed_kind = Interval,
                 ed_min = map_option bo_min s, ed_max = map_option bo_max e,
                 ed_precision = (case s of Some b \<Rightarrow> bo_precision b
                   | None \<Rightarrow> (case e of Some b \<Rightarrow> bo_precision b | None \<Rightarrow> PUnknown)),
                 ed_uncertain = (su \<or> eu), ed_approximate = (sa \<or> ea)\<rparr>))"

definition edtf_parse :: "string \<Rightarrow> edtf_error + edtf" where
  "edtf_parse input =
     (let t = trim input in
      if t = [] then Inl EmptyDate
      else case split_once (CHR ''/'') t of
        Some (start, ending) \<Rightarrow> parse_interval input start ending
      | None \<Rightarrow>
          (case parse_single t of
             Inl e \<Rightarrow> Inl e
           | Inr (b, uncertain, approximate) \<Rightarrow>
               Inr \<lparr>ed_input = input, ed_kind = Single, ed_min = Some (bo_min b), ed_max = Some (bo_max b),
                    ed_precision = bo_precision b, ed_uncertain = uncertain, ed_approximate = approximate\<rparr>))"

subsection \<open>The bounds are days of the calendar\<close>

definition valid_date :: "date \<Rightarrow> bool" where
  "valid_date d \<longleftrightarrow> 1 \<le> d_month d \<and> d_month d \<le> 12 \<and> 1 \<le> d_day d \<and> d_day d \<le> days_in_month (d_year d) (d_month d)"

definition bounds_ok :: "bounds \<Rightarrow> bool" where
  "bounds_ok b \<longleftrightarrow> valid_date (bo_min b) \<and> valid_date (bo_max b) \<and> tuple (bo_min b) \<le> tuple (bo_max b) \<and>
     - 9999 \<le> d_year (bo_min b) \<and> d_year (bo_max b) \<le> 10000"

lemma days_in_month_bounds: "28 \<le> days_in_month y m \<and> days_in_month y m \<le> 31"
  by (simp add: days_in_month_def)

lemma range_fold:
  "list_all (\<lambda>c. is_ascii_digit c \<or> c = CHR ''X'') s \<Longrightarrow> lo \<le> hi \<Longrightarrow> hi < 10 ^ k \<Longrightarrow>
   case foldl (\<lambda>(lo, hi) c. if c = CHR ''X'' then (lo * 10, hi * 10 + 9)
             else (lo * 10 + digit_val c, hi * 10 + digit_val c)) (lo, hi) s of
     (lo', hi') \<Rightarrow> lo' \<le> hi' \<and> hi' < 10 ^ (k + length s)"
proof (induction s arbitrary: lo hi k)
  case (Cons c s)
  show ?case
  proof (cases "c = CHR ''X''")
    case True
    then show ?thesis using Cons.IH [of "lo * 10" "hi * 10 + 9" "Suc k"] Cons.prems by simp
  next
    case False
    then have "is_ascii_digit c" using Cons.prems(1) by simp
    then have "digit_val c < 10" by (rule digit_val_bound)
    then show ?thesis
      using False Cons.IH [of "lo * 10 + digit_val c" "hi * 10 + digit_val c" "Suc k"] Cons.prems by simp
  qed
qed simp

lemma parse_digits_range_bounds:
  "parse_digits_range s = Some (lo, hi) \<Longrightarrow> lo \<le> hi \<and> hi < 10 ^ length s"
  using range_fold [of s 0 0 0] by (auto simp: parse_digits_range_def split: if_splits)

lemma parse_u8_range_bounds: "parse_u8_range s = Some (lo, hi) \<Longrightarrow> lo \<le> hi"
  using parse_digits_range_bounds by (fastforce simp: parse_u8_range_def)

lemma month_range_bounds: "lo \<le> hi \<Longrightarrow> month_range lo hi = Some (a, b) \<Longrightarrow> 1 \<le> a \<and> a \<le> b \<and> b \<le> 12"
  by (auto simp: month_range_def split: if_splits)

lemma day_range_bounds: "lo \<le> hi \<Longrightarrow> day_range lo hi = Some (a, b) \<Longrightarrow> 1 \<le> a \<and> a \<le> b \<and> b \<le> 31"
  by (auto simp: day_range_def split: if_splits)

lemma day_bounds_ok:
  assumes "day_bounds y m d = Some b"
    and "fst y \<le> snd y" "- 9999 \<le> fst y" "snd y \<le> 9999"
    and "1 \<le> fst m" "fst m \<le> snd m" "snd m \<le> 12" "1 \<le> fst d" "fst d \<le> snd d"
  shows "bounds_ok b"
  using assms days_in_month_bounds [of "fst y" "fst m"] days_in_month_bounds [of "snd y" "snd m"]
  by (auto simp: day_bounds_def bounds_ok_def valid_date_def tuple_def date_of_def less_eq_prod_def split: if_splits)

lemma season_bounds_ok:
  "y0 \<le> y1 \<Longrightarrow> - 9999 \<le> y0 \<Longrightarrow> y1 \<le> 9999 \<Longrightarrow> bounds_ok (season_bounds y0 y1 code)"
  using days_in_month_bounds [of "y1 + 1" 2]
  by (auto simp: season_bounds_def bounds_ok_def valid_date_def tuple_def date_of_def less_eq_prod_def
      days_in_month_def)

lemma year_bounds_ok:
  "y0 \<le> y1 \<Longrightarrow> - 9999 \<le> y0 \<Longrightarrow> y1 \<le> 9999 \<Longrightarrow> 1 \<le> m0 \<Longrightarrow> m0 \<le> m1 \<Longrightarrow> m1 \<le> 12 \<Longrightarrow>
   bounds_ok \<lparr>bo_min = date_of y0 m0 1, bo_max = date_of y1 m1 (days_in_month y1 m1), bo_precision = p\<rparr>"
  using days_in_month_bounds [of y0 m0] days_in_month_bounds [of y1 m1]
  by (auto simp: bounds_ok_def valid_date_def tuple_def date_of_def less_eq_prod_def)

lemma parse_parts_ok:
  assumes "parse_parts neg parts = Some b"
  shows "bounds_ok b"
proof -
  obtain ylo yhi where yr: "parse_digits_range (parts ! 0) = Some (ylo, yhi)" and len: "length (parts ! 0) = 4"
    using assms by (auto simp: parse_parts_def split: if_splits option.splits)
  define y where "y = (if neg then (- int yhi, - int ylo) else (int ylo, int yhi))"
  have y: "fst y \<le> snd y" "- 9999 \<le> fst y" "snd y \<le> 9999"
    using parse_digits_range_bounds [OF yr] len by (auto simp: y_def)
  show ?thesis
  proof (cases "length parts = 1")
    case True
    then have "b = \<lparr>bo_min = date_of (fst y) 1 1, bo_max = date_of (snd y) 12 (days_in_month (snd y) 12),
        bo_precision = PYear\<rparr>"
      using assms yr by (simp add: parse_parts_def y_def Let_def split: if_splits)
    then show ?thesis using year_bounds_ok [OF y, of 1 12] by simp
  next
    case False
    then obtain mlo mhi where mr: "parse_u8_range (parts ! 1) = Some (mlo, mhi)"
      using assms yr by (auto simp: parse_parts_def Let_def split: if_splits option.splits)
    show ?thesis
    proof (cases "mlo = mhi \<and> 21 \<le> mlo \<and> mlo \<le> 24")
      case True
      then have "b = season_bounds (fst y) (snd y) mlo"
        using assms yr mr False by (simp add: parse_parts_def y_def Let_def split: if_splits)
      then show ?thesis using season_bounds_ok [OF y] by simp
    next
      case no_season: False
      obtain m where m: "month_range mlo mhi = Some m"
        using assms yr mr False no_season
        by (cases "month_range mlo mhi") (simp_all add: parse_parts_def Let_def split: if_splits)
      have mb: "1 \<le> fst m" "fst m \<le> snd m" "snd m \<le> 12"
        using month_range_bounds [of mlo mhi "fst m" "snd m"] parse_u8_range_bounds [OF mr] m by auto
      show ?thesis
      proof (cases "length parts = 2")
        case True
        then have "b = \<lparr>bo_min = date_of (fst y) (fst m) 1,
            bo_max = date_of (snd y) (snd m) (days_in_month (snd y) (snd m)), bo_precision = PMonth\<rparr>"
          using assms yr mr m no_season by (simp add: parse_parts_def y_def Let_def split: if_splits)
        then show ?thesis using year_bounds_ok [OF y mb] by simp
      next
        case days: False
        obtain dlo dhi where dr: "parse_u8_range (parts ! 2) = Some (dlo, dhi)"
          using assms yr mr m False no_season days
          by (cases "parse_u8_range (parts ! 2)") (auto simp: parse_parts_def Let_def split: if_splits)
        obtain d where d: "day_range dlo dhi = Some d" "day_bounds y m d = Some b"
          using assms yr mr m False no_season days dr
          by (cases "day_range dlo dhi") (simp_all add: parse_parts_def y_def Let_def split: if_splits)
        have "1 \<le> fst d" "fst d \<le> snd d"
          using day_range_bounds [of dlo dhi "fst d" "snd d"] parse_u8_range_bounds [OF dr] d(1) by auto
        then show ?thesis using day_bounds_ok [OF d(2) y mb] by simp
      qed
    qed
  qed
qed

lemma parse_core_ok: "parse_core s = Inr b \<Longrightarrow> bounds_ok b"
  by (auto simp: parse_core_def split: option.splits list.splits if_splits intro: parse_parts_ok)

lemma parse_single_ok: "parse_single s = Inr (b, u, a) \<Longrightarrow> bounds_ok b"
  by (auto simp: parse_single_def split: sum.splits if_splits intro: parse_core_ok)

lemma parse_side_ok: "parse_side s = Inr (Some b, u, a) \<Longrightarrow> bounds_ok b"
  by (auto simp: parse_side_def Let_def split: sum.splits if_splits intro: parse_single_ok)

text \<open>C40: every date the parser accepts has bounds that are days of the calendar, in order, and
  years that an \<open>i32\<close> holds; a single date has both bounds.\<close>

theorem edtf_sound:
  assumes "edtf_parse s = Inr e"
  shows "(\<forall>d. ed_min e = Some d \<or> ed_max e = Some d \<longrightarrow>
      valid_date d \<and> - 9999 \<le> d_year d \<and> d_year d \<le> 10000) \<and>
    (\<forall>a b. ed_min e = Some a \<and> ed_max e = Some b \<longrightarrow> tuple a \<le> tuple b) \<and>
    (ed_kind e = Single \<longrightarrow> ed_min e \<noteq> None \<and> ed_max e \<noteq> None)"
proof -
  have years: "bounds_ok b \<Longrightarrow> d_year (bo_min b) \<le> 10000 \<and> - 9999 \<le> d_year (bo_max b)" for b
    by (auto simp: bounds_ok_def tuple_def less_eq_prod_def)
  show ?thesis
  proof (cases "split_once (CHR ''/'') (trim s)")
    case None
    then obtain b u a where b: "parse_single (trim s) = Inr (b, u, a)"
        "ed_min e = Some (bo_min b)" "ed_max e = Some (bo_max b)"
      using assms by (auto simp: edtf_parse_def Let_def split: if_splits sum.splits)
    show ?thesis using parse_single_ok [OF b(1)] years [of b] b(2,3) by (auto simp: bounds_ok_def)
  next
    case (Some p)
    then have step: "parse_interval s (fst p) (snd p) = Inr e"
      using assms by (auto simp: edtf_parse_def Let_def split: if_splits prod.splits)
    obtain x su sa where x: "parse_side (fst p) = Inr (x, su, sa)"
      using step by (cases "parse_side (fst p)") (auto simp: parse_interval_def split: if_splits)
    obtain y eu ea where y: "parse_side (snd p) = Inr (y, eu, ea)"
      using step x by (cases "parse_side (snd p)") (auto simp: parse_interval_def split: if_splits)
    have xy: "ed_min e = map_option bo_min x" "ed_max e = map_option bo_max y"
        "ed_kind e = Interval" "\<not> backwards x y"
      using step x y by (auto simp: parse_interval_def split: if_splits)
    have ok: "x = Some b \<or> y = Some b \<Longrightarrow> bounds_ok b" for b
      using x y parse_side_ok by auto
    have day: "valid_date d \<and> - 9999 \<le> d_year d \<and> d_year d \<le> 10000"
      if d: "ed_min e = Some d \<or> ed_max e = Some d" for d
    proof -
      obtain b where "x = Some b \<or> y = Some b" "d = bo_min b \<or> d = bo_max b"
        using d xy(1,2) by auto
      then show ?thesis using ok [of b] years [of b] by (auto simp: bounds_ok_def)
    qed
    have "tuple a \<le> tuple b" if "ed_min e = Some a" "ed_max e = Some b" for a b
      using that xy(1,2,4) by (auto simp: backwards_def not_less)
    then show ?thesis using day xy(3) by simp
  qed
qed

subsection \<open>A full date is read exactly when the calendar has it\<close>

definition day_text :: "nat \<Rightarrow> nat \<Rightarrow> nat \<Rightarrow> string" where
  "day_text y m d = pad 4 y @ ''-'' @ pad 2 m @ ''-'' @ pad 2 d"

lemma split_char_last: "d \<notin> set s \<Longrightarrow> split_char d s = [s]"
  by (induction s) auto

lemma split_char_append: "d \<notin> set s \<Longrightarrow> split_char d (s @ d # t) = s # split_char d t"
  by (induction s) (auto split: list.splits)

lemma digits_range_value:
  "list_all is_ascii_digit s \<Longrightarrow> s \<noteq> [] \<Longrightarrow> parse_digits_range s = Some (dec_value s, dec_value s)"
proof -
  assume a: "list_all is_ascii_digit s" "s \<noteq> []"
  have x: "is_ascii_digit c \<Longrightarrow> c \<noteq> CHR ''X''" for c by (auto simp: is_ascii_digit_def)
  have "foldl (\<lambda>(lo, hi) c. if c = CHR ''X'' then (lo * 10, hi * 10 + 9)
             else (lo * 10 + digit_val c, hi * 10 + digit_val c)) (n, n) s =
      (foldl (\<lambda>acc c. acc * 10 + digit_val c) n s, foldl (\<lambda>acc c. acc * 10 + digit_val c) n s)" for n
    using a(1) by (induction s arbitrary: n) (use x in auto)
  then show ?thesis using a by (auto simp: parse_digits_range_def dec_value_def list_all_iff)
qed

text \<open>A character that neither starts nor ends a white space.\<close>

definition plain :: "char \<Rightarrow> bool" where
  "plain c \<longleftrightarrow> list_all (\<lambda>w. w = [] \<or> hd w \<noteq> c) (white_space @ map rev white_space)"

lemma white_space_no_digit:
  "list_all (\<lambda>w. w = [] \<or> \<not> is_ascii_digit (hd w)) (white_space @ map rev white_space)"
  by (simp add: white_space_def is_ascii_digit_def upt_conv_Cons)

lemma plain_digit: "is_ascii_digit c \<Longrightarrow> plain c"
  using white_space_no_digit unfolding plain_def list_all_iff by metis

lemma plain_chars: "plain CHR ''X''" "plain CHR ''.''"
  by (simp_all add: plain_def white_space_def char_of_def upt_conv_Cons)

lemma trim_with_plain:
  assumes "list_all (\<lambda>w. w = [] \<or> hd w \<noteq> c) ws"
  shows "trim_with ws (c # s) = c # s"
proof -
  have "\<not> (w \<noteq> [] \<and> prefix w (c # s))" if "w \<in> set ws" for w
  proof
    assume "w \<noteq> [] \<and> prefix w (c # s)"
    then have "w \<noteq> []" "hd w = c" by (cases w, auto)+
    then show False using that assms by (auto simp: list_all_iff)
  qed
  then have "find (\<lambda>w. w \<noteq> [] \<and> prefix w (c # s)) ws = None" by (auto simp: find_None_iff)
  then show ?thesis by simp
qed

lemma trim_plain:
  assumes "plain c" "plain d"
  shows "trim (c # s @ [d]) = c # s @ [d]"
proof -
  have ws: "list_all (\<lambda>w. w = [] \<or> hd w \<noteq> c) white_space"
      "list_all (\<lambda>w. w = [] \<or> hd w \<noteq> d) (map rev white_space)"
    using assms by (simp_all add: plain_def)
  show ?thesis
    using trim_with_plain [OF ws(1)] trim_with_plain [OF ws(2), of "rev s @ [c]"]
    by (simp add: trim_def)
qed

lemma split_once_None: "d \<notin> set s \<Longrightarrow> split_once d s = None"
  by (induction s) auto

lemma parse_day_parts:
  assumes "y < 10000" "m < 100" "d < 100"
  shows "parse_parts False [pad 4 y, pad 2 m, pad 2 d] =
    (if valid_date (date_of (int y) m d)
     then Some \<lparr>bo_min = date_of (int y) m d, bo_max = date_of (int y) m d, bo_precision = PDay\<rparr> else None)"
proof -
  have fields: "parse_digits_range (pad 4 y) = Some (y, y)" "parse_u8_range (pad 2 m) = Some (m, m)"
      "parse_u8_range (pad 2 d) = Some (d, d)"
      "length (pad 4 y) = 4" "length (pad 2 m) = 2" "length (pad 2 d) = 2"
    using pad_facts [of y 4] pad_facts [of m 2] pad_facts [of d 2] assms
      digits_range_value [of "pad 4 y"] digits_range_value [of "pad 2 m"] digits_range_value [of "pad 2 d"]
    by (force simp: parse_u8_range_def)+
  have "days_in_month (int y) m \<le> 31" using days_in_month_bounds by simp
  moreover have "parse_parts False [pad 4 y, pad 2 m, pad 2 d] =
      (if 21 \<le> m \<and> m \<le> 24 then None
       else case month_range m m of None \<Rightarrow> None
       | Some mm \<Rightarrow> (case day_range d d of None \<Rightarrow> None | Some dd \<Rightarrow> day_bounds (int y, int y) mm dd))"
    by (simp add: parse_parts_def fields Let_def cong: option.case_cong)
  ultimately show ?thesis
    by (auto simp: month_range_def day_range_def day_bounds_def valid_date_def date_of_def)
qed

lemma edtf_day_exact_aux:
  assumes "y < 10000" "m < 100" "d < 100"
  shows "edtf_parse (day_text y m d) =
    (if valid_date (date_of (int y) m d)
     then Inr \<lparr>ed_input = day_text y m d, ed_kind = Single, ed_min = Some (date_of (int y) m d),
            ed_max = Some (date_of (int y) m d), ed_precision = PDay, ed_uncertain = False,
            ed_approximate = False\<rparr>
     else Inl (MalformedDate (day_text y m d)))"
proof -
  note y = pad_facts [of y 4] and m = pad_facts [of m 2] and d = pad_facts [of d 2]
  obtain c s where c: "pad 4 y = c # s" "is_ascii_digit c" "list_all is_ascii_digit s"
    using y assms(1) by (cases "pad 4 y") auto
  obtain u e where e: "pad 2 d = u @ [e]" "is_ascii_digit e" "list_all is_ascii_digit u"
    using d assms(3) by (cases "pad 2 d" rule: rev_cases) auto
  have nodash: "CHR ''-'' \<notin> set (pad 4 y)" "CHR ''-'' \<notin> set (pad 2 m)" "CHR ''-'' \<notin> set (pad 2 d)"
    using y m d assms by (auto simp: list_all_iff is_ascii_digit_def)
  have noslash: "CHR ''/'' \<notin> set (day_text y m d)"
    using y m d assms by (auto simp: day_text_def list_all_iff is_ascii_digit_def)
  define t where "t = s @ ''-'' @ pad 2 m @ ''-'' @ u"
  have tx: "day_text y m d = c # t @ [e]" by (simp add: day_text_def c(1) e(1) t_def)
  have first: "c \<noteq> CHR ''-''" and final: "e \<noteq> CHR ''%''" "e \<noteq> CHR ''?''" "e \<noteq> CHR 0x7E"
    using c(2) e(2) by (auto simp: is_ascii_digit_def)
  have "split_char (CHR ''-'') (day_text y m d) = [pad 4 y, pad 2 m, pad 2 d]"
    using nodash by (simp add: day_text_def split_char_append split_char_last)
  then have core: "parse_core (day_text y m d) =
      (case parse_parts False [pad 4 y, pad 2 m, pad 2 d] of
         None \<Rightarrow> Inl (MalformedDate (day_text y m d)) | Some b \<Rightarrow> Inr b)"
    using first unfolding parse_core_def tx by simp
  have "parse_single (day_text y m d) =
      (case parse_core (day_text y m d) of Inl x \<Rightarrow> Inl x | Inr b \<Rightarrow> Inr (b, False, False))"
    using final by (simp add: parse_single_def tx)
  moreover have "trim (day_text y m d) = day_text y m d"
    using trim_plain [OF plain_digit plain_digit, OF c(2) e(2)] by (simp add: tx)
  ultimately show ?thesis
    using core parse_day_parts [OF assms] split_once_None [OF noslash]
    by (auto simp: edtf_parse_def Let_def tx)
qed

text \<open>A date written with four, two and two digits is accepted exactly when the calendar has
  that day, and then both bounds are that day; otherwise it is refused, not clamped.\<close>

theorem edtf_day_exact:
  assumes "y < 10000" "m < 100" "d < 100"
  shows "edtf_parse (day_text y m d) =
    (if valid_date (date_of (int y) m d)
     then Inr \<lparr>ed_input = day_text y m d, ed_kind = Single, ed_min = Some (date_of (int y) m d),
            ed_max = Some (date_of (int y) m d), ed_precision = PDay, ed_uncertain = False,
            ed_approximate = False\<rparr>
     else Inl (MalformedDate (day_text y m d)))"
  by (rule edtf_day_exact_aux [OF assms])

text \<open>The leap day of 2000 is read, and 30 February is not.\<close>

theorem edtf_day_exact_witness:
  "ed_min (projr (edtf_parse (day_text 2000 2 29))) = Some (date_of 2000 2 29) \<and>
   edtf_parse (day_text 1985 2 30) = Inl (MalformedDate (day_text 1985 2 30))"
  using edtf_day_exact [of 2000 2 29] edtf_day_exact [of 1985 2 30]
  by (simp add: valid_date_def date_of_def days_in_month_def is_leap_def)

lemmas edtf_eval = edtf_parse_def parse_interval_def parse_side_def parse_single_def parse_core_def
  parse_parts_def parse_digits_range_def parse_u8_range_def month_range_def day_range_def
  day_bounds_def season_bounds_def days_in_month_def is_leap_def is_ascii_digit_def digit_val_def
  date_of_def backwards_def tuple_def

lemma winter_trim: "trim ''19XX-24/..'' = ''19XX-24/..''" "trim ''19XX-24'' = ''19XX-24''" "trim ''..'' = ''..''"
  using trim_plain [of "CHR ''1''" "CHR ''.''" "''9XX-24/.''"] trim_plain [of "CHR ''1''" "CHR ''4''" "''9XX-2''"]
    trim_plain [of "CHR ''.''" "CHR ''.''" "[]"]
  by (simp_all add: plain_chars plain_digit is_ascii_digit_def)

lemma winter: "edtf_parse ''19XX-24/..'' = Inr \<lparr>ed_input = ''19XX-24/..'', ed_kind = Interval,
    ed_min = Some (date_of 1900 12 1), ed_max = None, ed_precision = PSeason,
    ed_uncertain = False, ed_approximate = False\<rparr>"
  by (simp add: edtf_eval winter_trim)

theorem edtf_sound_witness: "valid_date (date_of 1900 12 1)"
  using edtf_sound [OF winter] by simp

text \<open>An unspecified digit escapes the check of the day: no day of February 1985 is written
  with a leading 3, yet the text is read as 28 February.\<close>

theorem impossible_day_clamped:
  "edtf_parse ''1985-02-3X'' = Inr \<lparr>ed_input = ''1985-02-3X'', ed_kind = Single,
     ed_min = Some (date_of 1985 2 28), ed_max = Some (date_of 1985 2 28), ed_precision = PDay,
     ed_uncertain = False, ed_approximate = False\<rparr> \<and>
   (\<forall>k \<in> {0..<10}. projl (edtf_parse (day_text 1985 2 (30 + k))) = MalformedDate (day_text 1985 2 (30 + k)))"
proof
  have "trim ''1985-02-3X'' = ''1985-02-3X''"
    using trim_plain [of "CHR ''1''" "CHR ''X''" "''985-02-3''"]
    by (simp add: plain_chars plain_digit is_ascii_digit_def)
  then show "edtf_parse ''1985-02-3X'' = Inr \<lparr>ed_input = ''1985-02-3X'', ed_kind = Single,
     ed_min = Some (date_of 1985 2 28), ed_max = Some (date_of 1985 2 28), ed_precision = PDay,
     ed_uncertain = False, ed_approximate = False\<rparr>"
    by (simp add: edtf_eval)
  have "\<not> valid_date (date_of 1985 2 (30 + k))" for k
    by (simp add: valid_date_def date_of_def days_in_month_def is_leap_def)
  then show "\<forall>k \<in> {0..<10}. projl (edtf_parse (day_text 1985 2 (30 + k))) =
      MalformedDate (day_text 1985 2 (30 + k))"
    using edtf_day_exact_aux [of 1985 2] by simp
qed

end
