(* ===== verification/Projection.thy ===== *)
theory Projection
  imports Proj_Collect Edtf
begin

text \<open>
  Identity resolution, the per-person aggregates and the assembly of the read model
  (\<open>packages/openom-data-projection/src/lib.rs\<close>, \<open>resolve\<close> to \<open>assemble_unions\<close> and
  \<open>project\<close>).  Clustering and the equivalence classes of names run a union-find, so they and
  their callers are \<open>option\<close>-valued; \<open>Proj_Total\<close> shows that \<open>project\<close> always returns.
\<close>

subsection \<open>Identity\<close>

record resolved =
  re_rep :: "(string, string) btmap"
  re_canonical :: "(string, string) btmap"
  re_by_key :: "(string, string btset) btmap"
  re_rehome :: "(string, string) btmap"
  re_skipped :: "(string \<times> string) list"

definition canon_of :: "resolved \<Rightarrow> string \<Rightarrow> string option" where
  "canon_of r i = Option.bind (bt_get (re_rep r) i) (bt_get (re_canonical r))"

definition eff_target :: "resolved \<Rightarrow> string \<Rightarrow> string \<Rightarrow> string" where
  "eff_target r cid orig = (case bt_get (re_rehome r) cid of None \<Rightarrow> orig | Some p \<Rightarrow> p)"

definition subject_of :: "resolved \<Rightarrow> string \<Rightarrow> string \<Rightarrow> string option" where
  "subject_of r cid target = canon_of r (eff_target r cid target)"

text \<open>\<open>Iterator::max_by\<close>: the last of the greatest elements.\<close>

definition max_by :: "('a \<Rightarrow> 'a \<Rightarrow> bool) \<Rightarrow> 'a list \<Rightarrow> 'a option" where
  "max_by le xs = (case xs of [] \<Rightarrow> None | x # ys \<Rightarrow> Some (foldl (\<lambda>b y. if le b y then y else b) x ys))"

definition score_le :: "int \<times> string \<Rightarrow> int \<times> string \<Rightarrow> bool" where
  "score_le x y \<longleftrightarrow> fst x < fst y \<or> fst x = fst y \<and> snd y \<le> snd x"

definition person_nodes :: "collected \<Rightarrow> string btset" where
  "person_nodes c =
     foldl (\<lambda>s x. bs_insert x s) (co_anchors c)
       (concat (map (\<lambda>p. [fst p, snd p]) (bt_keys (co_same_as c) @ bt_keys (co_different_from c))) @
        map fst (co_names c) @ map fst (co_sex c) @ map fst (co_biography c) @ map fst (co_customs c) @
        map fst (co_media c) @ concat (map (\<lambda>(k, options). bt_keys options) (co_reattribute c)) @
        concat (map (\<lambda>(child, parent, kind). [child, parent]) (bt_keys (co_parent_child c))) @
        concat (map (\<lambda>(p, role). [fst p, snd p]) (bt_keys (co_partnership c))))"

definition identity_edges :: "collected \<Rightarrow> policy \<Rightarrow> edge list" where
  "identity_edges c P =
     map (\<lambda>(p, info). \<lparr>ed_a = fst p, ed_b = snd p, ed_score = score info (co_attests c)\<rparr>)
       (filter (\<lambda>(p, info). same_as_threshold P \<le> score info (co_attests c)) (co_same_as c))"

definition identity_cuts :: "collected \<Rightarrow> policy \<Rightarrow> (string \<times> string) list" where
  "identity_cuts c P =
     map fst (filter (\<lambda>(p, info). different_from_threshold P \<le> score info (co_attests c)) (co_different_from c))"

definition group_by_key :: "(string, string) btmap \<Rightarrow> (string, string btset) btmap" where
  "group_by_key rep = foldl (\<lambda>m (node, key). bt_entry key [] (bs_insert node) m) [] rep"

definition canonical_anchors :: "string btset \<Rightarrow> (string, string btset) btmap \<Rightarrow> (string, string) btmap" where
  "canonical_anchors anchors by_key =
     foldl (\<lambda>m (key, members).
       case find (\<lambda>x. x \<in> set anchors) members of None \<Rightarrow> m | Some a \<Rightarrow> bt_insert key a m) [] by_key"

definition rehome_of :: "collected \<Rightarrow> policy \<Rightarrow> (string, string) btmap" where
  "rehome_of c P =
     foldl (\<lambda>m (cid, options).
       case max_by score_le (map (\<lambda>(person, info). (score info (co_attests c), person))
              (filter (\<lambda>(person, info). reattribute_threshold P \<le> score info (co_attests c)) options)) of
         None \<Rightarrow> m | Some (s, person) \<Rightarrow> bt_insert cid person m) [] (co_reattribute c)"

definition resolve :: "collected \<Rightarrow> policy \<Rightarrow> resolved option" where
  "resolve c P = do {
     cl \<leftarrow> cluster (person_nodes c) (identity_edges c P) (identity_cuts c P);
     let by_key = group_by_key (cl_rep cl);
     Some \<lparr>re_rep = cl_rep cl, re_canonical = canonical_anchors (co_anchors c) by_key,
           re_by_key = by_key, re_rehome = rehome_of c P, re_skipped = cl_skipped cl\<rparr>
   }"

subsection \<open>Views\<close>

record name_view =
  nv_claim :: string
  nv_parts :: json
  nv_class :: string

record source_ref =
  sr_id :: string
  sr_title :: "string option"
  sr_repository :: "string option"
  sr_uri :: "string option"
  sr_quality :: "string option"

record citation_view =
  cv_claim :: string
  cv_predicate :: string
  cv_locator :: "json option"
  cv_extract :: "string option"
  cv_source :: source_ref

record custom_field =
  cf_id :: string
  cf_label :: string
  cf_type :: string
  cf_value :: json

record media_link =
  ml_claim :: string
  ml_hash :: string
  ml_value :: "(string, json) btmap"

record generic_view =
  gv_claim :: string
  gv_target :: string
  gv_predicate :: string
  gv_value :: json
  gv_created_by :: string

record person =
  pe_id :: string
  pe_also :: "string list"
  pe_names :: "name_view list"
  pe_preferred_name :: "string option"
  pe_sex :: "string option"
  pe_biography :: "string option"
  pe_custom_fields :: "custom_field list"
  pe_sources :: "citation_view list"
  pe_media :: "media_link list"
  pe_other :: "generic_view list"

subsection \<open>Corroboration\<close>

definition votes_le :: "nat \<times> 'k::linorder \<Rightarrow> nat \<times> 'k \<Rightarrow> bool" where
  "votes_le x y \<longleftrightarrow> fst x < fst y \<or> fst x = fst y \<and> snd y \<le> snd x"

definition most_corroborated :: "(string, string btset) btmap \<Rightarrow> string option" where
  "most_corroborated vs =
     map_option snd (max_by votes_le (map (\<lambda>(v, authors). (length authors, v)) vs))"

definition best_json :: "(string, string btset \<times> json) btmap \<Rightarrow> json option" where
  "best_json vs =
     map_option (snd \<circ> snd)
       (max_by (\<lambda>a b. votes_le (length (fst (snd a)), fst a) (length (fst (snd b)), fst b)) vs)"

subsection \<open>Names\<close>

definition name_ref :: "proj_env \<Rightarrow> json \<Rightarrow> string option" where
  "name_ref E v =
     content_ref E (JObj (foldl (\<lambda>m k. case js_get v k of None \<Rightarrow> m | Some x \<Rightarrow> bt_insert k x m) []
       [''parts'', ''script'', ''culture'']))"

definition ref_ids :: "proj_env \<Rightarrow> name_view list \<Rightarrow> (string, string) btmap" where
  "ref_ids E names =
     foldl (\<lambda>m n. case name_ref E (nv_parts n) of None \<Rightarrow> m | Some r \<Rightarrow> bt_insert r (nv_claim n) m) [] names"

fun union_all :: "string btset \<Rightarrow> string \<Rightarrow> string list \<Rightarrow> uf \<Rightarrow> uf option" where
  "union_all nodes own [] p = Some p"
| "union_all nodes own (e # es) p =
     (if e \<in> set nodes then do { q \<leftarrow> uf_union p own e; union_all nodes own es q }
      else union_all nodes own es p)"

definition equivalents :: "json \<Rightarrow> string list" where
  "equivalents v =
     (case Option.bind (js_get v ''equivalent_to'') as_array of
        None \<Rightarrow> [] | Some xs \<Rightarrow> List.map_filter as_str xs)"

fun join_names :: "proj_env \<Rightarrow> string btset \<Rightarrow> name_view list \<Rightarrow> uf \<Rightarrow> uf option" where
  "join_names E nodes [] p = Some p"
| "join_names E nodes (n # ns) p =
     (case name_ref E (nv_parts n) of
        None \<Rightarrow> join_names E nodes ns p
      | Some own \<Rightarrow> do { q \<leftarrow> union_all nodes own (equivalents (nv_parts n)) p; join_names E nodes ns q })"

fun min_ids :: "(string \<times> string) list \<Rightarrow> uf \<Rightarrow> (string, string) btmap \<Rightarrow> ((string, string) btmap \<times> uf) option" where
  "min_ids [] p m = Some (m, p)"
| "min_ids ((r, cid) # rs) p m = do {
     (root, p1) \<leftarrow> uf_find p r;
     let cur = (case bt_get m root of None \<Rightarrow> cid | Some x \<Rightarrow> x);
     min_ids rs p1 (bt_insert root (if cid < cur then cid else cur) m)
   }"

fun class_ids :: "(string \<times> string) list \<Rightarrow> uf \<Rightarrow> (string, string) btmap \<Rightarrow> (string, string) btmap \<Rightarrow>
    (string, string) btmap option" where
  "class_ids [] p m out = Some out"
| "class_ids ((r, cid) # rs) p m out = do {
     (root, p1) \<leftarrow> uf_find p r;
     least \<leftarrow> bt_get m root;
     class_ids rs p1 m (bt_insert cid least out)
   }"

definition equiv_classes :: "proj_env \<Rightarrow> name_view list \<Rightarrow> (string, string) btmap option" where
  "equiv_classes E names =
     (let refs = ref_ids E names; nodes = bt_keys refs in do {
        p \<leftarrow> join_names E nodes names (uf_new nodes);
        (m, p1) \<leftarrow> min_ids refs p [];
        class_ids refs p1 m []
      })"

definition label_names :: "proj_env \<Rightarrow> name_view list \<Rightarrow> name_view list option" where
  "label_names E views =
     (let sorted = sort_key nv_claim views in do {
        classes \<leftarrow> equiv_classes E sorted;
        Some (map (\<lambda>v. v\<lparr>nv_class :=
          (case bt_get classes (nv_claim v) of None \<Rightarrow> nv_claim v | Some k \<Rightarrow> k)\<rparr>) sorted)
      })"

fun label_all :: "proj_env \<Rightarrow> (string, name_view list) btmap \<Rightarrow> (string, name_view list) btmap option" where
  "label_all E [] = Some []"
| "label_all E ((p, views) # m) = do {
     vs \<leftarrow> label_names E views;
     rest \<leftarrow> label_all E m;
     Some ((p, vs) # rest)
   }"

text \<open>Pushing every entry that belongs to a person onto that person's list.\<close>

definition push_to :: "string option \<Rightarrow> 'a \<Rightarrow> (string, 'a list) btmap \<Rightarrow> (string, 'a list) btmap" where
  "push_to canon x m = (case canon of None \<Rightarrow> m | Some p \<Rightarrow> bt_entry p [] (\<lambda>xs. xs @ [x]) m)"

definition names_map :: "proj_env \<Rightarrow> collected \<Rightarrow> resolved \<Rightarrow> (string, name_view list) btmap option" where
  "names_map E c r =
     label_all E (foldl (\<lambda>m (target, cid, parts).
       push_to (subject_of r cid target) \<lparr>nv_claim = cid, nv_parts = parts, nv_class = []\<rparr> m) [] (co_names c))"

subsection \<open>The other aggregates\<close>

definition vote_map :: "resolved \<Rightarrow> (string \<times> string \<times> string \<times> string) list \<Rightarrow> tally" where
  "vote_map r claims =
     foldl (\<lambda>m (target, cid, v, author).
       case subject_of r cid target of None \<Rightarrow> m | Some p \<Rightarrow> count_vote p v author m) [] claims"

definition sex_map :: "collected \<Rightarrow> resolved \<Rightarrow> tally" where
  "sex_map c r = vote_map r (co_sex c)"

definition biography_map :: "collected \<Rightarrow> resolved \<Rightarrow> tally" where
  "biography_map c r = vote_map r (co_biography c)"

definition customs_by_person ::
  "proj_env \<Rightarrow> collected \<Rightarrow> resolved \<Rightarrow> (string, (string, (string, string btset \<times> json) btmap) btmap) btmap" where
  "customs_by_person E c r =
     foldl (\<lambda>m (target, cid, fid, v, author).
       case subject_of r cid target of
         None \<Rightarrow> m
       | Some p \<Rightarrow> bt_entry p [] (bt_entry fid [] (count_json (pe_text E v) v author)) m) [] (co_customs c)"

definition custom_fields_of ::
  "collected \<Rightarrow> (string, (string, string btset \<times> json) btmap) btmap \<Rightarrow> custom_field list" where
  "custom_fields_of c by_field =
     sort_key cf_id (List.map_filter (\<lambda>(fid, by_value).
       map_option (\<lambda>v. \<lparr>cf_id = fid,
         cf_label = (case Option.bind (bt_get (co_field_label c) fid) most_corroborated of None \<Rightarrow> fid | Some l \<Rightarrow> l),
         cf_type = (case Option.bind (bt_get (co_field_type c) fid) most_corroborated of None \<Rightarrow> ''text'' | Some t \<Rightarrow> t),
         cf_value = v\<rparr>) (best_json by_value)) by_field)"

definition customs_map :: "proj_env \<Rightarrow> collected \<Rightarrow> resolved \<Rightarrow> (string, custom_field list) btmap" where
  "customs_map E c r = map (\<lambda>(p, by_field). (p, custom_fields_of c by_field)) (customs_by_person E c r)"

definition citation_view_of :: "collected \<Rightarrow> string \<Rightarrow> string \<Rightarrow> json \<Rightarrow> citation_view" where
  "citation_view_of c cid pred cit =
     (let sid = str_or_empty (str_field cit ''sourceId'');
          field = (\<lambda>k. Option.bind (bt_get (co_sources c) sid) (\<lambda>s. str_field s k))
      in \<lparr>cv_claim = cid, cv_predicate = pred, cv_locator = js_get cit ''locator'',
          cv_extract = str_field cit ''extract'',
          cv_source = \<lparr>sr_id = sid, sr_title = field ''title'', sr_repository = field ''repository'',
                       sr_uri = field ''uri'', sr_quality = field ''quality''\<rparr>\<rparr>)"

definition sources_map :: "collected \<Rightarrow> resolved \<Rightarrow> (string, citation_view list) btmap" where
  "sources_map c r =
     map (\<lambda>(p, cits). (p, remdups_adj (sort_key (\<lambda>x. (sr_id (cv_source x), cv_claim x)) cits)))
       (foldl (\<lambda>m (target, cid, pred, cit). push_to (subject_of r cid target) (citation_view_of c cid pred cit) m)
          [] (co_citations c))"

definition media_link_of :: "string \<Rightarrow> json \<Rightarrow> media_link" where
  "media_link_of cid v =
     \<lparr>ml_claim = cid, ml_hash = str_or_empty (str_field v ''mediaHash''),
      ml_value = bt_remove ''mediaHash'' (case as_object v of None \<Rightarrow> [] | Some m \<Rightarrow> m)\<rparr>"

definition media_map :: "collected \<Rightarrow> resolved \<Rightarrow> (string, media_link list) btmap" where
  "media_map c r =
     map (\<lambda>(p, links). (p, remdups_adj (sort_key ml_claim links)))
       (foldl (\<lambda>m (target, cid, v). push_to (subject_of r cid target) (media_link_of cid v) m) [] (co_media c))"

definition generic_view_of :: "string \<times> string \<times> string \<times> json \<times> string \<Rightarrow> generic_view" where
  "generic_view_of x =
     (case x of (target, cid, pred, v, author) \<Rightarrow>
        \<lparr>gv_claim = cid, gv_target = target, gv_predicate = pred, gv_value = v, gv_created_by = author\<rparr>)"

definition other_map :: "collected \<Rightarrow> resolved \<Rightarrow> (string, generic_view list) btmap \<times> generic_view list" where
  "other_map c r =
     (case foldl (\<lambda>(m, un) x.
          case subject_of r (fst (snd x)) (fst x) of
            None \<Rightarrow> (m, un @ [generic_view_of x])
          | Some p \<Rightarrow> (push_to (Some p) (generic_view_of x) m, un)) ([], []) (co_other c) of
        (by_person, un) \<Rightarrow>
          (map (\<lambda>(p, views). (p, sort_key gv_claim views)) by_person,
           sort_key (\<lambda>v. (gv_target v, gv_predicate v, gv_claim v)) un))"

definition preferred_slots ::
  "collected \<Rightarrow> resolved \<Rightarrow> (string \<times> string, (string \<times> pair_info) list) btmap" where
  "preferred_slots c r =
     foldl (\<lambda>m ((p, for_pred, rf), info).
       case canon_of r p of
         None \<Rightarrow> m
       | Some canon \<Rightarrow> bt_entry (canon, for_pred) [] (\<lambda>xs. xs @ [(rf, info)]) m) [] (co_preferred c)"

definition preferred_names_map ::
  "proj_env \<Rightarrow> collected \<Rightarrow> resolved \<Rightarrow> (string, name_view list) btmap \<Rightarrow> policy \<Rightarrow> (string, string) btmap" where
  "preferred_names_map E c r names P =
     foldl (\<lambda>m ((p, for_pred), options).
       if for_pred \<noteq> P_NAME then m
       else
         let refs = map_option (ref_ids E) (bt_get names p);
             named = (\<lambda>rf. Option.bind refs (\<lambda>ids. bt_get ids rf))
         in case max_by score_le (map (\<lambda>(rf, info). (score info (co_attests c), rf))
                (filter (\<lambda>(rf, info). preferred_threshold P \<le> score info (co_attests c) \<and> named rf \<noteq> None) options)) of
              None \<Rightarrow> m
            | Some (s, rf) \<Rightarrow> (case named rf of None \<Rightarrow> m | Some i \<Rightarrow> bt_insert p i m)) []
       (preferred_slots c r)"

record person_maps =
  pm_names :: "(string, name_view list) btmap"
  pm_sex :: tally
  pm_biography :: tally
  pm_customs :: "(string, custom_field list) btmap"
  pm_sources :: "(string, citation_view list) btmap"
  pm_media :: "(string, media_link list) btmap"
  pm_other :: "(string, generic_view list) btmap"
  pm_unclassified :: "generic_view list"
  pm_preferred :: "(string, string) btmap"

definition build_person_maps :: "proj_env \<Rightarrow> collected \<Rightarrow> resolved \<Rightarrow> policy \<Rightarrow> person_maps option" where
  "build_person_maps E c r P = do {
     names \<leftarrow> names_map E c r;
     let (other, un) = other_map c r;
     Some \<lparr>pm_names = names, pm_sex = sex_map c r, pm_biography = biography_map c r,
           pm_customs = customs_map E c r, pm_sources = sources_map c r, pm_media = media_map c r,
           pm_other = other, pm_unclassified = un,
           pm_preferred = preferred_names_map E c r names P\<rparr>
   }"


subsection \<open>People\<close>

definition or_empty :: "'a list option \<Rightarrow> 'a list" where
  "or_empty xs = (case xs of None \<Rightarrow> [] | Some ys \<Rightarrow> ys)"

text \<open>One cluster: a person is taken out of the maps it owns.\<close>

definition assemble_person ::
  "collected \<Rightarrow> string \<Rightarrow> string btset \<Rightarrow> person_maps \<Rightarrow> person \<times> person_maps" where
  "assemble_person c canon members m =
     (\<lparr>pe_id = canon, pe_also = filter (\<lambda>x. x \<in> set (co_anchors c) \<and> x \<noteq> canon) members,
       pe_names = or_empty (bt_get (pm_names m) canon),
       pe_preferred_name = bt_get (pm_preferred m) canon,
       pe_sex = Option.bind (bt_get (pm_sex m) canon) most_corroborated,
       pe_biography = Option.bind (bt_get (pm_biography m) canon) most_corroborated,
       pe_custom_fields = or_empty (bt_get (pm_customs m) canon),
       pe_sources = or_empty (bt_get (pm_sources m) canon),
       pe_media = or_empty (bt_get (pm_media m) canon),
       pe_other = or_empty (bt_get (pm_other m) canon)\<rparr>,
      m\<lparr>pm_names := bt_remove canon (pm_names m), pm_customs := bt_remove canon (pm_customs m),
        pm_sources := bt_remove canon (pm_sources m), pm_media := bt_remove canon (pm_media m),
        pm_other := bt_remove canon (pm_other m)\<rparr>)"

fun assemble_clusters ::
  "collected \<Rightarrow> resolved \<Rightarrow> (string \<times> string btset) list \<Rightarrow> person_maps \<Rightarrow> person list" where
  "assemble_clusters c r [] m = []"
| "assemble_clusters c r ((key, members) # ks) m =
     (case bt_get (re_canonical r) key of
        None \<Rightarrow> assemble_clusters c r ks m
      | Some canon \<Rightarrow>
          (case assemble_person c canon members m of
             (p, m') \<Rightarrow> p # assemble_clusters c r ks m'))"

definition assemble_people :: "collected \<Rightarrow> resolved \<Rightarrow> person_maps \<Rightarrow> person list" where
  "assemble_people c r m = sort_key pe_id (assemble_clusters c r (re_by_key r) m)"

subsection \<open>Events\<close>

type_synonym participant = "string \<times> string"

record place_view =
  pv_id :: string
  pv_name :: "string option"
  pv_point :: "json option"
  pv_part_of :: "string option"

record event_view =
  ev_id :: string
  ev_type :: "string option"
  ev_date :: "string option"
  ev_min_year :: "int option"
  ev_max_year :: "int option"
  ev_place_id :: "string option"
  ev_participants :: "participant list"
  ev_place :: "place_view option"

definition range_covers :: "string \<Rightarrow> int \<Rightarrow> bool" where
  "range_covers valid_range year =
     (if valid_range = [] then True
      else case edtf_parse valid_range of
        Inl e \<Rightarrow> False
      | Inr e \<Rightarrow> (case ed_min e of None \<Rightarrow> True | Some d \<Rightarrow> d_year d \<le> year) \<and>
                 (case ed_max e of None \<Rightarrow> True | Some d \<Rightarrow> year \<le> d_year d))"

definition best_place_name :: "(string \<times> string, string btset) btmap \<Rightarrow> string option" where
  "best_place_name cands =
     map_option snd (max_by votes_le (map (\<lambda>((vr, name), authors). (length authors, name)) cands))"

definition pick_place_name :: "(string \<times> string, string btset) btmap \<Rightarrow> int option \<Rightarrow> string option" where
  "pick_place_name cands year =
     (case year of
        None \<Rightarrow> best_place_name cands
      | Some y \<Rightarrow>
          (case best_place_name (filter (\<lambda>((vr, name), authors). range_covers vr y) cands) of
             None \<Rightarrow> best_place_name cands
           | Some n \<Rightarrow> Some n))"

definition resolve_place :: "collected \<Rightarrow> string \<Rightarrow> int option \<Rightarrow> place_view" where
  "resolve_place c pid year =
     \<lparr>pv_id = pid,
      pv_name = Option.bind (bt_get (co_place_name c) pid) (\<lambda>cands. pick_place_name cands year),
      pv_point = Option.bind (bt_get (co_place_point c) pid) best_json,
      pv_part_of = Option.bind (bt_get (co_part_of c) pid) most_corroborated\<rparr>"

definition date_years :: "string option \<Rightarrow> int option \<times> int option" where
  "date_years date =
     (case date of
        None \<Rightarrow> (None, None)
      | Some s \<Rightarrow>
          (case edtf_parse s of
             Inl e \<Rightarrow> (None, None)
           | Inr e \<Rightarrow> (map_option d_year (ed_min e), map_option d_year (ed_max e))))"

definition assemble_event :: "collected \<Rightarrow> resolved \<Rightarrow> string \<Rightarrow> event_view" where
  "assemble_event c r eid =
     (let date = Option.bind (bt_get (co_event_date c) eid) most_corroborated;
          years = date_years date;
          place_id = Option.bind (bt_get (co_event_place c) eid) most_corroborated;
          parts = List.map_filter (\<lambda>(person, role). map_option (\<lambda>p. (p, role)) (canon_of r person))
                    (or_empty (bt_get (co_participants c) eid))
      in \<lparr>ev_id = eid, ev_type = Option.bind (bt_get (co_event_type c) eid) most_corroborated,
          ev_date = date, ev_min_year = fst years, ev_max_year = snd years, ev_place_id = place_id,
          ev_participants = remdups_adj (sort parts),
          ev_place = map_option (\<lambda>pid. resolve_place c pid
            (case fst years of None \<Rightarrow> snd years | Some y \<Rightarrow> Some y)) place_id\<rparr>)"

definition assemble_events :: "collected \<Rightarrow> resolved \<Rightarrow> event_view list" where
  "assemble_events c r = map (assemble_event c r) (co_events c)"

subsection \<open>Relationships and unions\<close>

text \<open>A parent-child edge is (parent, child, kind), a partnership (pair, role): the derived
  orders compare the fields from left to right.\<close>

definition parent_child_edge :: "collected \<Rightarrow> resolved \<Rightarrow> policy \<Rightarrow> triple \<times> pair_info \<Rightarrow> triple option" where
  "parent_child_edge c r P x =
     (case x of ((child, parent, kind), info) \<Rightarrow>
        if \<not> relationship_threshold P \<le> score info (co_attests c) then None
        else case canon_of r child of
          None \<Rightarrow> None
        | Some cc \<Rightarrow>
            (case canon_of r parent of
               None \<Rightarrow> None
             | Some pp \<Rightarrow> if cc \<noteq> pp then Some (pp, cc, kind) else None))"

definition parent_child_edges :: "collected \<Rightarrow> resolved \<Rightarrow> policy \<Rightarrow> triple list" where
  "parent_child_edges c r P =
     remdups_adj (sort (List.map_filter (parent_child_edge c r P) (co_parent_child c)))"

definition partnership_edge ::
  "collected \<Rightarrow> resolved \<Rightarrow> policy \<Rightarrow> ((string \<times> string) \<times> string) \<times> pair_info \<Rightarrow>
     ((string \<times> string) \<times> string) option" where
  "partnership_edge c r P x =
     (case x of ((p, role), info) \<Rightarrow>
        if \<not> relationship_threshold P \<le> score info (co_attests c) then None
        else case canon_of r (fst p) of
          None \<Rightarrow> None
        | Some a \<Rightarrow>
            (case canon_of r (snd p) of
               None \<Rightarrow> None
             | Some b \<Rightarrow> if a \<noteq> b then Some (sorted_pair a b, role) else None))"

definition partnership_edges :: "collected \<Rightarrow> resolved \<Rightarrow> policy \<Rightarrow> ((string \<times> string) \<times> string) list" where
  "partnership_edges c r P =
     remdups_adj (sort (List.map_filter (partnership_edge c r P) (co_partnership c)))"

record family =
  fa_id :: string
  fa_parents :: "string list"
  fa_children :: "string list"
  fa_marriage_event :: "string option"

definition parents_of_child :: "triple list \<Rightarrow> (string, string btset) btmap" where
  "parents_of_child es = foldl (\<lambda>m (parent, child, kind). bt_entry child [] (bs_insert parent) m) [] es"

definition union_children ::
  "triple list \<Rightarrow> ((string \<times> string) \<times> string) list \<Rightarrow> (string list, string btset) btmap" where
  "union_children pc pn =
     foldl (\<lambda>m (p, role). bt_entry [fst p, snd p] [] (\<lambda>s. s) m)
       (foldl (\<lambda>m (child, parents). bt_entry parents [] (bs_insert child) m) [] (parents_of_child pc)) pn"

fun join_with :: "string \<Rightarrow> string list \<Rightarrow> string" where
  "join_with sep [] = []"
| "join_with sep [x] = x"
| "join_with sep (x # y # xs) = x @ sep @ join_with sep (y # xs)"

definition marriage_of :: "event_view list \<Rightarrow> string list \<Rightarrow> string option" where
  "marriage_of events parents =
     map_option ev_id (find (\<lambda>e. ev_type e \<in> {Some ''marriage'', Some ''divorce''} \<and>
       bs_of_list (map fst (ev_participants e)) = bs_of_list parents) events)"

definition assemble_unions ::
  "triple list \<Rightarrow> ((string \<times> string) \<times> string) list \<Rightarrow> event_view list \<Rightarrow> family list" where
  "assemble_unions pc pn events =
     map (\<lambda>(parents, children).
       \<lparr>fa_id = ''union:'' @ join_with ''+'' parents, fa_parents = parents, fa_children = children,
        fa_marriage_event = marriage_of events parents\<rparr>) (union_children pc pn)"

subsection \<open>The projection\<close>

record projection =
  pr_people :: "person list"
  pr_parent_child :: "triple list"
  pr_partnerships :: "((string \<times> string) \<times> string) list"
  pr_unions :: "family list"
  pr_events :: "event_view list"
  pr_conflicts :: "(string \<times> string) list"
  pr_unclassified :: "generic_view list"

definition project_collected :: "proj_env \<Rightarrow> collected \<Rightarrow> policy \<Rightarrow> projection option" where
  "project_collected E c P = do {
     r \<leftarrow> resolve c P;
     m \<leftarrow> build_person_maps E c r P;
     let events = assemble_events c r;
     let pc = parent_child_edges c r P;
     let pn = partnership_edges c r P;
     Some \<lparr>pr_people = assemble_people c r m, pr_parent_child = pc, pr_partnerships = pn,
           pr_unions = assemble_unions pc pn events, pr_events = events,
           pr_conflicts = re_skipped r, pr_unclassified = pm_unclassified m\<rparr>
   }"

definition project :: "proj_env \<Rightarrow> json Record list \<Rightarrow> policy \<Rightarrow> projection option" where
  "project E records P = project_collected E (collect E (dedup_records E records)) P"

end
