(* ===== verification/Proj_People.thy ===== *)
theory Proj_People
  imports Projection
begin

text \<open>
  Who the people of a projection are.  Every accumulator that \<open>collect\<close> builds is well
  formed, so the clustering of \<open>resolve\<close> and the equivalence classes of names are run on
  forests whose pointers descend, and \<open>project\<close> returns.  The people partition the person
  anchors along the clusters, the relationships connect people, and a difference that is
  upheld separates them.
\<close>

subsection \<open>Well-formed accumulators\<close>

lemma bt_get_entry [simp, btree_simps]:
  "bt_get (bt_entry k d f m) = (bt_get m)(k \<mapsto> f (case bt_get m k of None \<Rightarrow> d | Some v \<Rightarrow> v))"
  by (simp add: bt_entry_def)

lemma bt_wf_entry [simp, btree_simps]: "bt_wf m \<Longrightarrow> bt_wf (bt_entry k d f m)"
  by (simp add: bt_entry_def)

lemma bt_entry_keys [simp, btree_simps]: "fst ` set (bt_entry k d f m) = insert k (fst ` set m)"
  by (simp add: bt_entry_def)

definition ordered_pairs :: "(string \<times> string) set \<Rightarrow> bool" where
  "ordered_pairs S \<longleftrightarrow> (\<forall>p \<in> S. fst p < snd p)"

definition collected_ok :: "collected \<Rightarrow> bool" where
  "collected_ok c \<longleftrightarrow> bs_wf (co_anchors c) \<and> bs_wf (co_events c) \<and>
     bt_wf (co_same_as c) \<and> bt_wf (co_different_from c) \<and> bt_wf (co_partnership c) \<and>
     ordered_pairs (fst ` set (co_same_as c)) \<and> ordered_pairs (fst ` set (co_different_from c)) \<and>
     ordered_pairs (fst ` fst ` set (co_partnership c))"

lemma ordered_pairs_insert [simp]: "ordered_pairs (insert p S) \<longleftrightarrow> fst p < snd p \<and> ordered_pairs S"
  by (simp add: ordered_pairs_def)

lemma sorted_pair_less: "a \<noteq> b \<Longrightarrow> fst (sorted_pair a b) < snd (sorted_pair a b)"
  by (auto simp: sorted_pair_def)

lemma claim_pair_less: "claim_pair c = Some p \<Longrightarrow> fst p < snd p"
  by (auto simp: claim_pair_def sorted_pair_less split: option.splits list.splits if_splits)

lemmas parse_defs = parse_place_point_def parse_place_name_def parse_media_link_def parse_attest_def
  parse_preferred_def parse_parent_def parse_partnership_def parse_participant_def parse_sex_def
  parse_biography_def parse_custom_field_def parse_custom_value_def parse_reattribute_def

lemma collect_pair_ok:
  "bt_wf m \<Longrightarrow> ordered_pairs (fst ` set m) \<Longrightarrow>
   bt_wf (collect_pair E c m) \<and> ordered_pairs (fst ` set (collect_pair E c m))"
  by (auto simp: collect_pair_def claim_pair_less split: option.split)

lemma parse_partnership_ok: "collected_ok acc \<Longrightarrow> collected_ok (parse_partnership E c acc)"
  by (auto simp: parse_partnership_def collected_ok_def claim_pair_less split: option.split)

lemma collected_ok_if: "collected_ok x \<Longrightarrow> collected_ok y \<Longrightarrow> collected_ok (if b then x else y)"
  by simp

text \<open>The other steps leave these fields alone.\<close>

lemma parse_claim_ok: "collected_ok acc \<Longrightarrow> collected_ok (parse_claim E c acc)"
proof -
  assume ok: "collected_ok acc"
  have same: "collected_ok (acc\<lparr>co_same_as := collect_pair E c (co_same_as acc)\<rparr>)"
    "collected_ok (acc\<lparr>co_different_from := collect_pair E c (co_different_from acc)\<rparr>)"
    using ok collect_pair_ok by (auto simp: collected_ok_def)
  have rest: "collected_ok (parse_place_point E c acc)" "collected_ok (parse_place_name c acc)"
    "collected_ok (parse_media_link c acc)" "collected_ok (parse_attest c acc)"
    "collected_ok (parse_preferred E c acc)" "collected_ok (parse_parent E c acc)"
    "collected_ok (parse_participant c acc)" "collected_ok (parse_sex c acc)"
    "collected_ok (parse_biography c acc)" "collected_ok (parse_custom_field c acc)"
    "collected_ok (parse_custom_value c acc)" "collected_ok (parse_reattribute E c acc)"
    using ok by (simp_all add: parse_defs collected_ok_def split: option.split)
  have upd: "collected_ok (acc\<lparr>co_sources := s\<rparr>)" "collected_ok (acc\<lparr>co_part_of := t\<rparr>)"
    "collected_ok (acc\<lparr>co_event_type := t\<rparr>)" "collected_ok (acc\<lparr>co_event_date := t\<rparr>)"
    "collected_ok (acc\<lparr>co_event_place := t\<rparr>)" "collected_ok (acc\<lparr>co_names := n\<rparr>)"
    "collected_ok (acc\<lparr>co_other := x\<rparr>)" for s t n x
    using ok by (simp_all add: collected_ok_def)
  show ?thesis
    unfolding parse_claim_def Let_def
    by (intro collected_ok_if same rest upd ok parse_partnership_ok [OF ok])
qed

lemma collect_one_ok: "collected_ok acc \<Longrightarrow> collected_ok (collect_one E r acc)"
proof -
  assume ok: "collected_ok acc"
  have cit: "collected_ok (acc\<lparr>co_citations := x\<rparr>)" for x
    using ok by (simp add: collected_ok_def)
  show ?thesis
  proof (cases r)
    case (Claim c)
    then show ?thesis
      using ok cit by (auto simp: collect_one_def intro!: parse_claim_ok split: option.split citations.split)
  qed (use ok in \<open>auto simp: collect_one_def collected_ok_def\<close>)
qed

lemma collect_all_ok: "collected_ok acc \<Longrightarrow> collected_ok (foldl (\<lambda>acc r. collect_one E r acc) acc rs)"
  by (induction rs arbitrary: acc) (simp_all add: collect_one_ok)

lemma collected_default_ok: "collected_ok collected_default"
  by (simp add: collected_ok_def collected_default_def ordered_pairs_def)

lemma collect_ok: "collected_ok (collect E rs)"
  unfolding collect_def by (rule collect_all_ok [OF collected_default_ok])

subsection \<open>The clusters of a resolution\<close>

lemma person_nodes_ok:
  assumes "collected_ok c"
  shows "bs_wf (person_nodes c)" "set (co_anchors c) \<subseteq> set (person_nodes c)"
    "\<And>p. p \<in> fst ` set (co_same_as c) \<union> fst ` set (co_different_from c) \<Longrightarrow>
       fst p \<in> set (person_nodes c) \<and> snd p \<in> set (person_nodes c)"
proof -
  have anchors: "bs_wf (co_anchors c)" using assms by (simp add: collected_ok_def)
  note aux = bs_of_list_aux [OF anchors]
  show "bs_wf (person_nodes c)" unfolding person_nodes_def using aux by blast
  show "set (co_anchors c) \<subseteq> set (person_nodes c)" unfolding person_nodes_def using aux by blast
  have pairs: "set (concat (map (\<lambda>p. [fst p, snd p]) (bt_keys (co_same_as c) @ bt_keys (co_different_from c))))
      \<subseteq> set (person_nodes c)"
    unfolding person_nodes_def conjunct2 [OF aux] by (simp only: set_append) blast
  fix p assume "p \<in> fst ` set (co_same_as c) \<union> fst ` set (co_different_from c)"
  then have "p \<in> set (bt_keys (co_same_as c) @ bt_keys (co_different_from c))" by (auto simp: bt_keys_def)
  then have "{fst p, snd p} \<subseteq> set (concat (map (\<lambda>p. [fst p, snd p])
      (bt_keys (co_same_as c) @ bt_keys (co_different_from c))))"
    by (auto simp del: set_append map_append)
  then show "fst p \<in> set (person_nodes c) \<and> snd p \<in> set (person_nodes c)" using pairs by blast
qed

text \<open>A resolution is a forest over the nodes: its representatives are the roots.\<close>

lemma resolve_forest:
  assumes "collected_ok c"
  shows "\<exists>p cl. uf_ok (person_nodes c) p \<and>
    cluster (person_nodes c) (identity_edges c P) (identity_cuts c P) = Some cl \<and>
    cl_rep cl = map (\<lambda>n. (n, root p n)) (person_nodes c) \<and>
    (\<forall>x \<in> set (identity_cuts c P). root p (fst x) \<noteq> root p (snd x)) \<and>
    resolve c P = Some \<lparr>re_rep = cl_rep cl, re_canonical = canonical_anchors (co_anchors c) (group_by_key (cl_rep cl)),
      re_by_key = group_by_key (cl_rep cl), re_rehome = rehome_of c P, re_skipped = cl_skipped cl\<rparr>"
proof -
  let ?N = "person_nodes c" and ?E = "identity_edges c P" and ?C = "identity_cuts c P"
  have ekey: "(ed_a e, ed_b e) \<in> fst ` set (co_same_as c)" if "e \<in> set ?E" for e
    using that by (auto simp: identity_edges_def image_iff) (metis fst_conv prod.collapse)
  have ckey: "x \<in> fst ` set (co_different_from c)" if "x \<in> set ?C" for x
    using that by (auto simp: identity_cuts_def)
  have edges: "edges_in ?N ?E"
    using person_nodes_ok(3) [OF assms] ekey unfolding edges_in_def by fastforce
  have cuts: "ends_in ?N ?C"
    using person_nodes_ok(3) [OF assms] ckey unfolding ends_in_def by blast
  have "fst x < snd x" if "x \<in> set ?C" for x
    using ckey [OF that] assms unfolding collected_ok_def ordered_pairs_def by blast
  then have proper: "proper_cuts ?C" unfolding proper_cuts_def by (metis less_irrefl)
  obtain E S where g: "greedy ?C (sort_edges ?E) (Id_on (set ?N), {}) = (E, S)"
    by (cases "greedy ?C (sort_edges ?E) (Id_on (set ?N), {})")
  obtain p where p: "uf_ok ?N p" "E = classes_of ?N p"
      "cluster ?N ?E ?C = Some \<lparr>cl_rep = map (\<lambda>n. (n, root p n)) ?N, cl_skipped = sorted_list_of_set S\<rparr>"
    using cluster_is_greedy [OF person_nodes_ok(1) [OF assms] edges cuts proper g] by blast
  have "greedy_ok (set ?N) ?C (rev (sort_edges ?E)) (E, S)"
    using greedy_keeps [OF greedy_start [OF proper], of "sort_edges ?E" "set ?N"] edges g
    by (simp add: edges_in_def)
  then have "cut_free ?C (classes_of ?N p)" using p(2) by (simp add: greedy_ok_def)
  then have "root p (fst x) \<noteq> root p (snd x)" if "x \<in> set ?C" for x
  proof -
    have "x \<notin> classes_of ?N p" "fst x \<in> set ?N" "snd x \<in> set ?N"
      using that cuts \<open>cut_free ?C (classes_of ?N p)\<close> unfolding cut_free_def ends_in_def by blast+
    then show ?thesis by (cases x) (simp add: classes_of_def)
  qed
  then show ?thesis
    by (intro exI [of _ p] exI [of _ "\<lparr>cl_rep = map (\<lambda>n. (n, root p n)) ?N, cl_skipped = sorted_list_of_set S\<rparr>"] conjI)
      (simp_all add: p(1,3) resolve_def Let_def)
qed

text \<open>The members of a cluster, in order.\<close>

lemma group_by_key_get:
  assumes "bt_wf m" "\<And>k s. bt_get m k = Some s \<Longrightarrow> bs_wf s"
  shows "bt_wf (foldl (\<lambda>m (node, key). bt_entry key [] (bs_insert node) m) m rep) \<and>
    (\<forall>k s. bt_get (foldl (\<lambda>m (node, key). bt_entry key [] (bs_insert node) m) m rep) k = Some s \<longrightarrow>
       bs_wf s \<and> set s = (case bt_get m k of None \<Rightarrow> {} | Some t \<Rightarrow> set t) \<union> {n. (n, k) \<in> set rep}) \<and>
    (\<forall>k. bt_get (foldl (\<lambda>m (node, key). bt_entry key [] (bs_insert node) m) m rep) k = None \<longleftrightarrow>
       bt_get m k = None \<and> k \<notin> snd ` set rep)"
  using assms
proof (induction rep arbitrary: m)
  case Nil
  then show ?case by auto
next
  case (Cons x rep)
  obtain n key where x: "x = (n, key)" by (cases x)
  let ?m = "bt_entry key [] (bs_insert n) m"
  have "bs_wf s" if "bt_get ?m k = Some s" for k s
    using that Cons.prems(2) by (auto split: if_splits option.splits)
  note IH = Cons.IH [OF bt_wf_entry [OF Cons.prems(1)] this]
  show ?case
    unfolding x foldl_Cons prod.case using IH
    by (auto split: if_splits option.splits)
qed


lemma bs_wf_keys: "bs_wf (bt_keys m) \<longleftrightarrow> bt_wf m"
  by (simp add: bs_wf_def bt_wf_def bt_keys_def)

lemma find_sorted:
  "bs_wf xs \<Longrightarrow> find Q xs = (if {x \<in> set xs. Q x} = {} then None else Some (Min {x \<in> set xs. Q x}))"
proof (induction xs)
  case (Cons x xs)
  show ?case
  proof (cases "Q x")
    case True
    have "Min {y \<in> set (x # xs). Q y} = x"
      using True Cons.prems by (intro Min_eqI) (auto simp: less_imp_le)
    then show ?thesis using True by auto
  next
    case False
    then have "{y \<in> set (x # xs). Q y} = {y \<in> set xs. Q y}" by auto
    then show ?thesis using False Cons by simp
  qed
qed simp

lemma fold_insert_get:
  "distinct (map fst xs) \<Longrightarrow>
   bt_get (foldl (\<lambda>m (k, v). case g v of None \<Rightarrow> m | Some a \<Rightarrow> bt_insert k a m) m0 xs) k =
     (case Option.bind (bt_get xs k) g of None \<Rightarrow> bt_get m0 k | Some a \<Rightarrow> Some a)"
proof (induction xs arbitrary: m0)
  case (Cons x xs)
  obtain j v where x: "x = (j, v)" by (cases x)
  have "bt_get xs j = None" using Cons.prems by (simp add: x map_of_eq_None_iff)
  then show ?case using Cons by (auto simp: x split: option.split)
qed simp

text \<open>What \<open>resolve\<close> gives: the person of an id is the least anchor of its cluster.\<close>

definition anchor_class :: "collected \<Rightarrow> uf \<Rightarrow> string \<Rightarrow> string set" where
  "anchor_class c p key = {a \<in> set (co_anchors c). root p a = key}"

definition resolution :: "collected \<Rightarrow> uf \<Rightarrow> resolved \<Rightarrow> bool" where
  "resolution c p r \<longleftrightarrow> uf_ok (person_nodes c) p \<and>
     re_rep r = map (\<lambda>n. (n, root p n)) (person_nodes c) \<and>
     bt_wf (re_by_key r) \<and>
     (\<forall>key members. bt_get (re_by_key r) key = Some members \<longrightarrow>
        bs_wf members \<and> set members = {n \<in> set (person_nodes c). root p n = key}) \<and>
     (\<forall>n \<in> set (person_nodes c). bt_get (re_by_key r) (root p n) \<noteq> None) \<and>
     (\<forall>key. bt_get (re_canonical r) key =
        (if anchor_class c p key = {} then None else Some (Min (anchor_class c p key))))"

lemma resolve_resolution:
  assumes ok: "collected_ok c"
  shows "\<exists>p r. resolve c P = Some r \<and> resolution c p r \<and>
    (\<forall>x \<in> set (identity_cuts c P). root p (fst x) \<noteq> root p (snd x))"
proof -
  let ?N = "person_nodes c"
  obtain p and cl :: clustering where p: "uf_ok ?N p" "cl_rep cl = map (\<lambda>n. (n, root p n)) ?N"
    "\<forall>x \<in> set (identity_cuts c P). root p (fst x) \<noteq> root p (snd x)"
    "resolve c P = Some \<lparr>re_rep = cl_rep cl, re_canonical = canonical_anchors (co_anchors c) (group_by_key (cl_rep cl)),
      re_by_key = group_by_key (cl_rep cl), re_rehome = rehome_of c P, re_skipped = cl_skipped cl\<rparr>"
    using resolve_forest [OF ok, of P] by blast
  let ?B = "group_by_key (cl_rep cl)"
  have grp: "bt_wf ?B"
    "\<And>k s. bt_get ?B k = Some s \<Longrightarrow> bs_wf s \<and> set s = {n. (n, k) \<in> set (cl_rep cl)}"
    "\<And>k. bt_get ?B k = None \<longleftrightarrow> k \<notin> snd ` set (cl_rep cl)"
    using group_by_key_get [of "[]" "cl_rep cl"] by (auto simp: group_by_key_def)
  have members: "bs_wf s \<and> set s = {n \<in> set ?N. root p n = k}" if "bt_get ?B k = Some s" for k s
    using grp(2) [OF that] by (auto simp: p(2))
  have some: "bt_get ?B (root p n) \<noteq> None" if "n \<in> set ?N" for n
    using that grp(3) [of "root p n"] by (auto simp: p(2) image_image)
  have look: "bt_get (canonical_anchors (co_anchors c) ?B) k =
      Option.bind (bt_get ?B k) (find (\<lambda>x. x \<in> set (co_anchors c)))" for k
    using fold_insert_get [OF bt_wf_distinct [OF grp(1)], of "find (\<lambda>x. x \<in> set (co_anchors c))" "[]" k]
    by (simp add: canonical_anchors_def split: option.splits)
  have canon: "bt_get (canonical_anchors (co_anchors c) ?B) k =
      (if anchor_class c p k = {} then None else Some (Min (anchor_class c p k)))" for k
  proof (cases "bt_get ?B k")
    case None
    then have "anchor_class c p k = {}"
      using some person_nodes_ok(2) [OF ok] by (fastforce simp: anchor_class_def)
    then show ?thesis using None by (simp add: look)
  next
    case (Some s)
    have "{x \<in> set s. x \<in> set (co_anchors c)} = anchor_class c p k"
      using members [OF Some] person_nodes_ok(2) [OF ok] by (auto simp: anchor_class_def)
    then have "find (\<lambda>x. x \<in> set (co_anchors c)) s =
        (if anchor_class c p k = {} then None else Some (Min (anchor_class c p k)))"
      using members [OF Some] find_sorted by metis
    then show ?thesis using Some by (simp add: look)
  qed
  define r where "r = \<lparr>re_rep = cl_rep cl, re_canonical = canonical_anchors (co_anchors c) ?B,
      re_by_key = ?B, re_rehome = rehome_of c P, re_skipped = cl_skipped cl\<rparr>"
  have "resolution c p r"
    unfolding resolution_def using p(1,2) grp(1) members some canon
    by (intro conjI allI ballI impI) (simp_all add: r_def)
  then show ?thesis using p(3,4) unfolding r_def by blast
qed

lemma canon_of_resolution:
  assumes "resolution c p r"
  shows "canon_of r i = (if i \<in> set (person_nodes c) \<and> anchor_class c p (root p i) \<noteq> {}
     then Some (Min (anchor_class c p (root p i))) else None)"
  using assms by (auto simp: canon_of_def resolution_def map_of_map_restrict restrict_map_def)


subsection \<open>The projection returns\<close>

lemma ref_ids_aux:
  "bt_wf m \<Longrightarrow>
   bt_wf (foldl (\<lambda>m n. case name_ref E (nv_parts n) of None \<Rightarrow> m | Some r \<Rightarrow> bt_insert r (nv_claim n) m) m ns) \<and>
   fst ` set (foldl (\<lambda>m n. case name_ref E (nv_parts n) of None \<Rightarrow> m | Some r \<Rightarrow> bt_insert r (nv_claim n) m) m ns) =
     fst ` set m \<union> {r. \<exists>n \<in> set ns. name_ref E (nv_parts n) = Some r}"
proof (induction ns arbitrary: m)
  case (Cons n ns)
  show ?case
  proof (cases "name_ref E (nv_parts n)")
    case None
    then show ?thesis using Cons by auto
  next
    case (Some r)
    then show ?thesis using Cons.IH [of "bt_insert r (nv_claim n) m"] Cons.prems by auto
  qed
qed simp

lemma ref_ids_ok:
  "bt_wf (ref_ids E ns)" "set (bt_keys (ref_ids E ns)) = {r. \<exists>n \<in> set ns. name_ref E (nv_parts n) = Some r}"
  using ref_ids_aux [of "[]" E ns] by (auto simp: ref_ids_def bt_keys_def)

lemma union_all_ok:
  "uf_ok nodes p \<Longrightarrow> own \<in> set nodes \<Longrightarrow> \<exists>q. union_all nodes own es p = Some q \<and> uf_ok nodes q"
proof (induction es arbitrary: p)
  case (Cons e es)
  show ?case
  proof (cases "e \<in> set nodes")
    case True
    then obtain q where "uf_union p own e = Some q" "uf_ok nodes q"
      using uf_union_ok [OF Cons.prems] by blast
    then show ?thesis using Cons.IH [OF _ Cons.prems(2)] True by simp
  qed (use Cons in simp)
qed simp

lemma join_names_ok:
  "uf_ok nodes p \<Longrightarrow> \<forall>n \<in> set ns. \<forall>r. name_ref E (nv_parts n) = Some r \<longrightarrow> r \<in> set nodes \<Longrightarrow>
   \<exists>q. join_names E nodes ns p = Some q \<and> uf_ok nodes q"
proof (induction ns arbitrary: p)
  case (Cons n ns)
  have rest: "\<forall>n \<in> set ns. \<forall>r. name_ref E (nv_parts n) = Some r \<longrightarrow> r \<in> set nodes"
    using Cons.prems(2) by simp
  show ?case
  proof (cases "name_ref E (nv_parts n)")
    case None
    then show ?thesis using Cons.IH [OF Cons.prems(1) rest] by simp
  next
    case (Some own)
    then have "own \<in> set nodes" using Cons.prems(2) by simp
    then obtain q where "union_all nodes own (equivalents (nv_parts n)) p = Some q" "uf_ok nodes q"
      using union_all_ok [OF Cons.prems(1)] by blast
    then show ?thesis using Cons.IH [OF _ rest] Some by simp
  qed
qed simp

lemma min_ids_ok:
  "uf_ok nodes p \<Longrightarrow> fst ` set rs \<subseteq> set nodes \<Longrightarrow>
   \<exists>m' q. min_ids rs p m = Some (m', q) \<and> same_roots nodes p q \<and>
     (\<forall>k. bt_get m k \<noteq> None \<or> k \<in> root p ` fst ` set rs \<longrightarrow> bt_get m' k \<noteq> None)"
proof (induction rs arbitrary: p m)
  case (Cons x rs)
  obtain r cid where x: "x = (r, cid)" by (cases x)
  have r: "r \<in> set nodes" and rs: "fst ` set rs \<subseteq> set nodes" using Cons.prems(2) x by auto
  obtain p1 where p1: "uf_find p r = Some (root p r, p1)" "same_roots nodes p p1"
    using uf_find_ok [OF Cons.prems(1) r] by blast
  have ok1: "uf_ok nodes p1" using p1(2) by (simp add: same_roots_def)
  define m1 where "m1 = (let cur = (case bt_get m (root p r) of None \<Rightarrow> cid | Some x \<Rightarrow> x)
    in bt_insert (root p r) (if cid < cur then cid else cur) m)"
  obtain m' q where q: "min_ids rs p1 m1 = Some (m', q)" "same_roots nodes p1 q"
    "\<And>k. bt_get m1 k \<noteq> None \<or> k \<in> root p1 ` fst ` set rs \<Longrightarrow> bt_get m' k \<noteq> None"
    using Cons.IH [OF ok1 rs, of m1] by blast
  have roots: "root p1 ` fst ` set rs = root p ` fst ` set rs"
    using p1(2) rs by (intro image_cong) (auto simp: same_roots_def)
  have "bt_get m' k \<noteq> None" if "bt_get m k \<noteq> None \<or> k \<in> root p ` fst ` set (x # rs)" for k
    using that by (intro q(3)) (auto simp: m1_def Let_def x roots)
  then show ?case
    using p1(1) q(1) same_roots_trans [OF p1(2) q(2)] by (simp add: x m1_def Let_def)
qed (simp add: same_roots_refl)

lemma class_ids_ok:
  "uf_ok nodes p \<Longrightarrow> fst ` set rs \<subseteq> set nodes \<Longrightarrow>
   (\<And>k. k \<in> set nodes \<Longrightarrow> k \<in> fst ` set rs \<Longrightarrow> bt_get m (root p k) \<noteq> None) \<Longrightarrow>
   \<exists>out'. class_ids rs p m out = Some out'"
proof (induction rs arbitrary: p out)
  case (Cons x rs)
  obtain r cid where x: "x = (r, cid)" by (cases x)
  have r: "r \<in> set nodes" and rs: "fst ` set rs \<subseteq> set nodes" using Cons.prems(2) x by auto
  obtain p1 where p1: "uf_find p r = Some (root p r, p1)" "same_roots nodes p p1"
    using uf_find_ok [OF Cons.prems(1) r] by blast
  then have ok1: "uf_ok nodes p1" and r1: "\<And>z. z \<in> set nodes \<Longrightarrow> root p1 z = root p z"
    by (auto simp: same_roots_def)
  obtain least where least: "bt_get m (root p r) = Some least"
    using Cons.prems(3) [OF r] x by auto
  have "bt_get m (root p1 k) \<noteq> None" if "k \<in> set nodes" "k \<in> fst ` set rs" for k
    using Cons.prems(3) [OF that(1)] that(2) r1 [OF that(1)] by simp
  from Cons.IH [OF ok1 rs this, of "bt_insert cid least out"]
  show ?case using p1(1) least by (simp add: x)
qed simp

lemma equiv_classes_returns: "\<exists>m. equiv_classes E names = Some m"
proof -
  let ?R = "ref_ids E names" and ?N = "bt_keys (ref_ids E names)"
  have wf: "bs_wf ?N" using ref_ids_ok(1) by (simp add: bs_wf_keys)
  have refs: "\<forall>n \<in> set names. \<forall>r. name_ref E (nv_parts n) = Some r \<longrightarrow> r \<in> set ?N"
    using ref_ids_ok(2) by blast
  obtain p where p: "join_names E ?N names (uf_new ?N) = Some p" "uf_ok ?N p"
    using join_names_ok [OF uf_new_ok [OF wf] refs] by blast
  have sub: "fst ` set ?R \<subseteq> set ?N" by (simp add: bt_keys_def)
  from min_ids_ok [OF p(2) sub, of "[]"] obtain m q where m: "min_ids ?R p [] = Some (m, q)"
    "same_roots ?N p q"
    "\<forall>k. bt_get ([] :: (string, string) btmap) k \<noteq> None \<or> k \<in> root p ` fst ` set ?R \<longrightarrow> bt_get m k \<noteq> None"
    by (elim exE conjE)
  have okq: "uf_ok ?N q" and rq: "\<And>z. z \<in> set ?N \<Longrightarrow> root q z = root p z"
    using m(2) by (auto simp: same_roots_def)
  have "bt_get m (root q k) \<noteq> None" if "k \<in> set ?N" "k \<in> fst ` set ?R" for k
    using m(3) rq [OF that(1)] that(2) by auto
  from class_ids_ok [OF okq sub this] obtain out where "class_ids ?R q m [] = Some out" ..
  then show ?thesis using p(1) m(1) by (simp add: equiv_classes_def Let_def)
qed

lemma label_names_returns: "\<exists>vs. label_names E views = Some vs"
  using equiv_classes_returns [of E "sort_key nv_claim views"] by (auto simp: label_names_def Let_def)

lemma label_all_returns: "\<exists>out. label_all E m = Some out"
proof (induction m)
  case (Cons x m)
  then show ?case using label_names_returns [of E "snd x"] by (cases x) auto
qed simp

lemma build_person_maps_returns: "\<exists>m. build_person_maps E c r P = Some m"
proof -
  obtain names where "names_map E c r = Some names"
    unfolding names_map_def using label_all_returns by blast
  then show ?thesis by (auto simp: build_person_maps_def split: prod.split)
qed

text \<open>C37: the projection returns on every set of records, whatever their content: no union-find
  loop runs for ever and no index is missing.\<close>

theorem project_returns: "\<exists>pr. project E records P = Some pr"
proof -
  let ?c = "collect E (dedup_records E records)"
  obtain r where "resolve ?c P = Some r" using resolve_resolution [OF collect_ok] by blast
  moreover obtain m where "build_person_maps E ?c r P = Some m" using build_person_maps_returns by blast
  ultimately show ?thesis by (simp add: project_def project_collected_def Let_def)
qed


subsection \<open>The people partition the anchors\<close>

definition members_of :: "person \<Rightarrow> string set" where
  "members_of x = insert (pe_id x) (set (pe_also x))"

definition person_anchors :: "proj_env \<Rightarrow> json Record list \<Rightarrow> string set" where
  "person_anchors E records =
     {an_id a |a. Anchor a \<in> set (dedup_records E records) \<and> an_type a = TYPE_PERSON}"

lemma if_eq: "x = z \<Longrightarrow> y = z \<Longrightarrow> (if b then x else y) = z"
  by simp

lemma parse_claim_anchors: "co_anchors (parse_claim E c acc) = co_anchors acc"
  unfolding parse_claim_def Let_def if_distrib [of co_anchors]
  by (intro if_eq) (simp_all add: parse_defs split: option.split)

lemma collect_one_anchors:
  "set (co_anchors (collect_one E r acc)) = set (co_anchors acc) \<union>
     (case r of Anchor a \<Rightarrow> (if an_type a = TYPE_PERSON then {an_id a} else {}) | _ \<Rightarrow> {})"
  by (cases r) (auto simp: collect_one_def parse_claim_anchors split: option.split citations.split)

lemma collect_anchors:
  "set (co_anchors (collect E rs)) = {an_id a |a. Anchor a \<in> set rs \<and> an_type a = TYPE_PERSON}"
proof -
  have "set (co_anchors (foldl (\<lambda>acc r. collect_one E r acc) acc rs)) =
      set (co_anchors acc) \<union> {an_id a |a. Anchor a \<in> set rs \<and> an_type a = TYPE_PERSON}" for acc
    by (induction rs arbitrary: acc) (auto simp: collect_one_anchors split: Record.splits if_splits)
  then show ?thesis by (simp add: collect_def collected_default_def)
qed

definition cluster_person :: "collected \<Rightarrow> resolved \<Rightarrow> string \<times> string btset \<Rightarrow> (string \<times> string list) option" where
  "cluster_person c r x =
     map_option (\<lambda>canon. (canon, filter (\<lambda>x. x \<in> set (co_anchors c) \<and> x \<noteq> canon) (snd x)))
       (bt_get (re_canonical r) (fst x))"

lemma assemble_clusters_ids:
  "map (\<lambda>x. (pe_id x, pe_also x)) (assemble_clusters c r ks m) = List.map_filter (cluster_person c r) ks"
proof (induction ks arbitrary: m)
  case (Cons k ks)
  obtain key members where k: "k = (key, members)" by (cases k)
  show ?case
    using Cons.IH
    by (cases "bt_get (re_canonical r) key")
      (simp_all add: k cluster_person_def assemble_person_def List.map_filter_simps)
qed (simp add: List.map_filter_simps)

text \<open>A person is a cluster that has an anchor.\<close>

lemma person_of_cluster:
  assumes "resolution c p r" "(key, members) \<in> set (re_by_key r)"
    and "cluster_person c r (key, members) = Some (i, others)" "bs_wf (co_anchors c)"
    and sub: "set (co_anchors c) \<subseteq> set (person_nodes c)"
  shows "i = Min (anchor_class c p key)" "insert i (set others) = anchor_class c p key"
    "sorted_wrt (<) (i # others)"
proof -
  have get: "bt_get (re_by_key r) key = Some members"
    using assms(1,2) by (simp add: resolution_def bt_get_mem)
  have mem: "bs_wf members" "set members = {n \<in> set (person_nodes c). root p n = key}"
    using assms(1) get by (auto simp: resolution_def)
  have ne: "anchor_class c p key \<noteq> {}" and i: "i = Min (anchor_class c p key)"
    and others: "others = filter (\<lambda>x. x \<in> set (co_anchors c) \<and> x \<noteq> i) members"
    using assms(1,3) by (auto simp: cluster_person_def resolution_def split: if_splits)
  have fin: "finite (anchor_class c p key)" by (simp add: anchor_class_def)
  have inA: "i \<in> anchor_class c p key" using Min_in [OF fin ne] i by simp
  show "i = Min (anchor_class c p key)" by (rule i)
  show set: "insert i (set others) = anchor_class c p key"
    using inA mem(2) sub by (auto simp: others anchor_class_def)
  have "i < x" if "x \<in> set others" for x
  proof -
    have "x \<in> anchor_class c p key" using that set by blast
    then have "i \<le> x" using fin i by simp
    then show ?thesis using that by (auto simp: others)
  qed
  moreover have "sorted_wrt (<) others" using mem(1) by (simp add: others sorted_wrt_filter bs_wf_def)
  ultimately show "sorted_wrt (<) (i # others)" by simp
qed


lemma map_filter_set: "y \<in> set (List.map_filter g xs) \<longleftrightarrow> (\<exists>x \<in> set xs. g x = Some y)"
  by (force simp: List.map_filter_def)

text \<open>Everything the properties below need of the people that \<open>assemble_people\<close> lists.\<close>

lemma people_of_resolution:
  fixes c :: collected and p :: uf and r :: resolved and m :: person_maps
  assumes ok: "collected_ok c" and res: "resolution c p r"
  defines "people \<equiv> assemble_people c r m"
  shows "sorted_wrt (<) (map pe_id people)"
    and "\<And>x. x \<in> set people \<Longrightarrow> sorted_wrt (<) (pe_id x # pe_also x) \<and>
      members_of x = anchor_class c p (root p (pe_id x)) \<and> pe_id x \<in> set (co_anchors c)"
    and "\<And>a. a \<in> set (co_anchors c) \<Longrightarrow>
      \<exists>x \<in> set people. pe_id x = Min (anchor_class c p (root p a)) \<and> members_of x = anchor_class c p (root p a)"
proof -
  let ?K = "re_by_key r" and ?raw = "assemble_clusters c r (re_by_key r) m"
  have sub: "set (co_anchors c) \<subseteq> set (person_nodes c)" by (rule person_nodes_ok(2) [OF ok])
  have anchors: "bs_wf (co_anchors c)" using ok by (simp add: collected_ok_def)
  have raw: "map (\<lambda>x. (pe_id x, pe_also x)) ?raw = List.map_filter (cluster_person c r) ?K"
    by (rule assemble_clusters_ids)
  have wf: "bt_wf ?K" using res by (simp add: resolution_def)
  have set_people: "set people = set ?raw" by (simp add: people_def assemble_people_def)
  have person: "\<exists>key members. (key, members) \<in> set ?K \<and> cluster_person c r (key, members) = Some (pe_id x, pe_also x)"
    if "x \<in> set people" for x
  proof -
    have "(pe_id x, pe_also x) \<in> set (List.map_filter (cluster_person c r) ?K)"
      unfolding raw [symmetric] using that set_people by auto
    then show ?thesis by (auto simp: map_filter_set)
  qed
  show facts: "sorted_wrt (<) (pe_id x # pe_also x) \<and>
      members_of x = anchor_class c p (root p (pe_id x)) \<and> pe_id x \<in> set (co_anchors c)"
    if x: "x \<in> set people" for x
  proof -
    obtain key members where k: "(key, members) \<in> set ?K"
        "cluster_person c r (key, members) = Some (pe_id x, pe_also x)"
      using person [OF x] by blast
    note cl = person_of_cluster [OF res k anchors sub]
    have "pe_id x \<in> anchor_class c p key" using cl(2) by blast
    then have "root p (pe_id x) = key" "pe_id x \<in> set (co_anchors c)" by (auto simp: anchor_class_def)
    then show ?thesis using cl(2,3) by (simp add: members_of_def)
  qed
  show "\<exists>x \<in> set people. pe_id x = Min (anchor_class c p (root p a)) \<and> members_of x = anchor_class c p (root p a)"
    if a: "a \<in> set (co_anchors c)" for a
  proof -
    let ?key = "root p a"
    have node: "a \<in> set (person_nodes c)" using a sub by blast
    obtain members where mem: "bt_get ?K ?key = Some members"
      using res node unfolding resolution_def by blast
    have "anchor_class c p ?key \<noteq> {}" using a by (auto simp: anchor_class_def)
    then obtain others where cp: "cluster_person c r (?key, members) = Some (Min (anchor_class c p ?key), others)"
      using res by (simp add: cluster_person_def resolution_def)
    have "(?key, members) \<in> set ?K" using mem wf by (simp add: bt_get_mem)
    then have "(Min (anchor_class c p ?key), others) \<in> set (map (\<lambda>x. (pe_id x, pe_also x)) ?raw)"
      unfolding raw using cp by (auto simp: map_filter_set)
    then obtain x where x: "x \<in> set people" "pe_id x = Min (anchor_class c p ?key)" "pe_also x = others"
      using set_people by auto
    have "members_of x = anchor_class c p ?key"
      using person_of_cluster(2) [OF res \<open>(?key, members) \<in> set ?K\<close> cp anchors sub] x
      by (simp add: members_of_def)
    then show ?thesis using x by blast
  qed
  have "distinct (map fst (List.map_filter (cluster_person c r) ks))"
    if "bt_wf ks" "set ks \<subseteq> set ?K" for ks
    using that
  proof (induction ks)
    case (Cons k ks)
    have IH: "distinct (map fst (List.map_filter (cluster_person c r) ks))" using Cons by simp
    show ?case
    proof (cases "cluster_person c r k")
      case None
      then show ?thesis using IH by (simp add: List.map_filter_simps)
    next
      case (Some y)
      obtain key members where k: "k = (key, members)" by (cases k)
      obtain i others where y: "y = (i, others)" by (cases y)
      have "i \<in> anchor_class c p key"
        using person_of_cluster(2) [OF res _ _ anchors sub, of key members i others] Some Cons.prems(2) k y
        by auto
      moreover have "j \<noteq> i" if jos: "(j, os) \<in> set (List.map_filter (cluster_person c r) ks)" for j os
      proof -
        obtain key' mem' where k': "(key', mem') \<in> set ks" "cluster_person c r (key', mem') = Some (j, os)"
          using jos by (auto simp: map_filter_set)
        then have "j \<in> anchor_class c p key'"
          using person_of_cluster(2) [OF res _ _ anchors sub, of key' mem' j os] Cons.prems(2) by auto
        moreover have "key \<noteq> key'" using Cons.prems(1) k k'(1) by force
        ultimately show ?thesis using \<open>i \<in> anchor_class c p key\<close> by (auto simp: anchor_class_def)
      qed
      ultimately show ?thesis using IH Some y by (force simp: List.map_filter_simps)
    qed
  qed (simp add: List.map_filter_simps)
  then have "distinct (map fst (map (\<lambda>x. (pe_id x, pe_also x)) ?raw))" unfolding raw using wf by blast
  then have "distinct (map pe_id ?raw)" by (simp add: comp_def)
  then have "distinct (map pe_id people)"
    unfolding people_def assemble_people_def by (metis distinct_map distinct_sort set_sort)
  then show "sorted_wrt (<) (map pe_id people)"
    unfolding people_def assemble_people_def by (simp add: strict_sorted_iff)
qed


lemma project_resolution:
  assumes "project E records P = Some pr"
  defines "c \<equiv> collect E (dedup_records E records)"
  shows "\<exists>p r m. resolution c p r \<and>
    (\<forall>x \<in> set (identity_cuts c P). root p (fst x) \<noteq> root p (snd x)) \<and>
    pr_people pr = assemble_people c r m \<and> pr_parent_child pr = parent_child_edges c r P \<and>
    pr_partnerships pr = partnership_edges c r P \<and> pr_events pr = assemble_events c r"
proof -
  obtain p r where r: "resolve c P = Some r" "resolution c p r"
      "\<forall>x \<in> set (identity_cuts c P). root p (fst x) \<noteq> root p (snd x)"
    using resolve_resolution [OF collect_ok, of E "dedup_records E records" P] unfolding c_def by blast
  obtain m where m: "build_person_maps E c r P = Some m" using build_person_maps_returns by blast
  have "pr = \<lparr>pr_people = assemble_people c r m, pr_parent_child = parent_child_edges c r P,
      pr_partnerships = partnership_edges c r P,
      pr_unions = assemble_unions (parent_child_edges c r P) (partnership_edges c r P) (assemble_events c r),
      pr_events = assemble_events c r, pr_conflicts = re_skipped r, pr_unclassified = pm_unclassified m\<rparr>"
    using assms(1) r(1) m by (simp add: project_def project_collected_def Let_def flip: c_def)
  then show ?thesis using r(2,3) by auto
qed

lemma Min_sorted: "sorted_wrt (<) (i # xs) \<Longrightarrow> Min (insert i (set xs)) = (i :: string)"
  by (intro Min_eqI) (auto simp: less_imp_le)

lemma cluster_persons_agree:
  assumes "resolution c p r" "collected_ok c" "x \<in> set (assemble_people c r m)" "y \<in> set (assemble_people c r m)"
    and "members_of x \<inter> members_of y \<noteq> {}"
  shows "x = y"
proof -
  note px = people_of_resolution(2) [OF assms(2,1,3)] and py = people_of_resolution(2) [OF assms(2,1,4)]
  have "root p (pe_id x) = root p (pe_id y)"
    using assms(5) px py by (auto simp: anchor_class_def)
  then have same: "members_of x = members_of y" using px py by simp
  have "pe_id x = Min (members_of x)" "pe_id y = Min (members_of y)"
    unfolding members_of_def using px py Min_sorted by metis+
  then have "pe_id x = pe_id y" using same by simp
  then show ?thesis
    using people_of_resolution(1) [OF assms(2,1), of m] assms(3,4)
    by (auto simp: strict_sorted_iff distinct_map dest: inj_onD)
qed

text \<open>C38: the people of a projection partition the person anchors of the records: they are listed by
  strictly ascending id, a person's id is its least anchor and the others follow in order,
  every person anchor belongs to some person and to no second one.\<close>

theorem people_partition:
  assumes "project E records P = Some pr"
  shows "sorted_wrt (<) (map pe_id (pr_people pr)) \<and>
    (\<forall>x \<in> set (pr_people pr). sorted_wrt (<) (pe_id x # pe_also x)) \<and>
    (\<Union>x \<in> set (pr_people pr). members_of x) = person_anchors E records \<and>
    (\<forall>x \<in> set (pr_people pr). \<forall>y \<in> set (pr_people pr). x \<noteq> y \<longrightarrow> members_of x \<inter> members_of y = {})"
proof -
  let ?c = "collect E (dedup_records E records)"
  obtain p r m where res: "resolution ?c p r" and people: "pr_people pr = assemble_people ?c r m"
    using project_resolution [OF assms] by blast
  note pp = people_of_resolution [OF collect_ok res, where m = m, folded people]
  have anchors: "person_anchors E records = set (co_anchors ?c)"
    by (simp add: person_anchors_def collect_anchors)
  have "(\<Union>x \<in> set (pr_people pr). members_of x) = set (co_anchors ?c)"
  proof (intro equalityI subsetI)
    fix a assume "a \<in> (\<Union>x \<in> set (pr_people pr). members_of x)"
    then show "a \<in> set (co_anchors ?c)" using pp(2) by (auto simp: anchor_class_def)
  next
    fix a assume a: "a \<in> set (co_anchors ?c)"
    then show "a \<in> (\<Union>x \<in> set (pr_people pr). members_of x)"
      using pp(3) [OF a] by (auto simp: anchor_class_def)
  qed
  moreover have "\<forall>x \<in> set (pr_people pr). \<forall>y \<in> set (pr_people pr). x \<noteq> y \<longrightarrow> members_of x \<inter> members_of y = {}"
    using cluster_persons_agree [OF res collect_ok, where m = m, folded people] by fast
  ultimately show ?thesis using pp(1,2) unfolding anchors by (intro conjI ballI) simp_all
qed

lemma canon_is_person:
  assumes res: "resolution c p r" and ok: "collected_ok c" and canon: "canon_of r i = Some a"
  shows "\<exists>x \<in> set (assemble_people c r m). pe_id x = a"
proof -
  have "anchor_class c p (root p i) \<noteq> {}" and a: "a = Min (anchor_class c p (root p i))"
    using canon canon_of_resolution [OF res] by (auto split: if_splits)
  then obtain b where b: "b \<in> set (co_anchors c)" "root p b = root p i" by (auto simp: anchor_class_def)
  then show ?thesis using people_of_resolution(3) [OF ok res b(1), of m] a by auto
qed

lemma parent_child_edge_Some:
  "parent_child_edge c r P x = Some (pp, cc, kind) \<Longrightarrow>
   pp \<noteq> cc \<and> (\<exists>i. canon_of r i = Some pp) \<and> (\<exists>i. canon_of r i = Some cc)"
  by (auto simp: parent_child_edge_def split: prod.splits option.splits if_splits)

lemma partnership_edge_Some:
  "partnership_edge c r P x = Some ((a, b), role) \<Longrightarrow>
   a < b \<and> (\<exists>i. canon_of r i = Some a) \<and> (\<exists>i. canon_of r i = Some b)"
  by (auto simp: partnership_edge_def sorted_pair_def split: prod.splits option.splits if_splits)

text \<open>What a projection relates are people: the ends of a parent-child edge and of a
  partnership are two different people, and so are listed, and every participant of an event
  is one; and a person never has both anchors of a difference whose score is upheld.\<close>

theorem relations_sound:
  assumes "project E records P = Some pr"
  defines "ids \<equiv> pe_id ` set (pr_people pr)"
  shows "(\<forall>(parent, child, kind) \<in> set (pr_parent_child pr). parent \<noteq> child \<and> parent \<in> ids \<and> child \<in> ids) \<and>
    (\<forall>((a, b), role) \<in> set (pr_partnerships pr). a < b \<and> a \<in> ids \<and> b \<in> ids) \<and>
    (\<forall>e \<in> set (pr_events pr). \<forall>(q, role) \<in> set (ev_participants e). q \<in> ids) \<and>
    (\<forall>(a, b) \<in> set (identity_cuts (collect E (dedup_records E records)) P).
       \<forall>x \<in> set (pr_people pr). \<not> {a, b} \<subseteq> members_of x)"
proof -
  let ?c = "collect E (dedup_records E records)"
  obtain p r m where res: "resolution ?c p r" and people: "pr_people pr = assemble_people ?c r m"
    and rel: "pr_parent_child pr = parent_child_edges ?c r P" "pr_partnerships pr = partnership_edges ?c r P"
      "pr_events pr = assemble_events ?c r"
    and cuts: "\<forall>x \<in> set (identity_cuts ?c P). root p (fst x) \<noteq> root p (snd x)"
    using project_resolution [OF assms(1)] by blast
  have person: "canon_of r i = Some a \<Longrightarrow> a \<in> ids" for i a
    using canon_is_person [OF res collect_ok] unfolding ids_def people by blast
  have pc: "parent \<noteq> child \<and> parent \<in> ids \<and> child \<in> ids"
    if "(parent, child, kind) \<in> set (pr_parent_child pr)" for parent child kind
    using that person
    by (auto simp: rel parent_child_edges_def map_filter_set dest!: parent_child_edge_Some)
  have pn: "a < b \<and> a \<in> ids \<and> b \<in> ids" if "((a, b), role) \<in> set (pr_partnerships pr)" for a b role
    using that person
    by (auto simp: rel partnership_edges_def map_filter_set dest!: partnership_edge_Some)
  have ev: "q \<in> ids" if "e \<in> set (pr_events pr)" "(q, role) \<in> set (ev_participants e)" for e q role
    using that person
    by (auto simp: rel assemble_events_def assemble_event_def Let_def map_filter_set)
  have cut: "\<not> {a, b} \<subseteq> members_of x"
    if "(a, b) \<in> set (identity_cuts ?c P)" "x \<in> set (pr_people pr)" for a b x
  proof -
    have "root p a \<noteq> root p b" using cuts that(1) by force
    then show ?thesis
      using people_of_resolution(2) [OF collect_ok res, of x m] that(2) people by (auto simp: anchor_class_def)
  qed
  show ?thesis
  proof (intro conjI)
    show "\<forall>(parent, child, kind) \<in> set (pr_parent_child pr). parent \<noteq> child \<and> parent \<in> ids \<and> child \<in> ids"
      using pc by (auto split: prod.split)
    show "\<forall>((a, b), role) \<in> set (pr_partnerships pr). a < b \<and> a \<in> ids \<and> b \<in> ids"
      using pn by (auto split: prod.split)
    show "\<forall>e \<in> set (pr_events pr). \<forall>(q, role) \<in> set (ev_participants e). q \<in> ids"
      using ev by (auto split: prod.split)
    show "\<forall>(a, b) \<in> set (identity_cuts ?c P). \<forall>x \<in> set (pr_people pr). \<not> {a, b} \<subseteq> members_of x"
      using cut by (auto split: prod.split)
  qed
qed

end
