(* ===== verification/Proj_Demo.thy ===== *)
theory Proj_Demo
  imports Proj_People
begin

text \<open>
  Concrete projections: witnesses of the properties of \<open>Proj_People\<close>, and two places where the
  read model is not what its comments say.  In the toy environment a hash is the length of
  its input, which is enough to tell the claims apart.
\<close>

definition toy_env :: proj_env where
  "toy_env = \<lparr>pe_data = \<lparr>js_str = (\<lambda>v k. None), js_empty = JObj [],
      de_claim = (\<lambda>v. Inl []), de_anchor = (\<lambda>v. Inl []), de_op = (\<lambda>v. Inl []),
      canon_claim = (\<lambda>c. Inr []), canon_op = (\<lambda>p. Inr []), de_batch = (\<lambda>b. Inl []),
      en_batch = (\<lambda>is. Inr []),
      env_hash = \<lparr>sha256 = (\<lambda>b. [of_nat (length b)]), hexlower = (\<lambda>b. [])\<rparr>\<rparr>,
    pe_text = (\<lambda>v. [])\<rparr>"

definition anchor_rec :: "string \<Rightarrow> json Record" where
  "anchor_rec i = Anchor \<lparr>an_id = i, an_type = TYPE_PERSON, an_created_at = hlc_default, an_created_by = ''x''\<rparr>"

definition claim_of :: "string \<Rightarrow> string \<Rightarrow> string \<Rightarrow> json \<Rightarrow> string \<Rightarrow> json claim" where
  "claim_of i target predicate v author =
     (claim_new target predicate v author hlc_default)\<lparr>cl_id := i\<rparr>"

definition parent_plain :: "json claim" where
  "parent_plain = claim_of ''c1'' ''a'' P_PARENT (JObj [(''parentPersonId'', JStr ''b'')]) ''x''"

definition parent_kind :: "json claim" where
  "parent_kind = claim_of ''c2'' ''a'' P_PARENT (JObj [(''kind'', JStr ''biological''), (''parentPersonId'', JStr ''b'')]) ''x''"

definition objection :: "json claim" where
  "objection = claim_of ''c3'' (case fingerprint_str toy_env parent_plain of None \<Rightarrow> [] | Some f \<Rightarrow> f) P_ATTEST
     (JObj [(''verdict'', JStr ''reject'')]) ''y''"

definition parents_first :: "json Record list" where
  "parents_first = [anchor_rec ''a'', anchor_rec ''b'', Claim parent_plain, Claim parent_kind, Claim objection]"

definition kind_first :: "json Record list" where
  "kind_first = [anchor_rec ''a'', anchor_rec ''b'', Claim parent_kind, Claim parent_plain, Claim objection]"

text \<open>The projection depends on the order of its records.  A parent claim that leaves the kind
  to its default and one that spells it out are one relation but two facts with two
  fingerprints, and the relation keeps the fingerprint it saw first: an objection to the
  first fact removes the edge or not, as the records happen to be listed.\<close>

theorem project_order_dependent:
  "mset parents_first = mset kind_first \<and> distinct (map (record_id (pe_data toy_env)) parents_first) \<and>
   map_option pr_parent_child (project toy_env parents_first policy_default) = Some [] \<and>
   map_option pr_parent_child (project toy_env kind_first policy_default) = Some [(''b'', ''a'', ''biological'')]"
proof (intro conjI)
  show "mset parents_first = mset kind_first" by (simp add: parents_first_def kind_first_def)
  show "distinct (map (record_id (pe_data toy_env)) parents_first)" by code_simp
  show "map_option pr_parent_child (project toy_env parents_first policy_default) = Some []" by code_simp
  show "map_option pr_parent_child (project toy_env kind_first policy_default) = Some [(''b'', ''a'', ''biological'')]"
    by code_simp
qed

text \<open>A merged pair, a chain that a difference cuts, and a partnership.\<close>

definition pair_value :: "string \<Rightarrow> string \<Rightarrow> json" where
  "pair_value a b = JObj [(''pair'', JArr [JStr a, JStr b])]"

definition merged :: "json Record list" where
  "merged = [anchor_rec ''a'', anchor_rec ''b'', anchor_rec ''c'',
     Claim (claim_of ''c1'' ''t'' P_SAME_AS (pair_value ''b'' ''a'') ''x''),
     Claim (claim_of ''c2'' ''t'' P_SAME_AS (pair_value ''b'' ''c'') ''x''),
     Claim (claim_of ''c3'' ''t'' P_DIFFERENT_FROM (pair_value ''a'' ''c'') ''y''),
     Claim (claim_of ''c4'' ''t'' P_PARTNERSHIP (pair_value ''c'' ''b'') ''y'')]"

lemma merged_projection:
  "map_option (\<lambda>pr. (map (\<lambda>x. (pe_id x, pe_also x)) (pr_people pr), pr_partnerships pr, pr_conflicts pr))
     (project toy_env merged policy_default) =
   Some ([(''a'', [''b'']), (''c'', [])], [((''a'', ''c''), ''partner'')], [(''b'', ''c'')])"
  by code_simp

theorem people_partition_witness:
  "\<exists>pr. project toy_env merged policy_default = Some pr \<and>
     (\<Union>x \<in> set (pr_people pr). members_of x) = person_anchors toy_env merged \<and> length (pr_people pr) = 2"
proof -
  obtain pr where pr: "project toy_env merged policy_default = Some pr"
      "map (\<lambda>x. (pe_id x, pe_also x)) (pr_people pr) = [(''a'', [''b'']), (''c'', [])]"
    using merged_projection by auto
  then have "length (pr_people pr) = 2" by (auto dest: arg_cong [of _ _ length])
  with people_partition [OF pr(1)] pr(1) show ?thesis by (intro exI [of _ pr] conjI) simp_all
qed

theorem relations_sound_witness:
  "\<exists>pr. project toy_env merged policy_default = Some pr \<and> ((''a'', ''c''), ''partner'') \<in> set (pr_partnerships pr) \<and>
     ''a'' \<in> pe_id ` set (pr_people pr) \<and> ''c'' \<in> pe_id ` set (pr_people pr)"
proof -
  obtain pr where pr: "project toy_env merged policy_default = Some pr"
      "pr_partnerships pr = [((''a'', ''c''), ''partner'')]"
    using merged_projection by auto
  then show ?thesis using relations_sound [OF pr(1)] by auto
qed

text \<open>Two name claims with one content are one name, and a third joined to that content is the
  same name again; but only the last of the two claims stands for the content, so the first
  one keeps a class of its own.\<close>

definition spelling :: "string \<Rightarrow> json" where
  "spelling s = JObj [(''parts'', JStr s)]"

definition renamed :: "json" where
  "renamed = JObj [(''equivalent_to'', JArr [JStr (case name_ref toy_env (spelling ''n'') of None \<Rightarrow> [] | Some r \<Rightarrow> r)]),
     (''parts'', JStr ''other'')]"

theorem duplicate_name_apart:
  "map_option (map (\<lambda>v. (nv_claim v, nv_class v)))
     (label_names toy_env (map (\<lambda>(i, v). \<lparr>nv_claim = i, nv_parts = v, nv_class = []\<rparr>)
        [(''c1'', spelling ''n''), (''c2'', spelling ''n''), (''c3'', renamed)])) =
   Some [(''c1'', ''c1''), (''c2'', ''c2''), (''c3'', ''c2'')]"
  by code_simp

end
