(* ===== verification/Key_Material.thy ===== *)
theory Key_Material
  imports Chain_Signing
begin

text \<open>
  The key-material records of \<open>packages/keyeo-crypto\<close>: an epoch of per-recipient wraps of its data
  key (\<open>src/keyring.rs\<close>), the coverage predicates over it (\<open>src/covers.rs\<close>) and the bytes a wrap
  is authenticated against (\<open>src/wrap_aad.rs\<close>).  Fixed-size byte arrays are byte lists; the sealed
  bytes themselves are opaque.
\<close>

subsection \<open>Epochs and wraps\<close>

record KdfParams =
  kdf_salt :: bytes
  kdf_memory_kib :: u32
  kdf_iterations :: u32
  kdf_parallelism :: u32

datatype KekKind = Passphrase | RecoveryCode | AccountRoot

datatype WrapMethod =
    MemberHpke bytes bytes
  | RrkHpke bytes bytes
  | Kek KekKind KdfParams bytes

fun method_tag :: "WrapMethod \<Rightarrow> int" where
  "method_tag (Kek Passphrase _ _) = 1"
| "method_tag (MemberHpke _ _) = 2"
| "method_tag (Kek RecoveryCode _ _) = 3"
| "method_tag (RrkHpke _ _) = 4"
| "method_tag (Kek AccountRoot _ _) = 5"

record 'id Wrap =
  wr_recipient :: 'id
  wr_method :: WrapMethod
  wr_ciphertext :: bytes

record 'id Epoch =
  ep_key_id :: bytes
  ep_ordinal :: u64
  ep_commitment :: bytes
  ep_wraps :: "'id Wrap list"

definition dek_matches_commitment :: "(bytes \<Rightarrow> bytes) \<Rightarrow> 'id Epoch \<Rightarrow> bytes \<Rightarrow> bool" where
  "dek_matches_commitment sha e dek \<longleftrightarrow> sha dek = ep_commitment e"

subsection \<open>Coverage\<close>

record 'id RecipientDescriptor =
  rd_id :: 'id
  rd_key :: "bytes option"

definition key_ok :: "bytes \<Rightarrow> bytes option \<Rightarrow> bool" where
  "key_ok k expected \<longleftrightarrow> (case expected of None \<Rightarrow> True | Some e \<Rightarrow> k = e)"

definition member_covers :: "'id Wrap \<Rightarrow> 'id RecipientDescriptor \<Rightarrow> bool" where
  "member_covers w d \<longleftrightarrow>
     (case wr_method w of
        MemberHpke _ k \<Rightarrow> wr_recipient w = rd_id d \<and> key_ok k (rd_key d)
      | _ \<Rightarrow> False)"

definition rrk_covers :: "'id Wrap \<Rightarrow> 'id RecipientDescriptor \<Rightarrow> bool" where
  "rrk_covers w d \<longleftrightarrow>
     (case wr_method w of
        RrkHpke _ k \<Rightarrow> wr_recipient w = rd_id d \<and> key_ok k (rd_key d)
      | _ \<Rightarrow> False)"

definition missing ::
  "'id Epoch \<Rightarrow> 'id RecipientDescriptor list \<Rightarrow> 'id RecipientDescriptor \<Rightarrow> 'id list" where
  "missing e required rrk =
     map rd_id (filter (\<lambda>d. \<not> list_ex (\<lambda>w. member_covers w d) (ep_wraps e)) required) @
     (if list_ex (\<lambda>w. rrk_covers w rrk) (ep_wraps e) then [] else [rd_id rrk])"

definition is_member_wrap :: "'id Wrap \<Rightarrow> bool" where
  "is_member_wrap w \<longleftrightarrow> (case wr_method w of MemberHpke _ _ \<Rightarrow> True | _ \<Rightarrow> False)"

definition covers_exact ::
  "'id Epoch \<Rightarrow> 'id RecipientDescriptor list \<Rightarrow> 'id RecipientDescriptor \<Rightarrow> bool" where
  "covers_exact e required rrk \<longleftrightarrow>
     (if missing e required rrk \<noteq> [] then False
      else \<not> list_ex (\<lambda>w. is_member_wrap w \<and> wr_recipient w \<notin> set (map rd_id required)) (ep_wraps e))"

text \<open>Who can open an epoch as a member, and who as the holder of the recovery root.\<close>

definition member_recipients :: "'id Epoch \<Rightarrow> 'id set" where
  "member_recipients e = {wr_recipient w | w. w \<in> set (ep_wraps e) \<and> is_member_wrap w}"

definition rrk_recipients :: "'id Epoch \<Rightarrow> 'id set" where
  "rrk_recipients e =
     {wr_recipient w | w. w \<in> set (ep_wraps e) \<and> (case wr_method w of RrkHpke _ _ \<Rightarrow> True | _ \<Rightarrow> False)}"

lemma missing_Nil:
  "missing e required rrk = [] \<longleftrightarrow>
     (\<forall>d \<in> set required. \<exists>w \<in> set (ep_wraps e). member_covers w d) \<and>
     (\<exists>w \<in> set (ep_wraps e). rrk_covers w rrk)"
  by (auto simp: missing_def filter_empty_conv list_ex_iff)

lemma covers_unbound:
  "rd_key d = None \<Longrightarrow> member_covers w d \<longleftrightarrow> is_member_wrap w \<and> wr_recipient w = rd_id d"
  "rd_key d = None \<Longrightarrow> rrk_covers w d \<longleftrightarrow>
     (case wr_method w of RrkHpke _ _ \<Rightarrow> True | _ \<Rightarrow> False) \<and> wr_recipient w = rd_id d"
  by (auto simp: member_covers_def rrk_covers_def is_member_wrap_def key_ok_def split: WrapMethod.splits)

lemma covers_recipients:
  "member_covers w d \<Longrightarrow> w \<in> set (ep_wraps e) \<Longrightarrow> rd_id d \<in> member_recipients e"
  by (force simp: member_covers_def member_recipients_def is_member_wrap_def split: WrapMethod.splits)

text \<open>Exact coverage is that exactly the required ids can open the epoch, nobody is locked out and
  nobody left inside; the plain check sees the lock-outs only.\<close>

lemma covers_exact_iff:
  "covers_exact e required rrk \<longleftrightarrow>
     missing e required rrk = [] \<and> member_recipients e \<subseteq> rd_id ` set required"
  by (auto simp: covers_exact_def member_recipients_def list_ex_iff)

theorem coverage_exact:
  assumes "\<forall>d \<in> set (rrk # required). rd_key d = None"
  shows "(missing e required rrk = [] \<longleftrightarrow>
      rd_id ` set required \<subseteq> member_recipients e \<and> rd_id rrk \<in> rrk_recipients e) \<and>
    (covers_exact e required rrk \<longleftrightarrow>
      rd_id ` set required = member_recipients e \<and> rd_id rrk \<in> rrk_recipients e)"
proof -
  have m: "(\<exists>w \<in> set (ep_wraps e). member_covers w d) \<longleftrightarrow> rd_id d \<in> member_recipients e"
    if "d \<in> set required" for d
    using that assms by (auto simp: covers_unbound member_recipients_def intro: sym)
  have r: "(\<exists>w \<in> set (ep_wraps e). rrk_covers w rrk) \<longleftrightarrow> rd_id rrk \<in> rrk_recipients e"
    using assms by (auto simp: covers_unbound rrk_recipients_def intro: sym)
  have "missing e required rrk = [] \<longleftrightarrow>
      rd_id ` set required \<subseteq> member_recipients e \<and> rd_id rrk \<in> rrk_recipients e"
    using m r by (auto simp: missing_Nil)
  then show ?thesis by (auto simp: covers_exact_iff)
qed

subsection \<open>What a wrap is bound to\<close>

text \<open>\<open>u32::try_from(tag).unwrap_or(0)\<close> on an \<open>i32\<close>.\<close>

definition tag_u32 :: "int \<Rightarrow> u32" where
  "tag_u32 t = (if 0 \<le> t \<and> t < 2 ^ 32 then of_int t else 0)"

text \<open>The ASCII bytes of \<open>keyeo:wrap:v1\<close> and \<open>keyeo:rrk:v1\<close>.\<close>

definition WRAP_TAG :: bytes where "WRAP_TAG = string_bytes ''keyeo:wrap:v1''"
definition RRK_TAG :: bytes where "RRK_TAG = string_bytes ''keyeo:rrk:v1''"

definition wrap_aad :: "bytes \<Rightarrow> bytes \<Rightarrow> bytes \<Rightarrow> int \<Rightarrow> bytes" where
  "wrap_aad group_id key_id member_id wrap_method =
     put_bytes WRAP_TAG @ put_bytes group_id @ put_bytes key_id @ put_bytes member_id @
     u32_be (tag_u32 wrap_method)"

definition rrk_wrap_aad :: "bytes \<Rightarrow> bytes \<Rightarrow> int \<Rightarrow> bytes" where
  "rrk_wrap_aad group_id member_id wrap_method =
     put_bytes RRK_TAG @ put_bytes group_id @ put_bytes member_id @ u32_be (tag_u32 wrap_method)"

lemma tag_u32_inj: "0 \<le> s \<Longrightarrow> s < 2 ^ 31 \<Longrightarrow> 0 \<le> t \<Longrightarrow> t < 2 ^ 31 \<Longrightarrow> tag_u32 s = tag_u32 t \<longleftrightarrow> s = t"
  by (simp add: tag_u32_def word_of_int_eq_iff take_bit_int_eq_self)

lemma method_tag_range: "0 \<le> method_tag m \<and> method_tag m < 2 ^ 31"
  by (cases m rule: method_tag.cases) simp_all

lemma small_tags [simp]: "small WRAP_TAG" "small RRK_TAG" "small DOMAIN_TAG"
  by (simp_all add: small_def WRAP_TAG_def RRK_TAG_def DOMAIN_TAG_def)

lemma put_bytes_inj: "small a \<Longrightarrow> small b \<Longrightarrow> put_bytes a = put_bytes b \<longleftrightarrow> a = b"
  using put_bytes_append [of a b "[]" "[]"] by simp

lemma put_bytes_differ: "small a \<Longrightarrow> small b \<Longrightarrow> a \<noteq> b \<Longrightarrow> put_bytes a @ x \<noteq> put_bytes b @ y"
  by (simp add: put_bytes_append)

lemma wrap_aad_inj:
  assumes "small g" "small k" "small m" "small g'" "small k'" "small m'"
  shows "wrap_aad g k m (method_tag w) = wrap_aad g' k' m' (method_tag w') \<longleftrightarrow>
    g = g' \<and> k = k' \<and> m = m' \<and> method_tag w = method_tag w'"
  using method_tag_range [of w] method_tag_range [of w'] assms
  by (simp add: wrap_aad_def put_bytes_append put_bytes_inj tag_u32_inj)

lemma rrk_wrap_aad_inj:
  assumes "small g" "small m" "small g'" "small m'"
  shows "rrk_wrap_aad g m (method_tag w) = rrk_wrap_aad g' m' (method_tag w') \<longleftrightarrow>
    g = g' \<and> m = m' \<and> method_tag w = method_tag w'"
  using method_tag_range [of w] method_tag_range [of w'] assms
  by (simp add: rrk_wrap_aad_def put_bytes_append put_bytes_inj tag_u32_inj)

lemma wrap_not_rrk: "wrap_aad g k m t \<noteq> rrk_wrap_aad g' m' t'"
  by (auto simp: wrap_aad_def rrk_wrap_aad_def WRAP_TAG_def RRK_TAG_def small_def string_bytes_def
      dest!: put_bytes_append [THEN iffD1, rotated 2])

end
