(* ===== verification/Envelope.thy ===== *)
theory Envelope
  imports Key_Material Roles
begin

text \<open>
  Envelopes (\<open>packages/openom-crypto\<close>): the canonical bytes a header is bound to its ciphertext by
  and the bytes an author signs (\<open>src/aad.rs\<close>), the header-driven sealing and opening
  (\<open>src/seal.rs\<close>) and the construction of a whole envelope (\<open>src/envelope.rs\<close>).  The header is
  the generated message of \<open>openom-protocol\<close>.  The ciphers, SHA-256, the Ed25519 key and the
  protobuf codec are fields of an environment; what is documented of the ciphers is the locale
  \<open>aead_cipher\<close>.
\<close>

text \<open>The generated enums as their wire numbers; \<open>try_from\<close> gives nothing on others.\<close>

fun kind_value :: "Kind \<Rightarrow> int" where
  "kind_value KUnspecified = 0"
| "kind_value KSnapshot = 1"
| "kind_value KDelta = 2"
| "kind_value KMedia = 3"
| "kind_value KProposal = 4"
| "kind_value KCover = 5"
| "kind_value KAppSecret = 6"

definition kind_try_from :: "int \<Rightarrow> Kind option" where
  "kind_try_from t = find (\<lambda>k. kind_value k = t)
     [KUnspecified, KSnapshot, KDelta, KMedia, KProposal, KCover, KAppSecret]"

lemma kind_value_inj [simp]: "kind_value a = kind_value b \<longleftrightarrow> a = b"
  by (cases a; cases b) simp_all

lemma kind_try_from_value [simp]: "kind_try_from (kind_value k) = Some k"
  by (cases k) (simp_all add: kind_try_from_def)

lemma kind_try_from_Some: "kind_try_from t = Some k \<Longrightarrow> kind_value k = t"
  by (auto simp: kind_try_from_def split: if_splits)

datatype Aead = AeadUnspecified | Aes256Gcm | Xchacha20Poly1305

fun aead_value :: "Aead \<Rightarrow> int" where
  "aead_value AeadUnspecified = 0"
| "aead_value Aes256Gcm = 1"
| "aead_value Xchacha20Poly1305 = 2"

definition aead_try_from :: "int \<Rightarrow> Aead option" where
  "aead_try_from t = find (\<lambda>a. aead_value a = t) [AeadUnspecified, Aes256Gcm, Xchacha20Poly1305]"

lemma aead_try_from_value [simp]: "aead_try_from (aead_value a) = Some a"
  by (cases a) (simp_all add: aead_try_from_def)

datatype Format = FormatUnspecified | OpenomJson | OpenomOps | RawBytes

fun format_value :: "Format \<Rightarrow> int" where
  "format_value FormatUnspecified = 0"
| "format_value OpenomJson = 1"
| "format_value OpenomOps = 2"
| "format_value RawBytes = 4"

datatype Compression = CompressionUnspecified | CompressionNone | Zstd

fun compression_value :: "Compression \<Rightarrow> int" where
  "compression_value CompressionUnspecified = 0"
| "compression_value CompressionNone = 1"
| "compression_value Zstd = 2"

record Header =
  h_kind :: int
  h_format :: int
  h_aead :: int
  h_compression :: int
  h_key_id :: bytes
  h_nonce :: bytes
  h_tree_id :: bytes
  h_replica_id :: bytes
  h_replica_counter :: u64
  h_ciphertext_hash :: bytes
  h_prev_ciphertext_hash :: bytes
  h_covers_through_seq :: u64
  h_replaces_ciphertext_hash :: bytes
  h_author_signature :: bytes
  h_author_member_id :: string
  h_governing_ref :: bytes
  h_blob_id :: bytes

record Envelope =
  en_version :: u32
  en_header :: "Header option"
  en_ciphertext :: bytes

subsection \<open>Canonical bytes\<close>

definition header_aad :: "u32 \<Rightarrow> Header \<Rightarrow> bytes" where
  "header_aad version h =
     u32_be version @ u32_be (tag_u32 (h_kind h)) @ u32_be (tag_u32 (h_format h)) @
     u32_be (tag_u32 (h_aead h)) @ u32_be (tag_u32 (h_compression h)) @
     put_bytes (h_key_id h) @ put_bytes (h_nonce h) @ put_bytes (h_tree_id h) @
     put_bytes (h_replica_id h) @ u64_be (h_replica_counter h) @
     put_bytes (h_prev_ciphertext_hash h) @ u64_be (h_covers_through_seq h) @
     put_bytes (h_replaces_ciphertext_hash h) @ put_bytes (h_author_signature h) @
     put_bytes (h_blob_id h) @ put_bytes (string_bytes (h_author_member_id h)) @
     put_bytes (h_governing_ref h)"

text \<open>The ASCII bytes of \<open>openom:author:v1\<close>.\<close>

definition AUTHOR_TAG :: bytes where "AUTHOR_TAG = string_bytes ''openom:author:v1''"

definition author_signing_bytes :: "u32 \<Rightarrow> Header \<Rightarrow> bytes \<Rightarrow> bytes" where
  "author_signing_bytes version h plaintext_hash =
     put_bytes AUTHOR_TAG @ u32_be version @
     u32_be (tag_u32 (h_kind h)) @ u32_be (tag_u32 (h_format h)) @
     u32_be (tag_u32 (h_aead h)) @ u32_be (tag_u32 (h_compression h)) @
     put_bytes (h_key_id h) @ put_bytes (h_tree_id h) @ put_bytes (h_replica_id h) @
     u64_be (h_replica_counter h) @ put_bytes (h_prev_ciphertext_hash h) @
     u64_be (h_covers_through_seq h) @ put_bytes (h_replaces_ciphertext_hash h) @
     put_bytes (h_blob_id h) @ put_bytes (string_bytes (h_author_member_id h)) @
     put_bytes (h_governing_ref h) @ put_bytes plaintext_hash"

definition REGISTER_TAG :: bytes where "REGISTER_TAG = string_bytes ''openom:register:v1''"

definition registration_signing_bytes :: "string \<Rightarrow> string \<Rightarrow> bytes \<Rightarrow> 64 word \<Rightarrow> bytes" where
  "registration_signing_bytes issuer subject member_id timestamp =
     REGISTER_TAG @ put_bytes (string_bytes issuer) @ put_bytes (string_bytes subject) @
     member_id @ u64_be timestamp"

text \<open>Sizes and tags that the wire carries: every tag is an \<open>i32\<close> and not negative.\<close>

definition tag_ok :: "int \<Rightarrow> bool" where
  "tag_ok t \<longleftrightarrow> 0 \<le> t \<and> t < 2 ^ 31"

definition header_small :: "Header \<Rightarrow> bool" where
  "header_small h \<longleftrightarrow>
     list_all tag_ok [h_kind h, h_format h, h_aead h, h_compression h] \<and>
     list_all small [h_key_id h, h_nonce h, h_tree_id h, h_replica_id h, h_prev_ciphertext_hash h,
       h_replaces_ciphertext_hash h, h_author_signature h, h_governing_ref h, h_blob_id h,
       string_bytes (h_author_member_id h)]"

text \<open>The headers that differ in the hash of the ciphertext alone, and those an author signs alike.\<close>

definition same_bound :: "Header \<Rightarrow> Header \<Rightarrow> bool" where
  "same_bound h g \<longleftrightarrow> h\<lparr>h_ciphertext_hash := []\<rparr> = g\<lparr>h_ciphertext_hash := []\<rparr>"

definition same_authored :: "Header \<Rightarrow> Header \<Rightarrow> bool" where
  "same_authored h g \<longleftrightarrow>
     h\<lparr>h_nonce := [], h_ciphertext_hash := [], h_author_signature := []\<rparr> =
     g\<lparr>h_nonce := [], h_ciphertext_hash := [], h_author_signature := []\<rparr>"

lemma u64_be_inj [simp]: "u64_be v = u64_be w \<longleftrightarrow> v = w"
  by (metis nat_of_u64_be word_unat_eq_iff)

lemma u64_be_append: "u64_be v @ x = u64_be w @ y \<longleftrightarrow> v = w \<and> x = y"
  by (auto simp: append_eq_append_conv)

lemma tag_ok_inj: "tag_ok s \<Longrightarrow> tag_ok t \<Longrightarrow> tag_u32 s = tag_u32 t \<longleftrightarrow> s = t"
  by (simp add: tag_u32_inj tag_ok_def)

lemmas frame_append = u32_be_append u64_be_append tag_ok_inj put_bytes_append put_bytes_inj

lemma small_author_tag [simp]: "small AUTHOR_TAG"
  by (simp add: small_def AUTHOR_TAG_def)

lemma header_aad_inj:
  assumes "header_small h" "header_small g"
  shows "header_aad v h = header_aad w g \<longleftrightarrow> v = w \<and> same_bound h g"
  using assms by (cases h; cases g) (auto simp: header_small_def header_aad_def same_bound_def frame_append)

lemma author_signing_bytes_inj:
  assumes "header_small h" "header_small g" "small p" "small q"
  shows "author_signing_bytes v h p = author_signing_bytes w g q \<longleftrightarrow> v = w \<and> same_authored h g \<and> p = q"
  using assms
  by (cases h; cases g) (auto simp: header_small_def author_signing_bytes_def same_authored_def frame_append)

subsection \<open>Domain separation\<close>

text \<open>An author's key is also a signer's key, so what keeps a signature over an entry from passing
  as one over a keyring, a wrap or a registration is the tag that each byte string begins with.
  The registration bytes carry theirs without a length.\<close>

lemma register_head: "REGISTER_TAG @ x \<noteq> put_bytes t @ y" if "small t" "length t < 2 ^ 16"
proof
  assume eq: "REGISTER_TAG @ x = put_bytes t @ y"
  have "take 4 (REGISTER_TAG @ x) = take 4 (put_bytes t @ y)" using eq by simp
  then have "take 4 REGISTER_TAG = u32_be (sat_u32 (length t))"
    by (simp add: put_bytes_def REGISTER_TAG_def string_bytes_def)
  then have "nat_of_be (take 4 REGISTER_TAG) = length t"
    using that by (simp add: small_def)
  then show False using that(2) by (simp add: REGISTER_TAG_def string_bytes_def nat_of_be_def)
qed

lemma tags_differ:
  "AUTHOR_TAG \<noteq> DOMAIN_TAG" "AUTHOR_TAG \<noteq> WRAP_TAG" "AUTHOR_TAG \<noteq> RRK_TAG" "DOMAIN_TAG \<noteq> WRAP_TAG"
  "DOMAIN_TAG \<noteq> RRK_TAG" "WRAP_TAG \<noteq> RRK_TAG"
  by (simp_all add: AUTHOR_TAG_def WRAP_TAG_def RRK_TAG_def DOMAIN_TAG_def string_bytes_def)

lemma tags_short:
  "length AUTHOR_TAG < 2 ^ 16" "length WRAP_TAG < 2 ^ 16" "length RRK_TAG < 2 ^ 16" "length DOMAIN_TAG < 2 ^ 16"
  by (simp_all add: AUTHOR_TAG_def WRAP_TAG_def RRK_TAG_def DOMAIN_TAG_def)

text \<open>C8: the byte strings that are signed or authenticated name what they are about.  Two author
  messages are equal only for one version, one plaintext hash and headers that agree on all but
  the nonce, the ciphertext hash and the signature itself; two header bindings only for headers
  that agree on all but the ciphertext hash; and no author message is a keyring's signed bytes,
  a wrap's or a registration's.\<close>

theorem signed_bytes_separate:
  assumes "header_small h" "header_small g" "small p" "small q"
  shows "(author_signing_bytes v h p = author_signing_bytes w g q \<longleftrightarrow> v = w \<and> same_authored h g \<and> p = q) \<and>
    (header_aad v h = header_aad w g \<longleftrightarrow> v = w \<and> same_bound h g) \<and>
    (\<forall>d. author_signing_bytes v h p \<noteq> signing_bytes E d) \<and>
    (\<forall>a b c t. author_signing_bytes v h p \<noteq> wrap_aad a b c t \<and>
       author_signing_bytes v h p \<noteq> rrk_wrap_aad a b t) \<and>
    (\<forall>a b c t. author_signing_bytes v h p \<noteq> registration_signing_bytes a b c t)"
proof -
  have "author_signing_bytes v h p \<noteq> signing_bytes E d" for d
    by (simp add: author_signing_bytes_def signing_bytes_def put_bytes_differ tags_differ)
  moreover have "author_signing_bytes v h p \<noteq> wrap_aad a b c t" "author_signing_bytes v h p \<noteq> rrk_wrap_aad a b t"
    for a b c t
    by (simp_all add: author_signing_bytes_def wrap_aad_def rrk_wrap_aad_def put_bytes_differ tags_differ)
  moreover have "author_signing_bytes v h p \<noteq> registration_signing_bytes a b c t" for a b c t
    using register_head [OF small_author_tag tags_short(1)]
    unfolding author_signing_bytes_def registration_signing_bytes_def by metis
  ultimately show ?thesis
    using header_aad_inj [OF assms(1,2)] author_signing_bytes_inj [OF assms] by simp
qed

definition demo_header :: Header where
  "demo_header =
     \<lparr>h_kind = 2, h_format = 2, h_aead = 2, h_compression = 1, h_key_id = [1], h_nonce = replicate 24 0,
      h_tree_id = [7], h_replica_id = [3], h_replica_counter = 0, h_ciphertext_hash = [],
      h_prev_ciphertext_hash = [], h_covers_through_seq = 0, h_replaces_ciphertext_hash = [],
      h_author_signature = [], h_author_member_id = ''m'', h_governing_ref = [], h_blob_id = []\<rparr>"

theorem signed_bytes_separate_witness:
  "author_signing_bytes 1 demo_header [9] \<noteq> author_signing_bytes 1 (demo_header\<lparr>h_tree_id := [8]\<rparr>) [9] \<and>
   author_signing_bytes 1 demo_header [9] = author_signing_bytes 1 (demo_header\<lparr>h_nonce := [8]\<rparr>) [9]"
proof -
  have "header_small demo_header" "header_small (demo_header\<lparr>h_tree_id := [8]\<rparr>)"
      "header_small (demo_header\<lparr>h_nonce := [8]\<rparr>)" "small [9]"
    by (simp_all add: header_small_def demo_header_def tag_ok_def small_def)
  then have "author_signing_bytes 1 demo_header [9] = author_signing_bytes 1 (demo_header\<lparr>h_tree_id := [8]\<rparr>) [9] \<longleftrightarrow>
        same_authored demo_header (demo_header\<lparr>h_tree_id := [8]\<rparr>)"
      "author_signing_bytes 1 demo_header [9] = author_signing_bytes 1 (demo_header\<lparr>h_nonce := [8]\<rparr>) [9] \<longleftrightarrow>
        same_authored demo_header (demo_header\<lparr>h_nonce := [8]\<rparr>)"
    using signed_bytes_separate [of demo_header _ "[9]" "[9]" 1 1 demo_chain] by simp_all
  then show ?thesis by (simp add: same_authored_def demo_header_def)
qed

subsection \<open>Sealing\<close>

datatype CryptoError =
    UnsupportedAead int | KeyLength | NonceLength | SealFailed | OpenFailed | Kdf string | Rng string
  | RecoveryFormat | RecoveryChecksum | BadSignature | Hpke

text \<open>The two ciphers over key, nonce, associated data and text; signing with a secret key.\<close>

record cipher_env =
  cy_xchacha_seal :: "bytes \<Rightarrow> bytes \<Rightarrow> bytes \<Rightarrow> bytes \<Rightarrow> bytes option"
  cy_xchacha_open :: "bytes \<Rightarrow> bytes \<Rightarrow> bytes \<Rightarrow> bytes \<Rightarrow> bytes option"
  cy_aesgcm_seal :: "bytes \<Rightarrow> bytes \<Rightarrow> bytes \<Rightarrow> bytes \<Rightarrow> bytes option"
  cy_aesgcm_open :: "bytes \<Rightarrow> bytes \<Rightarrow> bytes \<Rightarrow> bytes \<Rightarrow> bytes option"
  cy_sha :: "bytes \<Rightarrow> bytes"
  cy_sign :: "bytes \<Rightarrow> bytes \<Rightarrow> bytes"

definition check_nonce :: "bytes \<Rightarrow> nat \<Rightarrow> CryptoError + unit" where
  "check_nonce nonce want = (if length nonce = want then Inr () else Inl NonceLength)"

definition cipher_call ::
  "(bytes \<Rightarrow> bytes \<Rightarrow> bytes \<Rightarrow> bytes \<Rightarrow> bytes option) \<Rightarrow> nat \<Rightarrow> CryptoError \<Rightarrow>
     bytes \<Rightarrow> bytes \<Rightarrow> bytes \<Rightarrow> bytes \<Rightarrow> CryptoError + bytes" where
  "cipher_call f want err key nonce aad data =
     (case check_nonce nonce want of
        Inl e \<Rightarrow> Inl e
      | Inr _ \<Rightarrow> (case f key nonce aad data of None \<Rightarrow> Inl err | Some c \<Rightarrow> Inr c))"

definition xchacha_seal where "xchacha_seal C = cipher_call (cy_xchacha_seal C) 24 SealFailed"
definition xchacha_open where "xchacha_open C = cipher_call (cy_xchacha_open C) 24 OpenFailed"
definition aesgcm_seal where "aesgcm_seal C = cipher_call (cy_aesgcm_seal C) 12 SealFailed"
definition aesgcm_open where "aesgcm_open C = cipher_call (cy_aesgcm_open C) 12 OpenFailed"

definition seal_header :: "cipher_env \<Rightarrow> u32 \<Rightarrow> Header \<Rightarrow> bytes \<Rightarrow> bytes \<Rightarrow> CryptoError + bytes" where
  "seal_header C version h key plaintext =
     (let aad = header_aad version h
      in case aead_try_from (h_aead h) of
           Some Xchacha20Poly1305 \<Rightarrow> xchacha_seal C key (h_nonce h) aad plaintext
         | Some Aes256Gcm \<Rightarrow> aesgcm_seal C key (h_nonce h) aad plaintext
         | _ \<Rightarrow> Inl (UnsupportedAead (h_aead h)))"

definition open_header :: "cipher_env \<Rightarrow> u32 \<Rightarrow> Header \<Rightarrow> bytes \<Rightarrow> bytes \<Rightarrow> CryptoError + bytes" where
  "open_header C version h key ciphertext =
     (let aad = header_aad version h
      in case aead_try_from (h_aead h) of
           Some Xchacha20Poly1305 \<Rightarrow> xchacha_open C key (h_nonce h) aad ciphertext
         | Some Aes256Gcm \<Rightarrow> aesgcm_open C key (h_nonce h) aad ciphertext
         | _ \<Rightarrow> Inl (UnsupportedAead (h_aead h)))"

record AuthorIdentity =
  au_signing_key :: bytes
  au_member_id :: string
  au_governing_ref :: bytes

record SealParams =
  sp_version :: u32
  sp_kind :: Kind
  sp_format :: Format
  sp_aead :: Aead
  sp_compression :: Compression
  sp_key_id :: bytes
  sp_tree_id :: bytes
  sp_replica_id :: bytes
  sp_replica_counter :: u64
  sp_prev_ciphertext_hash :: bytes
  sp_covers_through_seq :: u64
  sp_blob_id :: bytes
  sp_author :: "AuthorIdentity option"

fun nonce_len :: "Aead \<Rightarrow> CryptoError + nat" where
  "nonce_len Xchacha20Poly1305 = Inr 24"
| "nonce_len Aes256Gcm = Inr 12"
| "nonce_len AeadUnspecified = Inl (UnsupportedAead 0)"

definition header_of :: "bytes \<Rightarrow> SealParams \<Rightarrow> Header" where
  "header_of nonce P =
     \<lparr>h_kind = kind_value (sp_kind P), h_format = format_value (sp_format P),
      h_aead = aead_value (sp_aead P), h_compression = compression_value (sp_compression P),
      h_key_id = sp_key_id P, h_nonce = nonce, h_tree_id = sp_tree_id P, h_replica_id = sp_replica_id P,
      h_replica_counter = sp_replica_counter P, h_ciphertext_hash = [],
      h_prev_ciphertext_hash = sp_prev_ciphertext_hash P,
      h_covers_through_seq = sp_covers_through_seq P, h_replaces_ciphertext_hash = [],
      h_author_signature = [],
      h_author_member_id = (case sp_author P of None \<Rightarrow> [] | Some a \<Rightarrow> au_member_id a),
      h_governing_ref = (case sp_author P of None \<Rightarrow> [] | Some a \<Rightarrow> au_governing_ref a),
      h_blob_id = sp_blob_id P\<rparr>"

definition attribute :: "cipher_env \<Rightarrow> SealParams \<Rightarrow> bytes \<Rightarrow> Header \<Rightarrow> Header" where
  "attribute C P plaintext h =
     (case sp_author P of
        None \<Rightarrow> h
      | Some a \<Rightarrow>
          h\<lparr>h_author_signature :=
              cy_sign C (au_signing_key a) (author_signing_bytes (sp_version P) h (cy_sha C plaintext))\<rparr>)"

definition seal_envelope_with_nonce ::
  "cipher_env \<Rightarrow> bytes \<Rightarrow> bytes \<Rightarrow> SealParams \<Rightarrow> bytes \<Rightarrow> CryptoError + Envelope" where
  "seal_envelope_with_nonce C nonce dek P plaintext =
     (case nonce_len (sp_aead P) of
        Inl e \<Rightarrow> Inl e
      | Inr n \<Rightarrow>
          if length nonce \<noteq> n then Inl NonceLength
          else let h = attribute C P plaintext (header_of nonce P)
               in case seal_header C (sp_version P) h dek plaintext of
                    Inl e \<Rightarrow> Inl e
                  | Inr c \<Rightarrow>
                      Inr \<lparr>en_version = sp_version P,
                           en_header = Some (h\<lparr>h_ciphertext_hash := cy_sha C c\<rparr>), en_ciphertext = c\<rparr>)"

text \<open>\<open>fill\<close> is the system's random source asked for that many bytes.\<close>

definition seal_envelope ::
  "cipher_env \<Rightarrow> (nat \<Rightarrow> string + bytes) \<Rightarrow> bytes \<Rightarrow> SealParams \<Rightarrow> bytes \<Rightarrow> CryptoError + Envelope" where
  "seal_envelope C fill dek P plaintext =
     (case nonce_len (sp_aead P) of
        Inl e \<Rightarrow> Inl e
      | Inr n \<Rightarrow>
          (case fill n of
             Inl e \<Rightarrow> Inl (Rng e)
           | Inr nonce \<Rightarrow> seal_envelope_with_nonce C nonce dek P plaintext))"

definition open_envelope :: "cipher_env \<Rightarrow> bytes \<Rightarrow> Envelope \<Rightarrow> CryptoError + bytes" where
  "open_envelope C dek env =
     (case en_header env of
        None \<Rightarrow> Inl OpenFailed
      | Some h \<Rightarrow>
          if cy_sha C (en_ciphertext env) \<noteq> h_ciphertext_hash h then Inl OpenFailed
          else open_header C (en_version env) h dek (en_ciphertext env))"

end
