(* ===== verification/Sealer.thy ===== *)
theory Sealer
  imports Envelope Docsync_Mirror
begin

text \<open>
  The sealing session (\<open>packages/openom-sealer/src/lib.rs\<close>): one sealer per key epoch, the set that
  routes an envelope to the epoch it names and writes under the latest one, the adoption of new
  epochs into a running set; and its binding to the sealer seam of the sync loop with the off-log
  entries of \<open>packages/openom-docsync/src/sync.rs\<close>.
\<close>

datatype SealKind = SKSnapshot | SKDelta | SKMedia | SKProposal | SKCover | SKAppSecret

fun to_proto :: "SealKind \<Rightarrow> Kind" where
  "to_proto SKSnapshot = KSnapshot"
| "to_proto SKDelta = KDelta"
| "to_proto SKMedia = KMedia"
| "to_proto SKProposal = KProposal"
| "to_proto SKCover = KCover"
| "to_proto SKAppSecret = KAppSecret"

definition from_proto :: "int \<Rightarrow> SealKind option" where
  "from_proto k =
     (case kind_try_from k of
        Some KSnapshot \<Rightarrow> Some SKSnapshot
      | Some KDelta \<Rightarrow> Some SKDelta
      | Some KMedia \<Rightarrow> Some SKMedia
      | Some KProposal \<Rightarrow> Some SKProposal
      | Some KCover \<Rightarrow> Some SKCover
      | Some KAppSecret \<Rightarrow> Some SKAppSecret
      | Some KUnspecified \<Rightarrow> None
      | None \<Rightarrow> None)"

lemma from_to_proto [simp]: "from_proto (kind_value (to_proto k)) = Some k"
  by (cases k) (simp_all only: to_proto.simps from_proto_def kind_try_from_value option.case Kind.case)

record SealContext =
  cx_kind :: SealKind
  cx_format :: Format
  cx_compression :: Compression
  cx_replica_counter :: u64
  cx_prev_ciphertext_hash :: bytes
  cx_covers_through_seq :: u64
  cx_blob_id :: bytes

definition ctx_snapshot :: "u64 \<Rightarrow> bytes \<Rightarrow> u64 \<Rightarrow> SealContext" where
  "ctx_snapshot counter prev covers =
     \<lparr>cx_kind = SKSnapshot, cx_format = OpenomJson, cx_compression = CompressionNone,
      cx_replica_counter = counter, cx_prev_ciphertext_hash = prev,
      cx_covers_through_seq = covers, cx_blob_id = []\<rparr>"

definition ctx_cover :: "u64 \<Rightarrow> bytes \<Rightarrow> SealContext" where
  "ctx_cover counter prev =
     \<lparr>cx_kind = SKCover, cx_format = OpenomJson, cx_compression = CompressionNone,
      cx_replica_counter = counter, cx_prev_ciphertext_hash = prev,
      cx_covers_through_seq = 0, cx_blob_id = []\<rparr>"

definition ctx_media :: "bytes \<Rightarrow> SealContext" where
  "ctx_media blob_id =
     \<lparr>cx_kind = SKMedia, cx_format = RawBytes, cx_compression = CompressionNone,
      cx_replica_counter = 0, cx_prev_ciphertext_hash = [],
      cx_covers_through_seq = 0, cx_blob_id = blob_id\<rparr>"

definition ctx_app_secret :: SealContext where
  "ctx_app_secret =
     \<lparr>cx_kind = SKAppSecret, cx_format = RawBytes, cx_compression = CompressionNone,
      cx_replica_counter = 0, cx_prev_ciphertext_hash = [],
      cx_covers_through_seq = 0, cx_blob_id = []\<rparr>"

record SealOutcome =
  so_envelope :: bytes
  so_ciphertext_hash :: bytes

datatype SealerError =
    CryptoErr CryptoError | DecodeErr string | NoHeader | WrongScope | EpochUnreachable | WrongKind

text \<open>The ciphers, the protobuf codec of an envelope, and the random source with its state.\<close>

record 'g sealer_env =
  sv_cipher :: cipher_env
  sv_encode :: "Envelope \<Rightarrow> bytes"
  sv_decode :: "bytes \<Rightarrow> string + Envelope"
  sv_fill :: "'g \<Rightarrow> nat \<Rightarrow> 'g \<times> (string + bytes)"

subsection \<open>One epoch\<close>

record Sealer =
  sr_version :: u32
  sr_dek :: bytes
  sr_aead :: Aead
  sr_tree_id :: bytes
  sr_key_id :: bytes
  sr_replica_id :: bytes
  sr_author :: "AuthorIdentity option"

definition from_unwrapped :: "u32 \<Rightarrow> bytes \<Rightarrow> bytes \<Rightarrow> bytes \<Rightarrow> bytes \<Rightarrow> Sealer" where
  "from_unwrapped version dek tree_id key_id replica_id =
     \<lparr>sr_version = version, sr_dek = dek, sr_aead = Xchacha20Poly1305, sr_tree_id = tree_id,
      sr_key_id = key_id, sr_replica_id = replica_id, sr_author = None\<rparr>"

definition set_author :: "bytes \<Rightarrow> string \<Rightarrow> bytes \<Rightarrow> Sealer \<Rightarrow> Sealer" where
  "set_author key member gref s =
     s\<lparr>sr_author := Some \<lparr>au_signing_key = key, au_member_id = member, au_governing_ref = gref\<rparr>\<rparr>"

definition with_aead :: "Aead \<Rightarrow> Sealer \<Rightarrow> Sealer" where
  "with_aead a s = s\<lparr>sr_aead := a\<rparr>"

definition ENVELOPE_VERSION :: u32 where "ENVELOPE_VERSION = 1"

definition DEV_KEY_ID :: bytes where "DEV_KEY_ID = string_bytes ''openom-dev-key-v1''"

definition dev_sealer :: "'g sealer_env \<Rightarrow> bytes \<Rightarrow> bytes \<Rightarrow> Sealer" where
  "dev_sealer V tree_id replica_id =
     from_unwrapped ENVELOPE_VERSION (cy_sha (sv_cipher V) DEV_KEY_ID) tree_id DEV_KEY_ID replica_id"

definition params_of :: "Sealer \<Rightarrow> SealContext \<Rightarrow> SealParams" where
  "params_of s ctx =
     \<lparr>sp_version = sr_version s, sp_kind = to_proto (cx_kind ctx), sp_format = cx_format ctx,
      sp_aead = sr_aead s, sp_compression = cx_compression ctx, sp_key_id = sr_key_id s,
      sp_tree_id = sr_tree_id s, sp_replica_id = sr_replica_id s,
      sp_replica_counter = cx_replica_counter ctx,
      sp_prev_ciphertext_hash = cx_prev_ciphertext_hash ctx,
      sp_covers_through_seq = cx_covers_through_seq ctx, sp_blob_id = cx_blob_id ctx,
      sp_author = sr_author s\<rparr>"

definition sealer_seal ::
  "'g sealer_env \<Rightarrow> 'g \<Rightarrow> Sealer \<Rightarrow> SealContext \<Rightarrow> bytes \<Rightarrow> SealerError + SealOutcome" where
  "sealer_seal V g s ctx plaintext =
     (case seal_envelope (sv_cipher V) (\<lambda>n. snd (sv_fill V g n)) (sr_dek s) (params_of s ctx) plaintext of
        Inl e \<Rightarrow> Inl (CryptoErr e)
      | Inr env \<Rightarrow>
          (case en_header env of
             None \<Rightarrow> Inl NoHeader
           | Some h \<Rightarrow>
               Inr \<lparr>so_envelope = sv_encode V env, so_ciphertext_hash = h_ciphertext_hash h\<rparr>))"

definition check_scope :: "Sealer \<Rightarrow> Header \<Rightarrow> SealerError + unit" where
  "check_scope s h =
     (if h_tree_id h \<noteq> sr_tree_id s \<or> h_key_id h \<noteq> sr_key_id s then Inl WrongScope else Inr ())"

definition sealer_open :: "'g sealer_env \<Rightarrow> Sealer \<Rightarrow> SealKind \<Rightarrow> bytes \<Rightarrow> SealerError + bytes" where
  "sealer_open V s expect b =
     (case sv_decode V b of
        Inl e \<Rightarrow> Inl (DecodeErr e)
      | Inr env \<Rightarrow>
          (case en_header env of
             None \<Rightarrow> Inl NoHeader
           | Some h \<Rightarrow>
               (case check_scope s h of
                  Inl e \<Rightarrow> Inl e
                | Inr _ \<Rightarrow>
                    if from_proto (h_kind h) \<noteq> Some expect then Inl WrongKind
                    else case open_envelope (sv_cipher V) (sr_dek s) env of
                           Inl e \<Rightarrow> Inl (CryptoErr e)
                         | Inr p \<Rightarrow> Inr p)))"

subsection \<open>All reachable epochs\<close>

record SealerSet =
  ss_tree_id :: bytes
  ss_write_key_id :: bytes
  ss_sealers :: "Sealer list"

definition sealer_set_new :: "bytes \<Rightarrow> bytes \<Rightarrow> (bytes \<times> bytes) list \<Rightarrow> bytes \<Rightarrow> SealerSet" where
  "sealer_set_new tree_id replica_id epochs write_key_id =
     \<lparr>ss_tree_id = tree_id, ss_write_key_id = write_key_id,
      ss_sealers = map (\<lambda>(k, dek). from_unwrapped ENVELOPE_VERSION dek tree_id k replica_id) epochs\<rparr>"

text \<open>\<open>iter_mut().find(..)\<close> and a change of what it finds.\<close>

fun update_first :: "('a \<Rightarrow> bool) \<Rightarrow> ('a \<Rightarrow> 'a) \<Rightarrow> 'a list \<Rightarrow> 'a list" where
  "update_first p f [] = []"
| "update_first p f (x # xs) = (if p x then f x # xs else x # update_first p f xs)"

definition set_with_author :: "bytes \<Rightarrow> string \<Rightarrow> bytes \<Rightarrow> SealerSet \<Rightarrow> SealerSet" where
  "set_with_author key member gref S =
     S\<lparr>ss_sealers := update_first (\<lambda>s. sr_key_id s = ss_write_key_id S) (set_author key member gref)
         (ss_sealers S)\<rparr>"

fun splice_epochs ::
  "bytes \<Rightarrow> bytes \<Rightarrow> (bytes \<times> bytes) list \<Rightarrow> Sealer list \<Rightarrow> nat \<Rightarrow> Sealer list \<times> nat" where
  "splice_epochs tree_id replica_id [] ss added = (ss, added)"
| "splice_epochs tree_id replica_id ((k, dek) # es) ss added =
     (if list_ex (\<lambda>s. sr_key_id s = k) ss then splice_epochs tree_id replica_id es ss added
      else splice_epochs tree_id replica_id es
             (ss @ [from_unwrapped ENVELOPE_VERSION dek tree_id k replica_id]) (Suc added))"

text \<open>The author leaves the old write epoch, and is put back only if the new one is there.  The
  debug assertions of the code are not part of a release build.\<close>

definition adopt_epochs ::
  "(bytes \<times> bytes) list \<Rightarrow> bytes \<Rightarrow> bytes \<Rightarrow> SealerSet \<Rightarrow> SealerSet \<times> nat" where
  "adopt_epochs epochs write_key_id gref S =
     (let replica_id = (case ss_sealers S of [] \<Rightarrow> [] | s # _ \<Rightarrow> sr_replica_id s);
          is_write = (\<lambda>s. sr_key_id s = ss_write_key_id S);
          author = (case find is_write (ss_sealers S) of None \<Rightarrow> None | Some s \<Rightarrow> sr_author s);
          taken = update_first is_write (\<lambda>s. s\<lparr>sr_author := None\<rparr>) (ss_sealers S)
      in case splice_epochs (ss_tree_id S) replica_id epochs taken 0 of
           (spliced, added) \<Rightarrow>
             (S\<lparr>ss_write_key_id := write_key_id,
                ss_sealers :=
                  (case author of
                     None \<Rightarrow> spliced
                   | Some a \<Rightarrow>
                       update_first (\<lambda>s. sr_key_id s = write_key_id)
                         (set_author (au_signing_key a) (au_member_id a) gref) spliced)\<rparr>, added))"

definition sealer_set_single :: "Sealer \<Rightarrow> SealerSet" where
  "sealer_set_single s =
     \<lparr>ss_tree_id = sr_tree_id s, ss_write_key_id = sr_key_id s, ss_sealers = [s]\<rparr>"

definition set_seal ::
  "'g sealer_env \<Rightarrow> 'g \<Rightarrow> SealerSet \<Rightarrow> SealContext \<Rightarrow> bytes \<Rightarrow> SealerError + SealOutcome" where
  "set_seal V g S ctx plaintext =
     (case find (\<lambda>s. sr_key_id s = ss_write_key_id S) (ss_sealers S) of
        None \<Rightarrow> Inl EpochUnreachable
      | Some s \<Rightarrow> sealer_seal V g s ctx plaintext)"

definition set_open :: "'g sealer_env \<Rightarrow> SealerSet \<Rightarrow> SealKind \<Rightarrow> bytes \<Rightarrow> SealerError + bytes" where
  "set_open V S expect b =
     (case sv_decode V b of
        Inl e \<Rightarrow> Inl (DecodeErr e)
      | Inr env \<Rightarrow>
          (case en_header env of
             None \<Rightarrow> Inl NoHeader
           | Some h \<Rightarrow>
               if h_tree_id h \<noteq> ss_tree_id S then Inl WrongScope
               else case find (\<lambda>s. sr_key_id s = h_key_id h) (ss_sealers S) of
                      None \<Rightarrow> Inl EpochUnreachable
                    | Some s \<Rightarrow> sealer_open V s expect b))"

subsection \<open>The seam of the sync loop\<close>

fun show_crypto_error :: "CryptoError \<Rightarrow> string" where
  "show_crypto_error (UnsupportedAead t) =
     ''unsupported or unspecified AEAD ('' @
     (if t < 0 then ''-'' @ nat_to_dec (nat (- t)) else nat_to_dec (nat t)) @ '')''"
| "show_crypto_error KeyLength = ''wrong DEK length''"
| "show_crypto_error NonceLength = ''wrong nonce length for the selected AEAD''"
| "show_crypto_error SealFailed = ''AEAD seal failed''"
| "show_crypto_error OpenFailed = ''AEAD open failed''"
| "show_crypto_error (Kdf e) = ''KDF failed: '' @ e"
| "show_crypto_error (Rng e) = ''RNG failed: '' @ e"
| "show_crypto_error RecoveryFormat = ''malformed recovery code''"
| "show_crypto_error RecoveryChecksum = ''recovery code checksum mismatch (likely a typo)''"
| "show_crypto_error BadSignature = ''keyring signature invalid''"
| "show_crypto_error Hpke = ''HPKE wrap/unwrap failed''"

fun show_sealer_error :: "SealerError \<Rightarrow> string" where
  "show_sealer_error (CryptoErr e) = ''crypto: '' @ show_crypto_error e"
| "show_sealer_error (DecodeErr e) = ''malformed envelope: '' @ e"
| "show_sealer_error NoHeader = ''envelope has no header''"
| "show_sealer_error WrongScope =
     ''envelope is out of scope for this sealer (tree_id/key_id mismatch)''"
| "show_sealer_error EpochUnreachable = ''no key for this envelope's epoch''"
| "show_sealer_error WrongKind = ''unexpected entry kind''"

definition boxed :: "SealerError + 'a \<Rightarrow> string + 'a" where
  "boxed r = (case r of Inl e \<Rightarrow> Inl (show_sealer_error e) | Inr x \<Rightarrow> Inr x)"

fun adapter_kind :: "entry_kind \<Rightarrow> SealKind" where
  "adapter_kind EDelta = SKDelta"
| "adapter_kind ESnapshot = SKSnapshot"
| "adapter_kind ECover = SKCover"

fun adapter_format :: "entry_kind \<Rightarrow> Format" where
  "adapter_format EDelta = OpenomOps"
| "adapter_format ESnapshot = OpenomJson"
| "adapter_format ECover = OpenomOps"

text \<open>The session is the set and the state of the random source; a seal draws one nonce.\<close>

type_synonym 'g session = "SealerSet \<times> 'g"

definition drawn :: "'g sealer_env \<Rightarrow> SealerSet \<Rightarrow> 'g \<Rightarrow> 'g" where
  "drawn V S g =
     (case find (\<lambda>s. sr_key_id s = ss_write_key_id S) (ss_sealers S) of
        None \<Rightarrow> g
      | Some s \<Rightarrow> (case nonce_len (sr_aead s) of Inl _ \<Rightarrow> g | Inr n \<Rightarrow> fst (sv_fill V g n)))"

definition adapter_ctx :: "seal_ctx \<Rightarrow> SealContext" where
  "adapter_ctx ctx =
     \<lparr>cx_kind = adapter_kind (sc_kind ctx), cx_format = adapter_format (sc_kind ctx),
      cx_compression = CompressionNone, cx_replica_counter = sc_replica_counter ctx,
      cx_prev_ciphertext_hash = sc_prev_ciphertext_hash ctx,
      cx_covers_through_seq = sc_covers_through_seq ctx, cx_blob_id = []\<rparr>"

definition adapter_seal ::
  "'g sealer_env \<Rightarrow> 'g session \<Rightarrow> seal_ctx \<Rightarrow> bytes \<Rightarrow> 'g session \<times> (string + sealed)" where
  "adapter_seal V k ctx plaintext =
     (case k of (S, g) \<Rightarrow>
        ((S, drawn V S g),
         case boxed (set_seal V g S (adapter_ctx ctx) plaintext) of
           Inl e \<Rightarrow> Inl e
         | Inr out \<Rightarrow>
             Inr \<lparr>sl_envelope = so_envelope out, sl_ciphertext_hash = so_ciphertext_hash out\<rparr>))"

definition adapter_open :: "'g sealer_env \<Rightarrow> 'g session \<Rightarrow> entry_kind \<Rightarrow> bytes \<Rightarrow> string + bytes" where
  "adapter_open V k kind b = boxed (set_open V (fst k) (adapter_kind kind) b)"

definition adapter_covers :: "'g sealer_env \<Rightarrow> 'g session \<Rightarrow> bytes \<Rightarrow> u64" where
  "adapter_covers V k b =
     (case sv_decode V b of
        Inl _ \<Rightarrow> 0
      | Inr env \<Rightarrow> (case en_header env of None \<Rightarrow> 0 | Some h \<Rightarrow> h_covers_through_seq h))"

definition adapter_ops :: "'g sealer_env \<Rightarrow> 'g session sealer_ops" where
  "adapter_ops V =
     \<lparr>se_seal = adapter_seal V, se_open = adapter_open V, se_covers_through_seq = adapter_covers V\<rparr>"

text \<open>The entries that never join the log.\<close>

definition seal_off_log :: "'g sealer_env \<Rightarrow> 'g session \<Rightarrow> SealContext \<Rightarrow> bytes \<Rightarrow> 'g session \<times> (string + bytes)" where
  "seal_off_log V k ctx plaintext =
     (case k of (S, g) \<Rightarrow>
        ((S, drawn V S g),
         case boxed (set_seal V g S ctx plaintext) of Inl e \<Rightarrow> Inl e | Inr out \<Rightarrow> Inr (so_envelope out)))"

definition seal_media where "seal_media V k blob_id = seal_off_log V k (ctx_media blob_id)"

definition seal_app_secret where "seal_app_secret V k = seal_off_log V k ctx_app_secret"

definition ctx_proposal :: SealContext where
  "ctx_proposal =
     \<lparr>cx_kind = SKProposal, cx_format = OpenomOps, cx_compression = CompressionNone,
      cx_replica_counter = 0, cx_prev_ciphertext_hash = [],
      cx_covers_through_seq = 0, cx_blob_id = []\<rparr>"

definition seal_proposal where "seal_proposal V k = seal_off_log V k ctx_proposal"

definition open_media where "open_media V k b = boxed (set_open V (fst k) SKMedia b)"
definition open_app_secret where "open_app_secret V k b = boxed (set_open V (fst k) SKAppSecret b)"
definition open_proposal where "open_proposal V k b = boxed (set_open V (fst k) SKProposal b)"

subsection \<open>What opens was sealed\<close>

text \<open>What is documented of the two ciphers, and of the codec on text that the code can hold:
  decryption inverts encryption, and accepts nothing that encryption would not have produced.\<close>

definition cipher_ok :: "cipher_env \<Rightarrow> bool" where
  "cipher_ok C \<longleftrightarrow>
     (\<forall>k n a p c. cy_xchacha_open C k n a c = Some p \<longleftrightarrow> cy_xchacha_seal C k n a p = Some c) \<and>
     (\<forall>k n a p c. cy_aesgcm_open C k n a c = Some p \<longleftrightarrow> cy_aesgcm_seal C k n a p = Some c)"

definition codec_ok :: "'g sealer_env \<Rightarrow> bool" where
  "codec_ok V \<longleftrightarrow>
     (\<forall>e. (case en_header e of None \<Rightarrow> True | Some h \<Rightarrow> is_str (h_author_member_id h)) \<longrightarrow>
        sv_decode V (sv_encode V e) = Inr e)"

definition author_str :: "Sealer \<Rightarrow> bool" where
  "author_str s \<longleftrightarrow> (case sr_author s of None \<Rightarrow> True | Some a \<Rightarrow> is_str (au_member_id a))"

definition set_ok :: "SealerSet \<Rightarrow> bool" where
  "set_ok S \<longleftrightarrow> list_all (\<lambda>s. sr_tree_id s = ss_tree_id S \<and> author_str s) (ss_sealers S)"

lemma header_aad_hash [simp]: "header_aad v (h\<lparr>h_ciphertext_hash := x\<rparr>) = header_aad v h"
  by (simp add: header_aad_def)

lemma cipher_call_Inr: "cipher_call f want err k n a d = Inr r \<longleftrightarrow> length n = want \<and> f k n a d = Some r"
  by (auto simp: cipher_call_def check_nonce_def split: option.splits)

lemma open_header_iff:
  assumes "cipher_ok C"
  shows "open_header C v h k c = Inr p \<longleftrightarrow> seal_header C v h k p = Inr c"
proof -
  have "xchacha_open C k n a c = Inr p \<longleftrightarrow> xchacha_seal C k n a p = Inr c"
    "aesgcm_open C k n a c = Inr p \<longleftrightarrow> aesgcm_seal C k n a p = Inr c" for n a
    using assms unfolding cipher_ok_def xchacha_open_def xchacha_seal_def aesgcm_open_def aesgcm_seal_def
      cipher_call_Inr by blast+
  then show ?thesis
    by (simp add: open_header_def seal_header_def Let_def split: option.split Aead.split)
qed

lemma seal_header_hash [simp]: "seal_header C v (h\<lparr>h_ciphertext_hash := x\<rparr>) k p = seal_header C v h k p"
  by (simp add: seal_header_def Let_def split: option.split Aead.split)

lemma attribute_keeps [simp]:
  "h_tree_id (attribute C P p h) = h_tree_id h" "h_key_id (attribute C P p h) = h_key_id h"
  "h_kind (attribute C P p h) = h_kind h" "h_author_member_id (attribute C P p h) = h_author_member_id h"
  by (simp_all add: attribute_def split: option.split)

lemma sealed_envelope:
  assumes "cipher_ok C" "seal_envelope C fill dek P p = Inr env"
  shows "\<exists>h. en_header env = Some h \<and> h_tree_id h = sp_tree_id P \<and> h_key_id h = sp_key_id P \<and>
    h_kind h = kind_value (sp_kind P) \<and>
    h_author_member_id h = (case sp_author P of None \<Rightarrow> [] | Some a \<Rightarrow> au_member_id a) \<and>
    open_envelope C dek env = Inr p"
proof -
  obtain nonce c where
    sealed: "seal_header C (sp_version P) (attribute C P p (header_of nonce P)) dek p = Inr c"
    and env: "env = \<lparr>en_version = sp_version P,
      en_header = Some ((attribute C P p (header_of nonce P))\<lparr>h_ciphertext_hash := cy_sha C c\<rparr>),
      en_ciphertext = c\<rparr>"
    using assms(2)
    by (auto simp: seal_envelope_def seal_envelope_with_nonce_def Let_def split: sum.splits if_splits)
  have "open_envelope C dek env = Inr p"
    using sealed open_header_iff [OF assms(1)] by (simp add: open_envelope_def env)
  then show ?thesis by (simp add: env header_of_def)
qed

lemma sealer_seal_facts:
  assumes "cipher_ok (sv_cipher V)" "codec_ok V" "author_str s" "sealer_seal V g s ctx p = Inr out"
  shows "\<exists>env h. sv_decode V (so_envelope out) = Inr env \<and> en_header env = Some h \<and>
    h_tree_id h = sr_tree_id s \<and> h_key_id h = sr_key_id s \<and>
    h_kind h = kind_value (to_proto (cx_kind ctx)) \<and> open_envelope (sv_cipher V) (sr_dek s) env = Inr p"
proof -
  obtain env where env: "seal_envelope (sv_cipher V) (\<lambda>n. snd (sv_fill V g n)) (sr_dek s) (params_of s ctx) p = Inr env"
    and out: "so_envelope out = sv_encode V env"
    using assms(4) by (auto simp: sealer_seal_def split: sum.splits option.splits)
  obtain h where h: "en_header env = Some h" "h_tree_id h = sr_tree_id s" "h_key_id h = sr_key_id s"
      "h_kind h = kind_value (to_proto (cx_kind ctx))"
      "h_author_member_id h = (case sr_author s of None \<Rightarrow> [] | Some a \<Rightarrow> au_member_id a)"
      "open_envelope (sv_cipher V) (sr_dek s) env = Inr p"
    using sealed_envelope [OF assms(1) env] by (auto simp: params_of_def)
  have "is_str (h_author_member_id h)"
    using assms(3) h(5) by (auto simp: author_str_def is_str_def string_bytes_def split: option.splits)
  then have "sv_decode V (so_envelope out) = Inr env" using assms(2) h(1) by (simp add: codec_ok_def out)
  then show ?thesis using h by blast
qed

subsection \<open>Rotations\<close>

text \<open>Every epoch that could be read still can, with the same key.\<close>

definition keeps :: "Sealer list \<Rightarrow> Sealer list \<Rightarrow> bool" where
  "keeps xs ys \<longleftrightarrow>
     (\<forall>k s. find (\<lambda>s. sr_key_id s = k) xs = Some s \<longrightarrow>
        (\<exists>t. find (\<lambda>s. sr_key_id s = k) ys = Some t \<and> sr_dek t = sr_dek s \<and> sr_tree_id t = sr_tree_id s \<and>
           sr_key_id t = sr_key_id s))"

lemma keeps_refl [simp]: "keeps xs xs"
  by (simp add: keeps_def)

lemma keeps_trans: "keeps xs ys \<Longrightarrow> keeps ys zs \<Longrightarrow> keeps xs zs"
  unfolding keeps_def by (metis (no_types, lifting))

lemma keeps_append: "keeps xs (xs @ ys)"
proof -
  have "find p xs = Some s \<Longrightarrow> find p (xs @ ys) = Some s" for p and s :: Sealer
    by (induction xs) auto
  then show ?thesis by (auto simp: keeps_def)
qed

lemma keeps_update_first:
  assumes "\<And>s. sr_key_id (f s) = sr_key_id s \<and> sr_dek (f s) = sr_dek s \<and> sr_tree_id (f s) = sr_tree_id s"
  shows "keeps xs (update_first p f xs)"
  using assms by (induction xs) (auto simp: keeps_def)

lemma keeps_append_trans: "keeps (xs @ ys) zs \<Longrightarrow> keeps xs zs"
  using keeps_trans [OF keeps_append] .

lemma keeps_splice: "keeps ss (fst (splice_epochs t r es ss n))"
proof (induction es arbitrary: ss n)
  case (Cons e es)
  obtain k dek where "e = (k, dek)" by (cases e)
  then show ?case using Cons.IH keeps_append_trans [OF Cons.IH] by simp
qed simp

lemma adopt_keeps:
  "keeps (ss_sealers S) (ss_sealers (fst (adopt_epochs es wk gref S)))"
  "ss_tree_id (fst (adopt_epochs es wk gref S)) = ss_tree_id S"
proof -
  let ?taken = "update_first (\<lambda>s. sr_key_id s = ss_write_key_id S) (\<lambda>s. s\<lparr>sr_author := None\<rparr>) (ss_sealers S)"
  have "keeps (ss_sealers S) ?taken" by (rule keeps_update_first) simp
  then have spliced: "keeps (ss_sealers S) (fst (splice_epochs t r es ?taken 0))" for t r
    using keeps_trans keeps_splice by blast
  have after: "keeps (ss_sealers S) (update_first p (set_author k m g) ss)"
    if "splice_epochs t r es ?taken 0 = (ss, n)" for t r ss n p k m g
  proof (rule keeps_trans)
    show "keeps (ss_sealers S) ss" using spliced [of t r] that by simp
    show "keeps ss (update_first p (set_author k m g) ss)"
      by (rule keeps_update_first) (simp add: set_author_def)
  qed
  show "keeps (ss_sealers S) (ss_sealers (fst (adopt_epochs es wk gref S)))"
  proof -
    let ?r = "case ss_sealers S of [] \<Rightarrow> [] | s # _ \<Rightarrow> sr_replica_id s"
    obtain ss n where sp: "splice_epochs (ss_tree_id S) ?r es ?taken 0 = (ss, n)" by fastforce
    let ?a = "case find (\<lambda>s. sr_key_id s = ss_write_key_id S) (ss_sealers S) of None \<Rightarrow> None | Some s \<Rightarrow> sr_author s"
    have "ss_sealers (fst (adopt_epochs es wk gref S)) =
        (case ?a of None \<Rightarrow> ss
         | Some a \<Rightarrow> update_first (\<lambda>s. sr_key_id s = wk)
             (set_author (au_signing_key a) (au_member_id a) gref) ss)"
      using sp unfolding adopt_epochs_def Let_def by simp
    then show ?thesis
      using spliced [of "ss_tree_id S" ?r] after [OF sp] by (cases ?a) (simp_all add: sp)
  qed
  show "ss_tree_id (fst (adopt_epochs es wk gref S)) = ss_tree_id S"
    by (simp add: adopt_epochs_def Let_def split: prod.split)
qed

definition rotate_all :: "SealerSet \<Rightarrow> ((bytes \<times> bytes) list \<times> bytes \<times> bytes) list \<Rightarrow> SealerSet" where
  "rotate_all = foldl (\<lambda>S (es, wk, gref). fst (adopt_epochs es wk gref S))"

lemma rotate_keeps:
  "keeps (ss_sealers S) (ss_sealers (rotate_all S rs)) \<and> ss_tree_id (rotate_all S rs) = ss_tree_id S"
proof (induction rs arbitrary: S)
  case (Cons r rs)
  obtain es wk gref where "r = (es, wk, gref)" by (cases r)
  then show ?case
    using Cons.IH [of "fst (adopt_epochs es wk gref S)"] adopt_keeps(1) [of S es wk gref] adopt_keeps(2) [of es wk gref S] keeps_trans
    by (fastforce simp: rotate_all_def)
qed (simp add: rotate_all_def)

lemma set_seal_opens:
  assumes "cipher_ok (sv_cipher V)" "codec_ok V" "set_ok S" "set_seal V g S ctx p = Inr out"
  shows "set_open V (rotate_all S rotations) kind (so_envelope out) =
    (if kind = cx_kind ctx then Inr p else Inl WrongKind)"
proof -
  obtain s where s: "find (\<lambda>s. sr_key_id s = ss_write_key_id S) (ss_sealers S) = Some s"
      "sealer_seal V g s ctx p = Inr out"
    using assms(4) by (auto simp: set_seal_def split: option.splits)
  then have "s \<in> set (ss_sealers S)" by (auto simp: find_Some_iff)
  then have s_ok: "author_str s" "sr_tree_id s = ss_tree_id S" using assms(3) by (auto simp: set_ok_def list_all_iff)
  obtain env h where h: "sv_decode V (so_envelope out) = Inr env" "en_header env = Some h"
      "h_tree_id h = ss_tree_id S" "h_key_id h = sr_key_id s" "h_kind h = kind_value (to_proto (cx_kind ctx))"
      "open_envelope (sv_cipher V) (sr_dek s) env = Inr p"
    using sealer_seal_facts [OF assms(1,2) s_ok(1) s(2)] s_ok(2) by auto
  have "sr_key_id s = ss_write_key_id S" using s(1) by (auto simp: find_Some_iff)
  then obtain t where t: "find (\<lambda>t. sr_key_id t = sr_key_id s) (ss_sealers (rotate_all S rotations)) = Some t"
      "sr_dek t = sr_dek s" "sr_tree_id t = ss_tree_id S" "sr_key_id t = sr_key_id s"
    using s(1) s_ok(2) rotate_keeps [of S rotations] unfolding keeps_def by metis
  show ?thesis
    using h t rotate_keeps [of S rotations]
    by (auto simp: set_open_def sealer_open_def check_scope_def)
qed

text \<open>C6: what a session seals opens again, however the keys rotate: under any later adoption of
  epochs the envelope opens to the sealed text as the kind it was sealed as, and as no other.\<close>

theorem sealed_survives_rotation:
  assumes "cipher_ok (sv_cipher V)" "codec_ok V" "set_ok S" "set_seal V g S ctx p = Inr out"
  shows "set_open V (rotate_all S rotations) kind (so_envelope out) =
    (if kind = cx_kind ctx then Inr p else Inl WrongKind)"
  by (rule set_seal_opens [OF assms])

text \<open>C7: what opens was sealed: an envelope opens only under a key of the set that its header names,
  for the set's tree and the kind the reader expects, and its ciphertext is what sealing this
  very header and text under that key gives.\<close>

theorem opened_was_sealed:
  assumes "cipher_ok (sv_cipher V)" "set_open V S kind b = Inr p"
  shows "\<exists>env h s. sv_decode V b = Inr env \<and> en_header env = Some h \<and> s \<in> set (ss_sealers S) \<and>
    h_tree_id h = ss_tree_id S \<and> h_key_id h = sr_key_id s \<and> h_kind h = kind_value (to_proto kind) \<and>
    h_ciphertext_hash h = cy_sha (sv_cipher V) (en_ciphertext env) \<and>
    seal_header (sv_cipher V) (en_version env) h (sr_dek s) p = Inr (en_ciphertext env)"
proof -
  obtain env h s where *: "sv_decode V b = Inr env" "en_header env = Some h"
      "h_tree_id h = ss_tree_id S" "find (\<lambda>s. sr_key_id s = h_key_id h) (ss_sealers S) = Some s"
      "from_proto (h_kind h) = Some kind" "open_envelope (sv_cipher V) (sr_dek s) env = Inr p"
    using assms(2) by (auto simp: set_open_def sealer_open_def split: sum.splits option.splits if_splits)
  have "h_kind h = kind_value (to_proto kind)"
    using *(5) kind_try_from_Some [of "h_kind h"] by (auto simp: from_proto_def split: option.splits Kind.splits)
  moreover have "s \<in> set (ss_sealers S)" "h_key_id h = sr_key_id s" using *(4) by (auto simp: find_Some_iff)
  moreover have "h_ciphertext_hash h = cy_sha (sv_cipher V) (en_ciphertext env)"
      "open_header (sv_cipher V) (en_version env) h (sr_dek s) (en_ciphertext env) = Inr p"
    using *(2,6) by (auto simp: open_envelope_def split: if_splits)
  ultimately show ?thesis using * open_header_iff [OF assms(1)] by auto
qed

end
