(* ===== verification/Sealer_Seam.thy ===== *)
theory Sealer_Seam
  imports Sealer Docsync_Publish
begin

text \<open>
  The session as the sealer of the sync loop: the contract of the seam holds of the adapter in
  \<open>packages/openom-docsync/src/sync.rs\<close> over any ciphers that do what they document.  An
  executable cipher and codec, the witnesses over them, and how a session can lose its author.
\<close>

lemma adapter_kind_inj: "adapter_kind a = adapter_kind b \<Longrightarrow> a = b"
  by (cases a; cases b) simp_all

lemma set_open_kind:
  assumes "set_open V S a b = Inr x" "set_open V S c b = Inr y"
  shows "a = c"
  using assms by (auto simp: set_open_def sealer_open_def split: sum.splits option.splits if_splits)

lemma boxed_Inr [simp]: "boxed r = Inr x \<longleftrightarrow> r = Inr x"
  by (simp add: boxed_def split: sum.split)

lemma adapter_strict:
  assumes "cipher_ok (sv_cipher V)" "codec_ok V"
  shows "kind_strict_sealer (adapter_ops V) (\<lambda>k. set_ok (fst k))"
proof
  fix k k' :: "'a session" and ctx pt out
  assume ok: "set_ok (fst k)" and seal: "se_seal (adapter_ops V) k ctx pt = (k', Inr out)"
  obtain S g where k: "k = (S, g)" by (cases k)
  obtain o' where o': "set_seal V g S (adapter_ctx ctx) pt = Inr o'" "sl_envelope out = so_envelope o'" "fst k' = S"
    using seal by (auto simp: adapter_ops_def adapter_seal_def k split: sum.splits)
  have "set_open V S (adapter_kind (sc_kind ctx)) (so_envelope o') = Inr pt"
    using set_seal_opens [OF assms _ o'(1), of "[]" "adapter_kind (sc_kind ctx)"] ok
    by (simp add: k rotate_all_def adapter_ctx_def)
  then show "se_open (adapter_ops V) k' (sc_kind ctx) (sl_envelope out) = Inr pt"
    by (simp add: adapter_ops_def adapter_open_def o')
next
  fix k k' :: "'a session" and ctx pt r
  assume "set_ok (fst k)" "se_seal (adapter_ops V) k ctx pt = (k', r)"
  then show "set_ok (fst k')" by (auto simp: adapter_ops_def adapter_seal_def split: prod.splits)
next
  fix k :: "'a session" and a b env x y
  assume "se_open (adapter_ops V) k a env = Inr x" "se_open (adapter_ops V) k b env = Inr y"
  then show "a = b"
    using set_open_kind [of V "fst k" "adapter_kind a" env x "adapter_kind b" y] adapter_kind_inj
    by (simp add: adapter_ops_def adapter_open_def)
qed

lemma adapter_keeps_open: "seal_keeps_open (adapter_ops V)"
  by (auto simp: seal_keeps_open_def adapter_ops_def adapter_seal_def adapter_open_def split: prod.split)

subsection \<open>An executable cipher and codec\<close>

text \<open>Fields framed by their length in unary.\<close>

definition framed :: "bytes \<Rightarrow> bytes" where
  "framed f = replicate (length f) 1 @ 0 # f"

definition unframe :: "bytes \<Rightarrow> bytes \<times> bytes" where
  "unframe b =
     (let n = length (takeWhile (\<lambda>x. x = 1) b) in (take n (drop (Suc n) b), drop (Suc (n + n)) b))"

fun unframes :: "nat \<Rightarrow> bytes \<Rightarrow> bytes list" where
  "unframes 0 b = []"
| "unframes (Suc k) b = fst (unframe b) # unframes k (snd (unframe b))"

lemma unframe_frame [simp]: "unframe (framed f @ r) = (f, r)"
proof -
  have "takeWhile (\<lambda>x. x = 1) (replicate n 1 @ 0 # s) = replicate n (1 :: u8)" for n s
    by (induction n) simp_all
  then show ?thesis by (simp add: unframe_def framed_def Let_def)
qed

lemma unframes_frames: "length fs = k \<Longrightarrow> unframes k (concat (map framed fs)) = fs"
  by (induction fs arbitrary: k) auto

definition int_bytes :: "int \<Rightarrow> bytes" where
  "int_bytes t = (if 0 \<le> t then replicate (nat t) 1 else 0 # replicate (nat (- t)) 1)"

definition bytes_int :: "bytes \<Rightarrow> int" where
  "bytes_int b = (case b of [] \<Rightarrow> 0 | x # r \<Rightarrow> if x = 0 then - int (length r) else int (length b))"

lemma bytes_int_bytes [simp]: "bytes_int (int_bytes t) = t"
proof (cases "0 < t")
  case True
  then obtain n where "nat t = Suc n" by (cases "nat t") auto
  then show ?thesis using True by (simp add: bytes_int_def int_bytes_def)
qed (simp add: bytes_int_def int_bytes_def)

definition header_fields :: "Header \<Rightarrow> bytes list" where
  "header_fields h =
     [int_bytes (h_kind h), int_bytes (h_format h), int_bytes (h_aead h), int_bytes (h_compression h),
      h_key_id h, h_nonce h, h_tree_id h, h_replica_id h, u64_be (h_replica_counter h),
      h_ciphertext_hash h, h_prev_ciphertext_hash h, u64_be (h_covers_through_seq h),
      h_replaces_ciphertext_hash h, h_author_signature h, string_bytes (h_author_member_id h),
      h_governing_ref h, h_blob_id h]"

definition fields_header :: "bytes list \<Rightarrow> Header" where
  "fields_header f =
     \<lparr>h_kind = bytes_int (f ! 0), h_format = bytes_int (f ! 1), h_aead = bytes_int (f ! 2),
      h_compression = bytes_int (f ! 3), h_key_id = f ! 4, h_nonce = f ! 5, h_tree_id = f ! 6,
      h_replica_id = f ! 7, h_replica_counter = of_nat (nat_of_be (f ! 8)), h_ciphertext_hash = f ! 9,
      h_prev_ciphertext_hash = f ! 10, h_covers_through_seq = of_nat (nat_of_be (f ! 11)),
      h_replaces_ciphertext_hash = f ! 12, h_author_signature = f ! 13,
      h_author_member_id = bytes_string (f ! 14), h_governing_ref = f ! 15, h_blob_id = f ! 16\<rparr>"

lemma fields_header_fields [simp]: "fields_header (header_fields h) = h"
  by (simp add: fields_header_def header_fields_def)

definition demo_encode :: "Envelope \<Rightarrow> bytes" where
  "demo_encode e =
     (case en_header e of
        None \<Rightarrow> 0 # concat (map framed [u32_be (en_version e), en_ciphertext e])
      | Some h \<Rightarrow> 1 # concat (map framed (u32_be (en_version e) # en_ciphertext e # header_fields h)))"

definition demo_decode :: "bytes \<Rightarrow> string + Envelope" where
  "demo_decode b =
     (case b of
        [] \<Rightarrow> Inl ''empty''
      | t # r \<Rightarrow>
          let f = unframes (if t = 0 then 2 else 19) r
          in Inr \<lparr>en_version = of_nat (nat_of_be (f ! 0)),
                  en_header = (if t = 0 then None else Some (fields_header (drop 2 f))),
                  en_ciphertext = f ! 1\<rparr>)"

lemma demo_decode_encode [simp]: "demo_decode (demo_encode e) = Inr e"
proof (cases "en_header e")
  case None
  have "unframes 2 (concat (map framed [u32_be (en_version e), en_ciphertext e])) = [u32_be (en_version e), en_ciphertext e]"
    by (rule unframes_frames) simp
  then show ?thesis using None by (simp add: demo_decode_def demo_encode_def)
next
  case (Some h)
  have "unframes 19 (concat (map framed (u32_be (en_version e) # en_ciphertext e # header_fields h))) =
      u32_be (en_version e) # en_ciphertext e # header_fields h"
    by (rule unframes_frames) (simp add: header_fields_def)
  then show ?thesis using Some by (simp add: demo_decode_def demo_encode_def)
qed

definition strip_bytes :: "bytes \<Rightarrow> bytes \<Rightarrow> bytes option" where
  "strip_bytes p c = (if prefix p c then Some (drop (length p) c) else None)"

definition demo_cipher :: cipher_env where
  "demo_cipher =
     (let pack = (\<lambda>k n a p. Some (concat (map framed [k, n, a]) @ p));
          unpack = (\<lambda>k n a c. strip_bytes (concat (map framed [k, n, a])) c)
      in \<lparr>cy_xchacha_seal = pack, cy_xchacha_open = unpack, cy_aesgcm_seal = pack, cy_aesgcm_open = unpack,
          cy_sha = (\<lambda>b. [of_nat (length b)]), cy_sign = (\<lambda>k m. k @ m)\<rparr>)"

definition demo_session_env :: "nat sealer_env" where
  "demo_session_env =
     \<lparr>sv_cipher = demo_cipher, sv_encode = demo_encode, sv_decode = demo_decode,
      sv_fill = (\<lambda>g n. (Suc g, Inr (replicate n (of_nat g))))\<rparr>"

lemma strip_bytes_iff: "strip_bytes p c = Some r \<longleftrightarrow> p @ r = c"
  by (auto simp: strip_bytes_def prefix_def)

lemma demo_cipher_ok: "cipher_ok (sv_cipher demo_session_env)"
  by (simp add: cipher_ok_def demo_session_env_def demo_cipher_def Let_def strip_bytes_iff)

lemma demo_seam_codec_ok: "codec_ok demo_session_env"
  by (simp add: codec_ok_def demo_session_env_def)

interpretation session: kind_strict_sealer "adapter_ops demo_session_env" "\<lambda>k. set_ok (fst k)"
  by (rule adapter_strict [OF demo_cipher_ok demo_seam_codec_ok])

text \<open>Two epochs, an author on the second one, and two rotations.\<close>

definition demo_set :: SealerSet where
  "demo_set =
     set_with_author [5] ''m'' [0, 0, 0, 1] (sealer_set_new [7] [3] [([1], [11]), ([2], [12])] [2])"

definition demo_rotations :: "((bytes \<times> bytes) list \<times> bytes \<times> bytes) list" where
  "demo_rotations = [([([4], [14])], [4], [0, 0, 0, 2]), ([([2], [12]), ([6], [16])], [6], [0, 0, 0, 3])]"

lemma demo_set_simps: "demo_set = \<lparr>ss_tree_id = [7], ss_write_key_id = [2],
    ss_sealers = [from_unwrapped 1 [11] [7] [1] [3], set_author [5] ''m'' [0, 0, 0, 1] (from_unwrapped 1 [12] [7] [2] [3])]\<rparr>"
  by (simp add: demo_set_def set_with_author_def sealer_set_new_def ENVELOPE_VERSION_def from_unwrapped_def set_author_def)

lemma demo_set_ok: "set_ok demo_set"
  by (simp add: demo_set_simps set_ok_def author_str_def from_unwrapped_def set_author_def is_str_def string_bytes_def)

lemma demo_seal_header:
  assumes "h_aead h = 2" "length (h_nonce h) = 24"
  shows "\<exists>c. seal_header demo_cipher v h k p = Inr c"
  using assms by (simp add: seal_header_def aead_try_from_def xchacha_seal_def cipher_call_def
      check_nonce_def demo_cipher_def Let_def)

lemma demo_sealer_seals:
  assumes "sr_aead s = Xchacha20Poly1305"
  shows "\<exists>out. sealer_seal demo_session_env g s ctx p = Inr out"
proof -
  let ?P = "params_of s ctx" and ?n = "replicate 24 (of_nat g) :: bytes"
  let ?h = "attribute demo_cipher ?P p (header_of ?n ?P)"
  have "h_aead ?h = 2" "length (h_nonce ?h) = 24"
    using assms by (simp_all add: attribute_def header_of_def params_of_def split: option.split)
  then obtain c where "seal_header demo_cipher (sp_version ?P) ?h (sr_dek s) p = Inr c"
    using demo_seal_header by blast
  then show ?thesis
    using assms by (simp add: sealer_seal_def seal_envelope_def seal_envelope_with_nonce_def
        demo_session_env_def params_of_def Let_def)
qed

lemma demo_sealed: "\<exists>out. set_seal demo_session_env 0 demo_set (ctx_media [8]) [42] = Inr out"
  using demo_sealer_seals by (simp add: set_seal_def demo_set_simps from_unwrapped_def set_author_def)

theorem sealed_survives_rotation_witness:
  "\<exists>out. set_seal demo_session_env 0 demo_set (ctx_media [8]) [42] = Inr out \<and>
     set_open demo_session_env (rotate_all demo_set demo_rotations) SKMedia (so_envelope out) = Inr [42] \<and>
     set_open demo_session_env (rotate_all demo_set demo_rotations) SKDelta (so_envelope out) = Inl WrongKind"
proof -
  obtain out where out: "set_seal demo_session_env 0 demo_set (ctx_media [8]) [42] = Inr out"
    using demo_sealed by blast
  show ?thesis
    using sealed_survives_rotation [OF demo_cipher_ok demo_seam_codec_ok demo_set_ok out] out
    by (intro exI [of _ out]) (simp add: ctx_media_def)
qed

theorem opened_was_sealed_witness:
  "\<exists>out env h. set_seal demo_session_env 0 demo_set (ctx_media [8]) [42] = Inr out \<and>
     demo_decode (so_envelope out) = Inr env \<and> en_header env = Some h \<and> h_tree_id h = [7]"
proof -
  obtain out where out: "set_seal demo_session_env 0 demo_set (ctx_media [8]) [42] = Inr out"
    using demo_sealed by blast
  have opens: "set_open demo_session_env demo_set SKMedia (so_envelope out) = Inr [42]"
    using set_seal_opens [OF demo_cipher_ok demo_seam_codec_ok demo_set_ok out, of "[]" SKMedia]
    by (simp add: rotate_all_def ctx_media_def)
  show ?thesis
    using opened_was_sealed [OF demo_cipher_ok opens] out
    by (auto simp: demo_set_simps) (auto simp: demo_session_env_def)
qed

subsection \<open>Losing the author\<close>

definition unattributed :: "Sealer list \<Rightarrow> bool" where
  "unattributed ss \<longleftrightarrow> list_all (\<lambda>s. sr_author s = None) ss"

lemma unattributed_splice: "unattributed ss \<Longrightarrow> unattributed (fst (splice_epochs t r es ss n))"
  by (induction t r es ss n rule: splice_epochs.induct) (auto simp: unattributed_def from_unwrapped_def)

lemma unattributed_clear:
  assumes "distinct (map sr_key_id ss)" "\<forall>s \<in> set ss. sr_author s \<noteq> None \<longrightarrow> sr_key_id s = w"
  shows "unattributed (update_first (\<lambda>s. sr_key_id s = w) (\<lambda>s. s\<lparr>sr_author := None\<rparr>) ss)"
  using assms
proof (induction ss)
  case (Cons s ss)
  then show ?case
    by (cases "sr_key_id s = w") (auto simp: unattributed_def list_all_iff image_iff, metis not_None_eq)
qed (simp add: unattributed_def)

lemma update_first_absent: "find p xs = None \<Longrightarrow> update_first p f xs = xs"
  by (induction xs) (auto split: if_splits)

lemma find_update_first:
  "(\<And>s. sr_key_id (f s) = sr_key_id s) \<Longrightarrow>
   find (\<lambda>s. sr_key_id s = k) (update_first p f xs) = None \<longleftrightarrow> find (\<lambda>s. sr_key_id s = k) xs = None"
  by (induction xs) auto

lemma adopt_unattributed:
  assumes "unattributed (ss_sealers S)"
  shows "unattributed (ss_sealers (fst (adopt_epochs es wk gref S)))"
proof -
  let ?w = "\<lambda>s. sr_key_id s = ss_write_key_id S"
  have "sr_author s = None" if "find ?w (ss_sealers S) = Some s" for s
    using that assms by (auto simp: unattributed_def list_all_iff find_Some_iff)
  then have none: "(case find ?w (ss_sealers S) of None \<Rightarrow> None | Some s \<Rightarrow> sr_author s) = None"
    by (simp split: option.split)
  have "unattributed (update_first ?w (\<lambda>s. s\<lparr>sr_author := None\<rparr>) ss)" if "unattributed ss" for ss
    using that by (induction ss) (auto simp: unattributed_def)
  then show ?thesis
    using assms none unattributed_splice
    by (simp add: adopt_epochs_def Let_def split: prod.split) (metis fst_conv)
qed

text \<open>A rotation that names a write epoch which the session can not reach takes the author from the
  session for good: nothing is attributed any more, also after the epoch has arrived, although
  a shared tree refuses entries without a signature.\<close>

theorem author_lost:
  assumes "distinct (map sr_key_id (ss_sealers S))"
    and "\<forall>s \<in> set (ss_sealers S). sr_author s \<noteq> None \<longrightarrow> sr_key_id s = ss_write_key_id S"
    and "find (\<lambda>s. sr_key_id s = wk) (ss_sealers (fst (adopt_epochs es wk gref S))) = None"
  shows "unattributed (ss_sealers (rotate_all (fst (adopt_epochs es wk gref S)) rotations))"
proof -
  let ?w = "\<lambda>s. sr_key_id s = ss_write_key_id S"
  let ?r = "case ss_sealers S of [] \<Rightarrow> [] | s # _ \<Rightarrow> sr_replica_id s"
  let ?taken = "update_first ?w (\<lambda>s. s\<lparr>sr_author := None\<rparr>) (ss_sealers S)"
  obtain ss n where sp: "splice_epochs (ss_tree_id S) ?r es ?taken 0 = (ss, n)" by fastforce
  let ?a = "case find ?w (ss_sealers S) of None \<Rightarrow> None | Some s \<Rightarrow> sr_author s"
  have new: "ss_sealers (fst (adopt_epochs es wk gref S)) =
      (case ?a of None \<Rightarrow> ss
       | Some a \<Rightarrow> update_first (\<lambda>s. sr_key_id s = wk) (set_author (au_signing_key a) (au_member_id a) gref) ss)"
    using sp unfolding adopt_epochs_def Let_def by simp
  have "unattributed ss" using unattributed_splice [OF unattributed_clear [OF assms(1,2)]] sp by (metis fst_conv)
  moreover have "ss_sealers (fst (adopt_epochs es wk gref S)) = ss"
    using assms(3) find_update_first [of "set_author _ _ _" wk "\<lambda>s. sr_key_id s = wk" ss] update_first_absent
    by (cases ?a) (simp_all add: new set_author_def)
  ultimately have "unattributed (ss_sealers (fst (adopt_epochs es wk gref S)))" by simp
  then have "unattributed (ss_sealers (rotate_all T rs))" if "T = fst (adopt_epochs es wk gref S)" for T rs
    unfolding rotate_all_def that
    by (induction rs rule: rev_induct) (auto simp: adopt_unattributed split: prod.split)
  then show ?thesis by simp
qed

end
