(* ===== verification/Keyring_Api.thy ===== *)
theory Keyring_Api
  imports Prelude "HOL-Library.Multiset"
begin

unbundle bit_operations_syntax

text \<open>
  The seam over the two keyring engines (\<open>packages/openom-keyring-api/src/lib.rs\<close>): self-certifying
  member ids, the membership envelope both engines emit, the engine-neutral view of a membership
  and the verifier that admits one update against prior trust state.  SHA-256 and the protobuf
  codec are parameters.  What every verifier promises its caller is the locale
  \<open>keyring_verifier\<close>.
\<close>

subsection \<open>Member ids\<close>

definition derive_member_id_bytes :: "(bytes \<Rightarrow> bytes) \<Rightarrow> bytes \<Rightarrow> bytes" where
  "derive_member_id_bytes sha author_pubkey =
     (let b = take 16 (sha author_pubkey);
          b = b[6 := ((b ! 6) AND 0x0F) OR 0x80]
      in b[8 := ((b ! 8) AND 0x3F) OR 0x80])"

definition hex_digit :: "nat \<Rightarrow> char" where
  "hex_digit n = ''0123456789abcdef'' ! (n mod 16)"

definition hex2 :: "u8 \<Rightarrow> string" where
  "hex2 b = [hex_digit (unat b div 16), hex_digit (unat b)]"

definition derive_member_id :: "(bytes \<Rightarrow> bytes) \<Rightarrow> bytes \<Rightarrow> string" where
  "derive_member_id sha author_pubkey =
     (let h = map hex2 (derive_member_id_bytes sha author_pubkey);
          part = (\<lambda>i n. concat (take n (drop i h)))
      in part 0 4 @ ''-'' @ part 4 2 @ ''-'' @ part 6 2 @ ''-'' @ part 8 2 @ ''-'' @ part 10 6)"

subsection \<open>The membership envelope\<close>

datatype EngineKind = EngineChain | EngineDag

fun as_tag :: "EngineKind \<Rightarrow> string" where
  "as_tag EngineChain = ''chain''"
| "as_tag EngineDag = ''dag''"

definition engine_from_str :: "string \<Rightarrow> string + EngineKind" where
  "engine_from_str s =
     (if s = ''chain'' then Inr EngineChain else if s = ''dag'' then Inr EngineDag else Inl s)"

definition MEMBERSHIP_ENVELOPE_VERSION :: u32 where "MEMBERSHIP_ENVELOPE_VERSION = 1"

record MembershipEnvelope =
  me_version :: u32
  me_engine :: string
  me_body :: bytes

datatype EnvelopeError = MalformedEnvelope | UnsupportedVersion u32

definition envelope_wrap :: "EngineKind \<Rightarrow> bytes \<Rightarrow> MembershipEnvelope" where
  "envelope_wrap engine body =
     \<lparr>me_version = MEMBERSHIP_ENVELOPE_VERSION, me_engine = as_tag engine, me_body = body\<rparr>"

definition envelope_decode ::
  "(bytes \<Rightarrow> MembershipEnvelope option) \<Rightarrow> bytes \<Rightarrow> EnvelopeError + MembershipEnvelope" where
  "envelope_decode prost b =
     (case prost b of
        None \<Rightarrow> Inl MalformedEnvelope
      | Some env \<Rightarrow>
          if me_version env \<noteq> MEMBERSHIP_ENVELOPE_VERSION then Inl (UnsupportedVersion (me_version env))
          else Inr env)"

definition engine_kind :: "MembershipEnvelope \<Rightarrow> string + EngineKind" where
  "engine_kind env = engine_from_str (me_engine env)"

lemma engine_from_as_tag [simp]: "engine_from_str (as_tag k) = Inr k"
  by (cases k) (simp_all add: engine_from_str_def)

lemma envelope_round_trip:
  assumes "prost b = Some (envelope_wrap k body)"
  shows "envelope_decode prost b = Inr (envelope_wrap k body) \<and> engine_kind (envelope_wrap k body) = Inr k"
  using assms by (simp add: envelope_decode_def envelope_wrap_def engine_kind_def)

subsection \<open>The view of a membership\<close>

record EverMemberInfo =
  ev_keys_ever_held :: "bytes list"
  ev_strongest_role :: int

record MemberView =
  mv_member_id :: string
  mv_role :: int
  mv_author_public_key :: bytes
  mv_hpke_public_key :: bytes

definition API_ROLE_OWNER :: int where "API_ROLE_OWNER = 1"
definition API_ROLE_CO_OWNER :: int where "API_ROLE_CO_OWNER = 2"
definition API_ROLE_MAINTAINER :: int where "API_ROLE_MAINTAINER = 3"
definition API_ROLE_EDITOR :: int where "API_ROLE_EDITOR = 4"
definition API_ROLE_VIEWER :: int where "API_ROLE_VIEWER = 5"

lemmas api_roles = API_ROLE_OWNER_def API_ROLE_CO_OWNER_def API_ROLE_MAINTAINER_def
  API_ROLE_EDITOR_def API_ROLE_VIEWER_def

definition view_is_signer :: "MemberView \<Rightarrow> bool" where
  "view_is_signer m \<longleftrightarrow> mv_role m \<le> API_ROLE_CO_OWNER"

definition view_is_owner :: "MemberView \<Rightarrow> bool" where
  "view_is_owner m \<longleftrightarrow> mv_role m = API_ROLE_OWNER"

record MembershipView =
  vw_members :: "MemberView list"
  vw_reset_boundary :: bool

definition view_new :: "MemberView list \<Rightarrow> bool \<Rightarrow> MembershipView" where
  "view_new members reset_boundary =
     \<lparr>vw_members = sort_key mv_member_id members, vw_reset_boundary = reset_boundary\<rparr>"

definition view_signers :: "MembershipView \<Rightarrow> MemberView list" where
  "view_signers v = filter view_is_signer (vw_members v)"

definition view_owner :: "MembershipView \<Rightarrow> MemberView option" where
  "view_owner v = find view_is_owner (vw_members v)"

definition find_member :: "string \<Rightarrow> MembershipView \<Rightarrow> MemberView option" where
  "find_member i v = find (\<lambda>m. mv_member_id m = i) (vw_members v)"

lemma view_sorted [simp]: "sorted (map mv_member_id (vw_members (view_new ms b)))"
  by (simp add: view_new_def)

lemma view_new_set [simp]: "set (vw_members (view_new ms b)) = set ms"
  by (simp add: view_new_def)

lemma view_order_irrelevant:
  assumes "mset ms = mset ns" "distinct (map mv_member_id ms)"
  shows "view_new ms b = view_new ns b"
proof -
  have "inj_on mv_member_id (set ms)" using assms(2) by (simp add: distinct_map)
  then have "sort_key mv_member_id ms = sort_key mv_member_id ns"
    using assms(1) by (intro sort_key_inj_key_eq) simp_all
  then show ?thesis by (simp add: view_new_def)
qed

subsection \<open>Admission\<close>

record Admitted =
  ad_state :: bytes
  ad_view :: MembershipView
  ad_changed :: bool
  ad_tree_id :: bytes
  ad_update_ref :: bytes

datatype VerifyError =
    VMalformed | VUnauthenticated | VStale | VUnauthorized | VSharedRegressed | VRollback

type_synonym admission = "bytes option \<Rightarrow> bytes \<Rightarrow> VerifyError + Admitted"

text \<open>A server's life: every accepted update replaces the trust state, a refused one leaves it.\<close>

fun admit_run :: "admission \<Rightarrow> bytes \<Rightarrow> bytes list \<Rightarrow> bytes \<times> Admitted list" where
  "admit_run admit s [] = (s, [])"
| "admit_run admit s (u # us) =
     (case admit (Some s) u of
        Inl e \<Rightarrow> admit_run admit s us
      | Inr a \<Rightarrow> (case admit_run admit (ad_state a) us of (t, as) \<Rightarrow> (t, a # as)))"

text \<open>What a verifier promises: \<open>members_at\<close> is the membership that a trust state stands for.\<close>

locale keyring_verifier =
  fixes admit :: admission
    and members_at :: "bytes \<Rightarrow> MemberView list option"
  assumes state_stands: "admit p u = Inr a \<Longrightarrow> members_at (ad_state a) = Some (vw_members (ad_view a))"
    and view_canonical: "admit p u = Inr a \<Longrightarrow> sorted (map mv_member_id (vw_members (ad_view a)))"
    and first_sight: "admit None u = Inr a \<Longrightarrow> ad_changed a \<and> \<not> vw_reset_boundary (ad_view a)"
    and change_honest: "admit (Some s) u = Inr a \<Longrightarrow> members_at s = Some ms \<Longrightarrow> \<not> ad_changed a \<Longrightarrow>
      vw_members (ad_view a) = ms"
begin

lemma run_members:
  assumes "members_at s \<noteq> None" "admit_run admit s us = (t, as)"
  shows "members_at t = (if as = [] then members_at s else Some (vw_members (ad_view (last as))))"
  using assms
proof (induction us arbitrary: s t as)
  case (Cons u us)
  show ?case
  proof (cases "admit (Some s) u")
    case (Inr a)
    obtain t' as' where r: "admit_run admit (ad_state a) us = (t', as')" by fastforce
    have "members_at (ad_state a) = Some (vw_members (ad_view a))" using state_stands [OF Inr] .
    then show ?thesis using Cons.IH [OF _ r] Cons.prems(2) r by (auto simp: Inr)
  qed (use Cons in simp)
qed simp

lemma run_unchanged:
  assumes "members_at s = Some ms" "admit_run admit s us = (t, as)" "\<forall>a \<in> set as. \<not> ad_changed a"
  shows "members_at t = Some ms"
  using assms
proof (induction us arbitrary: s t as)
  case (Cons u us)
  show ?case
  proof (cases "admit (Some s) u")
    case (Inr a)
    obtain t' as' where r: "admit_run admit (ad_state a) us = (t', as')" by fastforce
    have "members_at (ad_state a) = Some ms"
      using state_stands [OF Inr] change_honest [OF Inr Cons.prems(1)] Cons.prems(2,3) r by (auto simp: Inr)
    then show ?thesis using Cons.IH [OF _ r] Cons.prems(2,3) r by (auto simp: Inr)
  qed (use Cons in simp)
qed simp

end

end
