(* ===== verification/Keyring_Chain.thy ===== *)
theory Keyring_Chain
  imports Chain Key_Material Keyring_Api
begin

text \<open>
  The openom binding of the linear engine (\<open>packages/openom-keyring-chain\<close>): the keyring message
  (\<open>src/wire.rs\<close>), its view as an engine document with the payload commitment and the structure
  gate (\<open>src/doc.rs\<close>), signing (\<open>src/keyring.rs\<close>), the successor check with the monotone sharing
  marker (\<open>src/chain.rs\<close>) and the keyless verifier of the server (\<open>src/verifier.rs\<close>).  Ed25519,
  SHA-256 and the two codecs (protobuf for the keyring, postcard for the key material and for the
  engine's identifiers) are the environment.
\<close>

subsection \<open>The keyring message\<close>

definition KEYRING_LAYOUT_VERSION :: u32 where "KEYRING_LAYOUT_VERSION = 1"
definition MEMBER_OWNER :: int where "MEMBER_OWNER = 1"
definition MEMBER_CO_OWNER :: int where "MEMBER_CO_OWNER = 2"
definition MAX_MEMBERS :: int where "MAX_MEMBERS = 4096"
definition MAX_EPOCHS :: int where "MAX_EPOCHS = 4096"
definition MAX_KEY_MATERIAL_BYTES :: int where "MAX_KEY_MATERIAL_BYTES = 4 * 1024 * 1024"

record Member =
  m_member_id :: string
  m_role :: int
  m_author_public_key :: bytes
  m_hpke_public_key :: bytes

record KeyringSignature =
  ks_signer_public_key :: bytes
  ks_signature :: bytes

record RecoveryKey =
  rk_public_key :: bytes
  rk_member_id :: string
  rk_wraps :: bytes
  rk_recovery_verifying_key :: bytes

record Keyring =
  k_tree_id :: bytes
  k_epochs :: bytes
  k_revision :: u32
  k_layout_version :: u32
  k_prev_keyring_hash :: bytes
  k_members :: "Member list"
  k_signatures :: "KeyringSignature list"
  k_recovery_keys :: "RecoveryKey list"
  k_governance_kind :: u32
  k_governance_threshold :: u32
  k_first_shared_revision :: u32

record keyring_env =
  kv_verify :: "bytes \<Rightarrow> bytes \<Rightarrow> bytes \<Rightarrow> bool"
  kv_accepts :: "bytes \<Rightarrow> bool"
  kv_sha :: "bytes \<Rightarrow> bytes"
  kv_id_bytes :: "string \<Rightarrow> bytes"
  kv_role_bytes :: "int \<Rightarrow> bytes"
  kv_decode_epochs :: "bytes \<Rightarrow> string Epoch list option"
  kv_decode_wraps :: "bytes \<Rightarrow> string Wrap list option"
  kv_decode :: "bytes \<Rightarrow> Keyring option"
  kv_encode :: "Keyring \<Rightarrow> bytes"
  kv_decode_envelope :: "bytes \<Rightarrow> MembershipEnvelope option"
  kv_public :: "bytes \<Rightarrow> bytes"
  kv_sign :: "bytes \<Rightarrow> bytes \<Rightarrow> bytes"

definition key_material :: "keyring_env \<Rightarrow> Keyring \<Rightarrow> string Epoch list option" where
  "key_material V k =
     (if int (length (k_epochs k)) > MAX_KEY_MATERIAL_BYTES then None else kv_decode_epochs V (k_epochs k))"

definition escrow_wraps :: "keyring_env \<Rightarrow> RecoveryKey \<Rightarrow> string Wrap list option" where
  "escrow_wraps V rk =
     (if int (length (rk_wraps rk)) > MAX_KEY_MATERIAL_BYTES then None else kv_decode_wraps V (rk_wraps rk))"

subsection \<open>The keyring as a document of the engine\<close>

definition role_is_founder :: "int \<Rightarrow> bool" where
  "role_is_founder r \<longleftrightarrow> r = MEMBER_OWNER"

definition role_is_signer :: "int \<Rightarrow> bool" where
  "role_is_signer r \<longleftrightarrow> 1 \<le> r \<and> r \<le> 2"

text \<open>\<open>i16::try_from(role).unwrap_or(i16::MAX)\<close>.\<close>

definition i16_role :: "int \<Rightarrow> int" where
  "i16_role r = (if - 32768 \<le> r \<and> r \<le> 32767 then r else 32767)"

definition to_pk32 :: "bytes \<Rightarrow> bytes" where
  "to_pk32 b = take 32 b @ replicate (32 - length b) 0"

definition binding_env :: "keyring_env \<Rightarrow> (string, int, bytes, bytes) chain_env" where
  "binding_env V =
     \<lparr>ce_scheme = \<lparr>sg_verify = kv_verify V, sg_accepts = kv_accepts V, sg_key_bytes = (\<lambda>k. k)\<rparr>,
      ce_sha = kv_sha V, ce_founder = role_is_founder, ce_signer = role_is_signer,
      ce_id_bytes = kv_id_bytes V, ce_role_bytes = kv_role_bytes V\<rparr>"

definition PAYLOAD_TAG :: bytes where "PAYLOAD_TAG = string_bytes ''openom:keyring:payload:v1''"

definition put_member :: "Member \<Rightarrow> bytes" where
  "put_member m =
     put_bytes (string_bytes (m_member_id m)) @ u32_be (tag_u32 (m_role m)) @
     put_bytes (m_author_public_key m) @ put_bytes (m_hpke_public_key m)"

definition put_recovery_key :: "RecoveryKey \<Rightarrow> bytes" where
  "put_recovery_key rk =
     put_bytes (rk_public_key rk) @ put_bytes (string_bytes (rk_member_id rk)) @
     put_bytes (rk_wraps rk) @ put_bytes (rk_recovery_verifying_key rk)"

definition payload_bytes :: "Keyring \<Rightarrow> bytes" where
  "payload_bytes k =
     put_bytes PAYLOAD_TAG @ put_bytes (k_tree_id k) @ u32_be (k_revision k) @
     u32_be (k_layout_version k) @ put_bytes (k_prev_keyring_hash k) @
     u32_be (sat_u32 (length (k_members k))) @ concat (map put_member (k_members k)) @
     put_bytes (k_epochs k) @
     u32_be (sat_u32 (length (k_recovery_keys k))) @ concat (map put_recovery_key (k_recovery_keys k)) @
     u32_be (k_governance_kind k) @ u32_be (k_governance_threshold k) @
     u32_be (k_first_shared_revision k)"

definition payload_commit :: "keyring_env \<Rightarrow> Keyring \<Rightarrow> bytes" where
  "payload_commit V k = kv_sha V (payload_bytes k)"

text \<open>\<open>max_by_key\<close> keeps the last of several maxima.\<close>

definition newest_epoch :: "string Epoch list \<Rightarrow> string Epoch option" where
  "newest_epoch es =
     foldl (\<lambda>best e. case best of
              None \<Rightarrow> Some e
            | Some b \<Rightarrow> if ep_ordinal b \<le> ep_ordinal e then Some e else Some b) None es"

definition find_owner :: "Member list \<Rightarrow> Member option" where
  "find_owner ms = find (\<lambda>m. m_role m = MEMBER_OWNER) ms"

definition wrap_complete :: "string Epoch list \<Rightarrow> Member list \<Rightarrow> bool" where
  "wrap_complete es ms =
     (case newest_epoch es of
        None \<Rightarrow> False
      | Some newest \<Rightarrow>
          (case find_owner ms of
             None \<Rightarrow> False
           | Some f \<Rightarrow>
               let required = map (\<lambda>m. \<lparr>rd_id = m_member_id m, rd_key = None\<rparr>)
                     (filter (\<lambda>m. m_member_id m \<noteq> m_member_id f) ms);
                   rrk = \<lparr>rd_id = m_member_id f, rd_key = None\<rparr>
               in missing newest required rrk = []))"

definition keyring_structure :: "keyring_env \<Rightarrow> Keyring \<Rightarrow> string + unit" where
  "keyring_structure V k =
     (if KEYRING_LAYOUT_VERSION < k_layout_version k then Inl ''layout ahead''
      else if int (length (k_members k)) > MAX_MEMBERS then Inl ''list too large''
      else if list_ex (\<lambda>m. role_is_signer (m_role m) \<and> length (m_author_public_key m) \<noteq> 32) (k_members k)
      then Inl ''signer key malformed''
      else case key_material V k of
             None \<Rightarrow> Inl ''key material malformed''
           | Some es \<Rightarrow>
               if list_ex (\<lambda>rk. escrow_wraps V rk = None) (k_recovery_keys k)
               then Inl ''key material malformed''
               else if int (length es) > MAX_EPOCHS then Inl ''list too large''
               else if es = [] then Inl ''no epochs''
               else if list_ex (\<lambda>e. length es \<le> unat (ep_ordinal e)) es
               then Inl ''epoch ordinal out of range''
               else if \<not> wrap_complete es (k_members k) then Inl ''wrap incomplete''
               else Inr ())"

definition reset_rvk :: "Keyring \<Rightarrow> bytes option" where
  "reset_rvk k = find (\<lambda>rvk. rvk \<noteq> []) (map rk_recovery_verifying_key (k_recovery_keys k))"

definition doc_signatures :: "Keyring \<Rightarrow> bytes list" where
  "doc_signatures k = filter (\<lambda>s. length s = 64) (map ks_signature (k_signatures k))"

definition doc_of :: "keyring_env \<Rightarrow> Keyring \<Rightarrow> (string, int, bytes, bytes) doc" where
  "doc_of V k =
     \<lparr>d_group = k_tree_id k, d_revision = k_revision k, d_prev_hash = to_pk32 (k_prev_keyring_hash k),
      d_layout = k_layout_version k,
      d_members = map (\<lambda>m. \<lparr>s_id = m_member_id m, s_role = i16_role (m_role m),
        s_key = to_pk32 (m_author_public_key m)\<rparr>) (k_members k),
      d_governance = \<lparr>g_kind = k_governance_kind k, g_threshold = k_governance_threshold k\<rparr>,
      d_recovery = map_option to_pk32 (reset_rvk k), d_sigs = doc_signatures k,
      d_commitment = payload_commit V k, d_structure = keyring_structure V k\<rparr>"

subsection \<open>Signing\<close>

definition keyring_signing_bytes :: "keyring_env \<Rightarrow> Keyring \<Rightarrow> bytes" where
  "keyring_signing_bytes V k = signing_bytes (binding_env V) (doc_of V k)"

definition keyring_hash :: "keyring_env \<Rightarrow> Keyring \<Rightarrow> bytes" where
  "keyring_hash V k = doc_hash (binding_env V) (doc_of V k)"

definition sign_keyring :: "keyring_env \<Rightarrow> bytes \<Rightarrow> Keyring \<Rightarrow> Keyring" where
  "sign_keyring V key k =
     k\<lparr>k_signatures := k_signatures k @
         [\<lparr>ks_signer_public_key = kv_public V key, ks_signature = kv_sign V key (keyring_signing_bytes V k)\<rparr>]\<rparr>"

fun verify_sigs :: "keyring_env \<Rightarrow> bytes \<Rightarrow> bytes list \<Rightarrow> KeyringSignature list \<Rightarrow> bytes option" where
  "verify_sigs V msg trusted [] = None"
| "verify_sigs V msg trusted (s # ss) =
     (if length (ks_signature s) \<noteq> 64 then verify_sigs V msg trusted ss
      else case find (\<lambda>key. kv_verify V key msg (ks_signature s)) trusted of
             Some key \<Rightarrow> Some key
           | None \<Rightarrow> verify_sigs V msg trusted ss)"

definition verify_keyring_any :: "keyring_env \<Rightarrow> Keyring \<Rightarrow> bytes list \<Rightarrow> bytes option" where
  "verify_keyring_any V k trusted = verify_sigs V (keyring_signing_bytes V k) trusted (k_signatures k)"

definition verify_keyring :: "keyring_env \<Rightarrow> Keyring \<Rightarrow> bytes \<Rightarrow> bool" where
  "verify_keyring V k key \<longleftrightarrow> verify_keyring_any V k [key] \<noteq> None"

subsection \<open>The successor check\<close>

record AuthorizedSigner =
  as_public_key :: bytes
  as_member_id :: string
  as_role :: int

record KeyringAnchor =
  ka_tree_id :: bytes
  ka_revision :: u32
  ka_keyring_hash :: bytes
  ka_trusted_signers :: "AuthorizedSigner list"
  ka_governance_kind :: u32
  ka_governance_threshold :: u32
  ka_recovery_verifying_key :: bytes
  ka_first_shared_revision :: u32

datatype KeyringError =
    KTreeMismatch | KLayoutAhead | KBadStructure string | KNonSequential | KFork
  | KUnendorsedOrdinaryChange | KUnendorsedSetChange | KWrapIncomplete | KBadBootstrap
  | KRevisionOverflow | KFirstSharedRegressed

definition keyring_signers :: "Keyring \<Rightarrow> AuthorizedSigner list" where
  "keyring_signers k =
     map (\<lambda>m. \<lparr>as_public_key = m_author_public_key m, as_member_id = m_member_id m, as_role = m_role m\<rparr>)
       (filter (\<lambda>m. 1 \<le> m_role m \<and> m_role m \<le> 2) (k_members k))"

definition from_keyring :: "keyring_env \<Rightarrow> Keyring \<Rightarrow> KeyringAnchor" where
  "from_keyring V k =
     \<lparr>ka_tree_id = k_tree_id k, ka_revision = k_revision k, ka_keyring_hash = keyring_hash V k,
      ka_trusted_signers = keyring_signers k, ka_governance_kind = k_governance_kind k,
      ka_governance_threshold = k_governance_threshold k,
      ka_recovery_verifying_key = (case reset_rvk k of None \<Rightarrow> [] | Some r \<Rightarrow> r),
      ka_first_shared_revision = k_first_shared_revision k\<rparr>"

definition to_linear_anchor :: "KeyringAnchor \<Rightarrow> (string, int, bytes) anchor" where
  "to_linear_anchor p =
     \<lparr>an_group = ka_tree_id p, an_revision = ka_revision p, an_hash = ka_keyring_hash p,
      an_signers = map (\<lambda>s. \<lparr>s_id = as_member_id s, s_role = i16_role (as_role s),
        s_key = to_pk32 (as_public_key s)\<rparr>) (ka_trusted_signers p),
      an_governance = \<lparr>g_kind = ka_governance_kind p, g_threshold = ka_governance_threshold p\<rparr>,
      an_recovery = (if ka_recovery_verifying_key p = [] then None
                     else Some (to_pk32 (ka_recovery_verifying_key p)))\<rparr>"

definition from_linear_anchor :: "(string, int, bytes) anchor \<Rightarrow> KeyringAnchor" where
  "from_linear_anchor a =
     \<lparr>ka_tree_id = an_group a, ka_revision = an_revision a, ka_keyring_hash = an_hash a,
      ka_trusted_signers = map (\<lambda>s. \<lparr>as_public_key = s_key s, as_member_id = s_id s, as_role = s_role s\<rparr>)
        (an_signers a),
      ka_governance_kind = g_kind (an_governance a), ka_governance_threshold = g_threshold (an_governance a),
      ka_recovery_verifying_key = (case an_recovery a of None \<Rightarrow> [] | Some k \<Rightarrow> k),
      ka_first_shared_revision = 0\<rparr>"

fun map_linear_err :: "chain_error \<Rightarrow> KeyringError" where
  "map_linear_err GroupMismatch = KTreeMismatch"
| "map_linear_err LayoutAhead = KLayoutAhead"
| "map_linear_err (BadStructure s) = KBadStructure s"
| "map_linear_err (Structure s) =
     (if s = ''layout ahead'' then KLayoutAhead
      else if s = ''wrap incomplete'' then KWrapIncomplete
      else KBadStructure s)"
| "map_linear_err NonSequential = KNonSequential"
| "map_linear_err RevisionOverflow = KRevisionOverflow"
| "map_linear_err Fork = KFork"
| "map_linear_err UnendorsedOrdinaryChange = KUnendorsedOrdinaryChange"
| "map_linear_err UnendorsedSetChange = KUnendorsedSetChange"
| "map_linear_err WrapIncomplete = KWrapIncomplete"
| "map_linear_err BadBootstrap = KBadBootstrap"

text \<open>The engine's answer with its error classed and the sharing marker of the keyring carried on.\<close>

definition carry_marker ::
  "Keyring \<Rightarrow> chain_error + (string, int, bytes) anchor \<Rightarrow> KeyringError + KeyringAnchor" where
  "carry_marker k r =
     (case r of
        Inl e \<Rightarrow> Inl (map_linear_err e)
      | Inr out \<Rightarrow> Inr ((from_linear_anchor out)\<lparr>ka_first_shared_revision := k_first_shared_revision k\<rparr>))"

definition keyring_transition ::
  "keyring_env \<Rightarrow> KeyringAnchor \<Rightarrow> Keyring \<Rightarrow> KeyringError + KeyringAnchor" where
  "keyring_transition V prior cand =
     (if k_revision cand < k_first_shared_revision cand then Inl KFirstSharedRegressed
      else if ka_first_shared_revision prior \<noteq> 0 \<and>
              k_first_shared_revision cand \<noteq> ka_first_shared_revision prior
      then Inl KFirstSharedRegressed
      else carry_marker cand (verify_transition (binding_env V) (to_linear_anchor prior) (doc_of V cand)))"

fun keyring_walk :: "keyring_env \<Rightarrow> KeyringAnchor \<Rightarrow> Keyring list \<Rightarrow> KeyringError + KeyringAnchor" where
  "keyring_walk V anchor [] = Inr anchor"
| "keyring_walk V anchor (hop # hops) =
     (case keyring_transition V anchor hop of
        Inl e \<Rightarrow> Inl e
      | Inr a \<Rightarrow> keyring_walk V a hops)"

definition bootstrap_from_genesis ::
  "keyring_env \<Rightarrow> Keyring \<Rightarrow> bytes \<Rightarrow> KeyringError + KeyringAnchor" where
  "bootstrap_from_genesis V genesis own_founder_key =
     carry_marker genesis (bootstrap_genesis (binding_env V) (doc_of V genesis) own_founder_key)"

definition bootstrap_from_oob ::
  "keyring_env \<Rightarrow> Keyring \<Rightarrow> bytes \<Rightarrow> u32 \<Rightarrow> bytes \<Rightarrow> KeyringError + KeyringAnchor" where
  "bootstrap_from_oob V head tree_id revision hash =
     carry_marker head (bootstrap_pinned (binding_env V) (doc_of V head) tree_id revision hash)"

definition keyring_reset ::
  "keyring_env \<Rightarrow> bytes option \<Rightarrow> Keyring \<Rightarrow> KeyringError + KeyringAnchor" where
  "keyring_reset V prior_rvk k =
     carry_marker k (verify_reset (binding_env V) (map_option to_pk32 prior_rvk) (doc_of V k))"

definition encode_governing_ref :: "u32 \<Rightarrow> bytes" where
  "encode_governing_ref revision = u32_be revision"

definition decode_governing_ref :: "bytes \<Rightarrow> u32 option" where
  "decode_governing_ref b = (if length b = 4 then Some (of_nat (nat_of_be b)) else None)"

text \<open>\<open>GoverningKeyring\<close>: a keyring that can be had only by one of four validations.\<close>

definition governing_from_transition ::
  "keyring_env \<Rightarrow> KeyringAnchor \<Rightarrow> Keyring \<Rightarrow> KeyringError + Keyring" where
  "governing_from_transition V prior cand =
     (case keyring_transition V prior cand of Inl e \<Rightarrow> Inl e | Inr _ \<Rightarrow> Inr cand)"

definition governing_from_genesis :: "keyring_env \<Rightarrow> Keyring \<Rightarrow> bytes \<Rightarrow> KeyringError + Keyring" where
  "governing_from_genesis V genesis key =
     (case bootstrap_from_genesis V genesis key of Inl e \<Rightarrow> Inl e | Inr _ \<Rightarrow> Inr genesis)"

definition governing_from_oob ::
  "keyring_env \<Rightarrow> Keyring \<Rightarrow> bytes \<Rightarrow> u32 \<Rightarrow> bytes \<Rightarrow> KeyringError + Keyring" where
  "governing_from_oob V head tree_id revision hash =
     (case bootstrap_from_oob V head tree_id revision hash of Inl e \<Rightarrow> Inl e | Inr _ \<Rightarrow> Inr head)"

definition governing_from_reset :: "keyring_env \<Rightarrow> Keyring \<Rightarrow> KeyringError + Keyring" where
  "governing_from_reset V k = (case keyring_reset V None k of Inl e \<Rightarrow> Inl e | Inr _ \<Rightarrow> Inr k)"

definition governing_ref :: "Keyring \<Rightarrow> bytes" where
  "governing_ref k = encode_governing_ref (k_revision k)"

lemma governing_ref_round_trip [simp]: "decode_governing_ref (encode_governing_ref r) = Some r"
  by (simp add: decode_governing_ref_def encode_governing_ref_def)

subsection \<open>The keyless verifier\<close>

definition unwrap_keyring :: "keyring_env \<Rightarrow> bytes \<Rightarrow> VerifyError + Keyring" where
  "unwrap_keyring V b =
     (case envelope_decode (kv_decode_envelope V) b of
        Inl _ \<Rightarrow> Inl VMalformed
      | Inr env \<Rightarrow>
          if engine_kind env \<noteq> Inr EngineChain then Inl VMalformed
          else case kv_decode V (me_body env) of None \<Rightarrow> Inl VMalformed | Some k \<Rightarrow> Inr k)"

definition member_view :: "Member \<Rightarrow> MemberView" where
  "member_view m =
     \<lparr>mv_member_id = m_member_id m, mv_role = i16_role (m_role m),
      mv_author_public_key = m_author_public_key m, mv_hpke_public_key = m_hpke_public_key m\<rparr>"

definition chain_view_of :: "Keyring \<Rightarrow> bool \<Rightarrow> MembershipView" where
  "chain_view_of k reset_boundary = view_new (map member_view (k_members k)) reset_boundary"

definition membership_view :: "Keyring \<Rightarrow> MembershipView" where
  "membership_view k = chain_view_of k False"

definition prior_rvk :: "KeyringAnchor \<Rightarrow> bytes option" where
  "prior_rvk a = (if ka_recovery_verifying_key a = [] then None else Some (ka_recovery_verifying_key a))"

fun classify :: "KeyringError \<Rightarrow> VerifyError" where
  "classify KFork = VRollback"
| "classify KNonSequential = VStale"
| "classify KUnendorsedOrdinaryChange = VUnauthorized"
| "classify KUnendorsedSetChange = VUnauthorized"
| "classify KFirstSharedRegressed = VSharedRegressed"
| "classify KTreeMismatch = VMalformed"
| "classify KLayoutAhead = VMalformed"
| "classify (KBadStructure _) = VMalformed"
| "classify KWrapIncomplete = VMalformed"
| "classify KBadBootstrap = VMalformed"
| "classify KRevisionOverflow = VMalformed"

definition founder_key :: "keyring_env \<Rightarrow> Keyring \<Rightarrow> bytes option" where
  "founder_key V k =
     (case find_owner (k_members k) of
        None \<Rightarrow> None
      | Some f \<Rightarrow>
          if length (m_author_public_key f) = 32 \<and> kv_accepts V (m_author_public_key f)
          then Some (m_author_public_key f) else None)"

definition admitted_as :: "bytes \<Rightarrow> Keyring \<Rightarrow> bool \<Rightarrow> bool \<Rightarrow> Admitted" where
  "admitted_as update cand reset changed =
     \<lparr>ad_state = update, ad_view = chain_view_of cand reset, ad_changed = changed,
      ad_tree_id = k_tree_id cand, ad_update_ref = encode_governing_ref (k_revision cand)\<rparr>"

text \<open>\<open>candidate.revision == head.revision + 1\<close> wraps in a release build.\<close>

definition chains_on_head :: "keyring_env \<Rightarrow> Keyring \<Rightarrow> Keyring \<Rightarrow> bool" where
  "chains_on_head V head cand \<longleftrightarrow>
     k_revision cand = k_revision head + 1 \<and> k_prev_keyring_hash cand = keyring_hash V head"

definition chain_admit :: "keyring_env \<Rightarrow> admission" where
  "chain_admit V prior_state update =
     (case unwrap_keyring V update of
        Inl e \<Rightarrow> Inl e
      | Inr cand \<Rightarrow>
          (case prior_state of
             None \<Rightarrow>
               (case founder_key V cand of
                  None \<Rightarrow> Inl VMalformed
                | Some founder \<Rightarrow>
                    (case bootstrap_from_genesis V cand founder of
                       Inl e \<Rightarrow> Inl (classify e)
                     | Inr _ \<Rightarrow> Inr (admitted_as update cand False True)))
           | Some prior \<Rightarrow>
               (case unwrap_keyring V prior of
                  Inl e \<Rightarrow> Inl e
                | Inr head \<Rightarrow>
                    let anchor = from_keyring V head
                    in case keyring_transition V anchor cand of
                         Inr _ \<Rightarrow> Inr (admitted_as update cand False (k_members cand \<noteq> k_members head))
                       | Inl err \<Rightarrow>
                           if chains_on_head V head cand
                           then (case keyring_reset V (prior_rvk anchor) cand of
                                   Inr _ \<Rightarrow> Inr (admitted_as update cand True True)
                                 | Inl _ \<Rightarrow> Inl (classify err))
                           else Inl (classify err))))"

definition chain_members_at :: "keyring_env \<Rightarrow> bytes \<Rightarrow> MemberView list option" where
  "chain_members_at V s =
     (case unwrap_keyring V s of Inl _ \<Rightarrow> None | Inr k \<Rightarrow> Some (vw_members (membership_view k)))"

interpretation chain_verifier: keyring_verifier "chain_admit V" "chain_members_at V" for V
  by unfold_locales
    (auto simp: chain_admit_def chain_members_at_def admitted_as_def membership_view_def chain_view_of_def
      view_new_def Let_def split: option.splits sum.splits if_splits)

subsection \<open>What the binding guarantees\<close>

lemma keyring_transition_facts:
  assumes "keyring_transition V prior cand = Inr a"
  shows "k_first_shared_revision cand \<le> k_revision cand"
    "ka_first_shared_revision prior \<noteq> 0 \<Longrightarrow> k_first_shared_revision cand = ka_first_shared_revision prior"
    "ka_first_shared_revision a = k_first_shared_revision cand"
    "\<exists>out. verify_transition (binding_env V) (to_linear_anchor prior) (doc_of V cand) = Inr out \<and>
       a = (from_linear_anchor out)\<lparr>ka_first_shared_revision := k_first_shared_revision cand\<rparr>"
  using assms by (auto simp: keyring_transition_def carry_marker_def split: if_splits sum.splits)

text \<open>A shared tree never becomes unshared along a walk: the marker of every accepted keyring
  names a revision up to its own, and from the first one that is set it stays the same, in the
  anchor the walk ends with too.\<close>

theorem shared_never_regresses:
  assumes "keyring_walk V a hops = Inr b"
  shows "(\<forall>k \<in> set hops. k_first_shared_revision k \<le> k_revision k) \<and>
    sorted_wrt (\<lambda>k l. k_first_shared_revision k \<noteq> 0 \<longrightarrow> k_first_shared_revision l = k_first_shared_revision k) hops \<and>
    (\<forall>k \<in> set hops. ka_first_shared_revision a \<noteq> 0 \<longrightarrow> k_first_shared_revision k = ka_first_shared_revision a) \<and>
    ka_first_shared_revision b =
      (if hops = [] then ka_first_shared_revision a else k_first_shared_revision (last hops))"
  using assms
proof (induction hops arbitrary: a)
  case (Cons k hops)
  obtain a' where t: "keyring_transition V a k = Inr a'" and w: "keyring_walk V a' hops = Inr b"
    using Cons.prems by (auto split: sum.splits)
  note f = keyring_transition_facts [OF t] and ih = Cons.IH [OF w]
  show ?case using f(1,2) ih by (simp add: f(3))
qed simp

text \<open>The signed bytes of a keyring determine all of it but its signatures.\<close>

definition tag_ok31 :: "int \<Rightarrow> bool" where
  "tag_ok31 t \<longleftrightarrow> 0 \<le> t \<and> t < 2 ^ 31"

lemma small_payload_tag [simp]: "small PAYLOAD_TAG"
  by (simp add: small_def PAYLOAD_TAG_def)

definition member_small :: "Member \<Rightarrow> bool" where
  "member_small m \<longleftrightarrow>
     small (string_bytes (m_member_id m)) \<and> tag_ok31 (m_role m) \<and>
     small (m_author_public_key m) \<and> small (m_hpke_public_key m)"

definition recovery_small :: "RecoveryKey \<Rightarrow> bool" where
  "recovery_small rk \<longleftrightarrow>
     small (rk_public_key rk) \<and> small (string_bytes (rk_member_id rk)) \<and> small (rk_wraps rk) \<and>
     small (rk_recovery_verifying_key rk)"

definition keyring_small :: "Keyring \<Rightarrow> bool" where
  "keyring_small k \<longleftrightarrow>
     small (k_tree_id k) \<and> small (k_prev_keyring_hash k) \<and> small (k_epochs k) \<and>
     length (k_members k) < 2 ^ 32 \<and> list_all member_small (k_members k) \<and>
     length (k_recovery_keys k) < 2 ^ 32 \<and> list_all recovery_small (k_recovery_keys k)"

lemma put_member_append:
  assumes "member_small a" "member_small b"
  shows "put_member a @ x = put_member b @ y \<longleftrightarrow> a = b \<and> x = y"
  using assms
  by (cases a; cases b)
    (auto simp: put_member_def member_small_def put_bytes_append u32_be_append tag_u32_inj tag_ok31_def)

lemma put_recovery_key_append:
  assumes "recovery_small a" "recovery_small b"
  shows "put_recovery_key a @ x = put_recovery_key b @ y \<longleftrightarrow> a = b \<and> x = y"
  using assms by (cases a; cases b) (auto simp: put_recovery_key_def recovery_small_def put_bytes_append)

lemma put_all_append:
  assumes "\<And>a b x y. p a \<Longrightarrow> p b \<Longrightarrow> put a @ x = put b @ y \<longleftrightarrow> a = b \<and> x = (y :: bytes)"
  shows "list_all p as \<Longrightarrow> list_all p bs \<Longrightarrow> length as = length bs \<Longrightarrow>
    concat (map put as) @ x = concat (map put bs) @ y \<longleftrightarrow> as = bs \<and> x = y"
proof (induction as arbitrary: bs)
  case (Cons a as)
  then obtain b bs' where bs: "bs = b # bs'" by (cases bs) auto
  then show ?case using Cons.IH [of bs'] Cons.prems assms [of a b] by simp
qed simp

lemma payload_bytes_inj:
  assumes "keyring_small k" "keyring_small l" "payload_bytes k = payload_bytes l"
  shows "k\<lparr>k_signatures := []\<rparr> = l\<lparr>k_signatures := []\<rparr>"
proof -
  have sk: "small (k_tree_id k)" "small (k_prev_keyring_hash k)" "small (k_epochs k)"
      "length (k_members k) < 2 ^ 32" "list_all member_small (k_members k)"
      "length (k_recovery_keys k) < 2 ^ 32" "list_all recovery_small (k_recovery_keys k)"
    and sl: "small (k_tree_id l)" "small (k_prev_keyring_hash l)" "small (k_epochs l)"
      "length (k_members l) < 2 ^ 32" "list_all member_small (k_members l)"
      "length (k_recovery_keys l) < 2 ^ 32" "list_all recovery_small (k_recovery_keys l)"
    using assms(1,2) by (simp_all add: keyring_small_def)
  let ?gov = "\<lambda>k. u32_be (k_governance_kind k) @ u32_be (k_governance_threshold k) @ u32_be (k_first_shared_revision k)"
  let ?rec = "\<lambda>k. put_bytes (k_epochs k) @ u32_be (sat_u32 (length (k_recovery_keys k))) @
    concat (map put_recovery_key (k_recovery_keys k)) @ ?gov k"
  have head: "k_tree_id k = k_tree_id l" "k_revision k = k_revision l" "k_layout_version k = k_layout_version l"
      "k_prev_keyring_hash k = k_prev_keyring_hash l"
      "sat_u32 (length (k_members k)) = sat_u32 (length (k_members l))"
      "concat (map put_member (k_members k)) @ ?rec k = concat (map put_member (k_members l)) @ ?rec l"
    using assms(3) unfolding payload_bytes_def
    by (simp_all only: put_bytes_append [OF small_payload_tag small_payload_tag] put_bytes_append [OF sk(1) sl(1)]
        put_bytes_append [OF sk(2) sl(2)] u32_be_append simp_thms)
  have len: "length (k_members k) = length (k_members l)" using head(5) sk(4) sl(4) by (simp add: sat_u32_inj)
  have mem: "k_members k = k_members l" and rec: "?rec k = ?rec l"
    using head(6) put_all_append [OF put_member_append sk(5) sl(5) len] by simp_all
  have mid: "k_epochs k = k_epochs l" "sat_u32 (length (k_recovery_keys k)) = sat_u32 (length (k_recovery_keys l))"
      "concat (map put_recovery_key (k_recovery_keys k)) @ ?gov k =
       concat (map put_recovery_key (k_recovery_keys l)) @ ?gov l"
    using rec by (simp_all only: put_bytes_append [OF sk(3) sl(3)] u32_be_append simp_thms)
  have len2: "length (k_recovery_keys k) = length (k_recovery_keys l)"
    using mid(2) sk(6) sl(6) by (simp add: sat_u32_inj)
  have "concat (map put_recovery_key (k_recovery_keys k)) @ ?gov k =
      concat (map put_recovery_key (k_recovery_keys l)) @ ?gov l \<longleftrightarrow>
      k_recovery_keys k = k_recovery_keys l \<and> ?gov k = ?gov l"
    by (rule put_all_append [OF put_recovery_key_append sk(7) sl(7) len2])
  then have "k_recovery_keys k = k_recovery_keys l" and "?gov k = ?gov l" using mid(3) by blast+
  then show ?thesis using head mem mid by (cases k; cases l) (simp add: u32_be_append)
qed

text \<open>The byte strings that are hashed for a keyring: its payload and its signed bytes.\<close>

definition hashed_of :: "keyring_env \<Rightarrow> Keyring \<Rightarrow> bytes set" where
  "hashed_of V k = {payload_bytes k, keyring_signing_bytes V k}"

text \<open>C22: the hash that a keyring links to pins its predecessor: two keyrings of one hash, with no
  collision between the byte strings hashed for them, are the same in every field but the
  signatures, with the key material and the recovery keys that the engine itself never sees.\<close>

theorem keyring_hash_pins:
  assumes "inj_on (kv_sha V) (hashed_of V k \<union> hashed_of V l)"
    and "inj (kv_id_bytes V)" "inj (kv_role_bytes V)"
    and "keyring_small k" "keyring_small l"
    and "doc_small (binding_env V) (doc_of V k)" "doc_small (binding_env V) (doc_of V l)"
    and "keyring_hash V k = keyring_hash V l"
  shows "k\<lparr>k_signatures := []\<rparr> = l\<lparr>k_signatures := []\<rparr>"
proof -
  have env: "env_inj (binding_env V)" using assms(2,3) by (simp add: env_inj_def binding_env_def inj_def)
  have "signing_bytes (binding_env V) (doc_of V k) = signing_bytes (binding_env V) (doc_of V l)"
    using inj_onD [OF assms(1), of "keyring_signing_bytes V k" "keyring_signing_bytes V l"] assms(8)
    by (simp add: keyring_hash_def doc_hash_def hashed_of_def keyring_signing_bytes_def binding_env_def)
  then have "same_signed (doc_of V k) (doc_of V l)" by (rule signing_bytes_eq [OF env assms(6,7)])
  then have "payload_bytes k = payload_bytes l"
    using inj_onD [OF assms(1), of "payload_bytes k" "payload_bytes l"]
    by (simp add: same_signed_def doc_of_def payload_commit_def hashed_of_def)
  then show ?thesis by (rule payload_bytes_inj [OF assms(4,5)])
qed




end
