(* ===== verification/Keyring_Sync.thy ===== *)
theory Keyring_Sync
  imports Keyring_Chain Docsync_Wire
begin

text \<open>
  The transport of the linear keyring over a blob store
  (\<open>packages/openom-keyring-chain/src/blob_sync.rs\<close>): one compare-and-swapped head, an append-only
  history by revision, and the exchange of drafts that several signers countersign.  A method on
  \<open>&mut self\<close> takes the replica and returns it.  The decoder's message is left out of
  \<open>SyncError::Decode\<close>, and \<open>SyncError::Chain\<close> holds the error whose name it prints.
\<close>

subsection \<open>Keys, errors and the replica\<close>

definition HEAD_KEY :: string where "HEAD_KEY = ''keyring/head''"
definition DRAFT_PREFIX :: string where "DRAFT_PREFIX = ''keyring/drafts/''"

definition rev_key :: "u32 \<Rightarrow> string" where
  "rev_key n = ''keyring/rev/'' @ nat_to_dec (unat n)"

definition draft_key :: "string \<Rightarrow> string" where
  "draft_key i = DRAFT_PREFIX @ i"

datatype Promotion = Promoted | NotReady | Stale

datatype SyncError =
    SyncStore blob_error | SyncDecode | SyncChain KeyringError | SyncMalformed string
  | SyncConflict | DraftContentChanged

datatype PullError = PullSync SyncError | PullRollback u32 u32 | ResetPending

record 's keyring_sync =
  kb_store :: 's
  kb_anchor :: "KeyringAnchor option"
  kb_head_etag :: "etag option"

definition sync_new :: "'s \<Rightarrow> 's keyring_sync" where
  "sync_new s = \<lparr>kb_store = s, kb_anchor = None, kb_head_etag = None\<rparr>"

definition sync_revision :: "'s keyring_sync \<Rightarrow> u32 option" where
  "sync_revision c = map_option ka_revision (kb_anchor c)"

definition sync_decode :: "keyring_env \<Rightarrow> bytes \<Rightarrow> SyncError + Keyring" where
  "sync_decode V b = (case kv_decode V b of None \<Rightarrow> Inl SyncDecode | Some k \<Rightarrow> Inr k)"

definition head_pre :: "etag option \<Rightarrow> precondition" where
  "head_pre e = (case e of Some t \<Rightarrow> IfMatch t | None \<Rightarrow> IfAbsent)"

subsection \<open>Publishing\<close>

text \<open>The two writes of \<open>publish\<close>, between which another replica may act.\<close>

definition publish_revision ::
  "'s blob_ops \<Rightarrow> Keyring \<Rightarrow> bytes \<Rightarrow> 's keyring_sync \<Rightarrow> 's keyring_sync \<times> (SyncError + unit)" where
  "publish_revision ops keyring keyring_bytes c =
     (case blob_put ops (kb_store c) (rev_key (k_revision keyring)) keyring_bytes IfAbsent of
        (s, Inr _) \<Rightarrow> (c\<lparr>kb_store := s\<rparr>, Inr ())
      | (s, Inl PreconditionFailed) \<Rightarrow> (c\<lparr>kb_store := s\<rparr>, Inr ())
      | (s, Inl e) \<Rightarrow> (c\<lparr>kb_store := s\<rparr>, Inl (SyncStore e)))"

definition publish_head ::
  "'s blob_ops \<Rightarrow> keyring_env \<Rightarrow> Keyring \<Rightarrow> bytes \<Rightarrow> 's keyring_sync \<Rightarrow> 's keyring_sync \<times> (SyncError + unit)" where
  "publish_head ops V keyring keyring_bytes c =
     (case blob_put ops (kb_store c) HEAD_KEY keyring_bytes (head_pre (kb_head_etag c)) of
        (s, Inl PreconditionFailed) \<Rightarrow> (c\<lparr>kb_store := s\<rparr>, Inl SyncConflict)
      | (s, Inl e) \<Rightarrow> (c\<lparr>kb_store := s\<rparr>, Inl (SyncStore e))
      | (s, Inr etag) \<Rightarrow>
          (\<lparr>kb_store = s, kb_anchor = Some (from_keyring V keyring), kb_head_etag = Some etag\<rparr>, Inr ()))"

definition publish ::
  "'s blob_ops \<Rightarrow> keyring_env \<Rightarrow> bytes \<Rightarrow> 's keyring_sync \<Rightarrow> 's keyring_sync \<times> (SyncError + unit)" where
  "publish ops V keyring_bytes c =
     (case sync_decode V keyring_bytes of
        Inl e \<Rightarrow> (c, Inl e)
      | Inr keyring \<Rightarrow>
          (case publish_revision ops keyring keyring_bytes c of
             (c, Inl e) \<Rightarrow> (c, Inl e)
           | (c, Inr _) \<Rightarrow> publish_head ops V keyring keyring_bytes c))"

subsection \<open>Pulling\<close>

definition sync_bootstrap ::
  "'s blob_ops \<Rightarrow> keyring_env \<Rightarrow> 's keyring_sync \<Rightarrow> 's keyring_sync \<times> (SyncError + bytes option)" where
  "sync_bootstrap ops V c =
     (case blob_get ops (kb_store c) HEAD_KEY of
        Inl e \<Rightarrow> (c, Inl (SyncStore e))
      | Inr None \<Rightarrow> (c, Inr None)
      | Inr (Some (b, etag)) \<Rightarrow>
          (case sync_decode V b of
             Inl e \<Rightarrow> (c, Inl e)
           | Inr keyring \<Rightarrow>
               (case keyring_reset V None keyring of
                  Inl e \<Rightarrow> (c, Inl (SyncChain e))
                | Inr a \<Rightarrow> (c\<lparr>kb_anchor := Some a, kb_head_etag := Some etag\<rparr>, Inr (Some b)))))"

text \<open>The skipped revisions, from the history.\<close>

fun fetch_hops :: "'s blob_ops \<Rightarrow> keyring_env \<Rightarrow> 's \<Rightarrow> u32 list \<Rightarrow> SyncError + Keyring list" where
  "fetch_hops ops V s [] = Inr []"
| "fetch_hops ops V s (n # ns) =
     (case blob_get ops s (rev_key n) of
        Inl e \<Rightarrow> Inl (SyncStore e)
      | Inr None \<Rightarrow> Inl (SyncMalformed ''missing revision in history'')
      | Inr (Some (rb, _)) \<Rightarrow>
          (case sync_decode V rb of
             Inl e \<Rightarrow> Inl e
           | Inr k \<Rightarrow>
               (case fetch_hops ops V s ns of Inl e \<Rightarrow> Inl e | Inr ks \<Rightarrow> Inr (k # ks))))"

definition skipped_revisions :: "u32 \<Rightarrow> u32 \<Rightarrow> u32 list" where
  "skipped_revisions have head = map of_nat [unat (have + 1) ..< unat head]"

definition sync_pull ::
  "'s blob_ops \<Rightarrow> keyring_env \<Rightarrow> 's keyring_sync \<Rightarrow> 's keyring_sync \<times> (PullError + bytes option)" where
  "sync_pull ops V c =
     (case kb_anchor c of
        None \<Rightarrow> (case sync_bootstrap ops V c of
                   (c, Inl e) \<Rightarrow> (c, Inl (PullSync e))
                 | (c, Inr r) \<Rightarrow> (c, Inr r))
      | Some anchor \<Rightarrow>
          (case blob_get ops (kb_store c) HEAD_KEY of
             Inl e \<Rightarrow> (c, Inl (PullSync (SyncStore e)))
           | Inr None \<Rightarrow> (c, Inr None)
           | Inr (Some (b, etag)) \<Rightarrow>
               (case sync_decode V b of
                  Inl e \<Rightarrow> (c, Inl (PullSync e))
                | Inr head \<Rightarrow>
                    if k_revision head < ka_revision anchor
                    then (c, Inl (PullRollback (ka_revision anchor) (k_revision head)))
                    else if k_revision head = ka_revision anchor
                    then (if keyring_hash V head \<noteq> ka_keyring_hash anchor
                          then (c, Inl (PullSync (SyncMalformed
                                 ''store served a different keyring at the same revision'')))
                          else (c\<lparr>kb_head_etag := Some etag\<rparr>, Inr None))
                    else case fetch_hops ops V (kb_store c)
                                (skipped_revisions (ka_revision anchor) (k_revision head)) of
                           Inl e \<Rightarrow> (c, Inl (PullSync e))
                         | Inr hops \<Rightarrow>
                             (case keyring_walk V anchor (hops @ [head]) of
                                Inr a \<Rightarrow> (c\<lparr>kb_anchor := Some a, kb_head_etag := Some etag\<rparr>, Inr (Some b))
                              | Inl KUnendorsedSetChange \<Rightarrow> (c, Inl ResetPending)
                              | Inl e \<Rightarrow> (c, Inl (PullSync (SyncChain e)))))))"

definition accept_reset ::
  "'s blob_ops \<Rightarrow> keyring_env \<Rightarrow> 's keyring_sync \<Rightarrow> 's keyring_sync \<times> (SyncError + bytes)" where
  "accept_reset ops V c =
     (case blob_get ops (kb_store c) HEAD_KEY of
        Inl e \<Rightarrow> (c, Inl (SyncStore e))
      | Inr None \<Rightarrow> (c, Inl (SyncMalformed ''no head to accept''))
      | Inr (Some (b, etag)) \<Rightarrow>
          (case sync_decode V b of
             Inl e \<Rightarrow> (c, Inl e)
           | Inr keyring \<Rightarrow>
               if (case kb_anchor c of None \<Rightarrow> False | Some a \<Rightarrow> k_revision keyring < ka_revision a)
               then (c, Inl (SyncMalformed ''reset revision is behind the watermark''))
               else (case keyring_reset V (case kb_anchor c of None \<Rightarrow> None | Some a \<Rightarrow> prior_rvk a) keyring of
                       Inl e \<Rightarrow> (c, Inl (SyncChain e))
                     | Inr a \<Rightarrow> (c\<lparr>kb_anchor := Some a, kb_head_etag := Some etag\<rparr>, Inr b))))"

subsection \<open>The exchange of drafts\<close>

definition propose ::
  "'s blob_ops \<Rightarrow> keyring_env \<Rightarrow> 's keyring_sync \<Rightarrow> string \<Rightarrow> bytes \<Rightarrow> 's keyring_sync \<times> (SyncError + unit)" where
  "propose ops V c proposal_id candidate_bytes =
     (case sync_decode V candidate_bytes of
        Inl e \<Rightarrow> (c, Inl e)
      | Inr _ \<Rightarrow>
          (case blob_put ops (kb_store c) (draft_key proposal_id) candidate_bytes IfAbsent of
             (s, Inr _) \<Rightarrow> (c\<lparr>kb_store := s\<rparr>, Inr ())
           | (s, Inl PreconditionFailed) \<Rightarrow> (c\<lparr>kb_store := s\<rparr>, Inl SyncConflict)
           | (s, Inl e) \<Rightarrow> (c\<lparr>kb_store := s\<rparr>, Inl (SyncStore e))))"

definition get_draft :: "'s blob_ops \<Rightarrow> 's keyring_sync \<Rightarrow> string \<Rightarrow> SyncError + bytes option" where
  "get_draft ops c proposal_id =
     (case blob_get ops (kb_store c) (draft_key proposal_id) of
        Inl e \<Rightarrow> Inl (SyncStore e)
      | Inr r \<Rightarrow> Inr (map_option fst r))"

text \<open>The loop of \<open>countersign\<close>: \<open>others n\<close> is what the rest of the world does to the store between
  the read and the write of round \<open>n\<close>; the value is \<open>None\<close> when the rounds allowed run out.\<close>

fun countersign_loop ::
  "'s blob_ops \<Rightarrow> keyring_env \<Rightarrow> (nat \<Rightarrow> 's \<Rightarrow> 's) \<Rightarrow> bytes \<Rightarrow> string \<Rightarrow> bytes \<Rightarrow> nat \<Rightarrow> nat \<Rightarrow> 's \<Rightarrow>
     's \<times> (SyncError + unit) option" where
  "countersign_loop ops V others reviewed_content dkey key 0 n s = (s, None)"
| "countersign_loop ops V others reviewed_content dkey key (Suc fuel) n s =
     (case blob_get ops s dkey of
        Inl e \<Rightarrow> (s, Some (Inl (SyncStore e)))
      | Inr None \<Rightarrow> (s, Some (Inl (SyncMalformed ''no such draft'')))
      | Inr (Some (b, etag)) \<Rightarrow>
          (case sync_decode V b of
             Inl e \<Rightarrow> (s, Some (Inl e))
           | Inr candidate \<Rightarrow>
               if keyring_signing_bytes V candidate \<noteq> reviewed_content
               then (s, Some (Inl DraftContentChanged))
               else case blob_put ops (others n s) dkey (kv_encode V (sign_keyring V key candidate)) (IfMatch etag) of
                      (s, Inr _) \<Rightarrow> (s, Some (Inr ()))
                    | (s, Inl PreconditionFailed) \<Rightarrow>
                        countersign_loop ops V others reviewed_content dkey key fuel (Suc n) s
                    | (s, Inl e) \<Rightarrow> (s, Some (Inl (SyncStore e)))))"

definition countersign ::
  "'s blob_ops \<Rightarrow> keyring_env \<Rightarrow> (nat \<Rightarrow> 's \<Rightarrow> 's) \<Rightarrow> nat \<Rightarrow> 's keyring_sync \<Rightarrow> string \<Rightarrow> bytes \<Rightarrow> bytes \<Rightarrow>
     's keyring_sync \<times> (SyncError + unit) option" where
  "countersign ops V others fuel c proposal_id reviewed_bytes key =
     (case sync_decode V reviewed_bytes of
        Inl e \<Rightarrow> (c, Some (Inl e))
      | Inr reviewed \<Rightarrow>
          (case countersign_loop ops V others (keyring_signing_bytes V reviewed) (draft_key proposal_id)
                  key fuel 0 (kb_store c) of
             (s, r) \<Rightarrow> (c\<lparr>kb_store := s\<rparr>, r)))"

definition promote ::
  "'s blob_ops \<Rightarrow> keyring_env \<Rightarrow> 's keyring_sync \<Rightarrow> string \<Rightarrow> 's keyring_sync \<times> (SyncError + Promotion)" where
  "promote ops V c proposal_id =
     (case kb_anchor c of
        None \<Rightarrow> (c, Inl (SyncMalformed ''not bootstrapped''))
      | Some anchor \<Rightarrow>
          (case blob_get ops (kb_store c) (draft_key proposal_id) of
             Inl e \<Rightarrow> (c, Inl (SyncStore e))
           | Inr None \<Rightarrow> (c, Inl (SyncMalformed ''no such draft''))
           | Inr (Some (b, _)) \<Rightarrow>
               (case sync_decode V b of
                  Inl e \<Rightarrow> (c, Inl e)
                | Inr draft \<Rightarrow>
                    (case keyring_transition V anchor draft of
                       Inr a \<Rightarrow>
                         (case blob_put ops (kb_store c) HEAD_KEY b (head_pre (kb_head_etag c)) of
                            (s, Inr etag) \<Rightarrow>
                              let s = fst (blob_put ops s (rev_key (k_revision draft)) b IfAbsent);
                                  s = fst (blob_delete ops s (draft_key proposal_id) Any)
                              in (\<lparr>kb_store = s, kb_anchor = Some a, kb_head_etag = Some etag\<rparr>, Inr Promoted)
                          | (s, Inl PreconditionFailed) \<Rightarrow> (c\<lparr>kb_store := s\<rparr>, Inr Stale)
                          | (s, Inl e) \<Rightarrow> (c\<lparr>kb_store := s\<rparr>, Inl (SyncStore e)))
                     | Inl KFork \<Rightarrow> (c, Inr Stale)
                     | Inl KNonSequential \<Rightarrow> (c, Inr Stale)
                     | Inl KUnendorsedSetChange \<Rightarrow> (c, Inr NotReady)
                     | Inl KUnendorsedOrdinaryChange \<Rightarrow> (c, Inr NotReady)
                     | Inl e \<Rightarrow> (c, Inl (SyncChain e))))))"

subsection \<open>What a replica trusts\<close>

lemma rev_key_inj [simp]: "rev_key m = rev_key n \<longleftrightarrow> m = n"
  by (metis rev_key_def append_same_eq dec_value_nat_to_dec same_append_eq word_unat_eq_iff)

lemma keys_apart [simp]: "rev_key n \<noteq> HEAD_KEY" "HEAD_KEY \<noteq> rev_key n" "draft_key i \<noteq> HEAD_KEY" "HEAD_KEY \<noteq> draft_key i"
    "rev_key n \<noteq> draft_key i" "draft_key i \<noteq> rev_key n"
  by (simp_all add: rev_key_def HEAD_KEY_def draft_key_def DRAFT_PREFIX_def)

lemma transition_anchor:
  assumes "keyring_transition V a k = Inr b"
  shows "unat (ka_revision b) = Suc (unat (ka_revision a))" "ka_tree_id b = ka_tree_id a"
    "k_revision k = ka_revision b" "ka_keyring_hash b = keyring_hash V k"
    "to_pk32 (k_prev_keyring_hash k) = ka_keyring_hash a"
proof -
  obtain out where out: "verify_transition (binding_env V) (to_linear_anchor a) (doc_of V k) = Inr out"
    and b: "b = (from_linear_anchor out)\<lparr>ka_first_shared_revision := k_first_shared_revision k\<rparr>"
    using keyring_transition_facts(4) [OF assms] by blast
  note f = transition_facts [OF out]
  show "unat (ka_revision b) = Suc (unat (ka_revision a))" "ka_tree_id b = ka_tree_id a"
    "k_revision k = ka_revision b" "ka_keyring_hash b = keyring_hash V k"
    "to_pk32 (k_prev_keyring_hash k) = ka_keyring_hash a"
    using f(1,4) next_revision_unat [OF f(3)]
    by (simp_all add: b f(7) from_linear_anchor_def to_linear_anchor_def anchor_from_doc_def doc_of_def
        keyring_hash_def doc_hash_def)
qed

lemma walk_append:
  "keyring_walk V a (xs @ ys) =
     (case keyring_walk V a xs of Inl e \<Rightarrow> Inl e | Inr b \<Rightarrow> keyring_walk V b ys)"
  by (induction xs arbitrary: a) (auto split: sum.splits)

lemma walk_anchor:
  "keyring_walk V a ks = Inr b \<Longrightarrow>
     unat (ka_revision b) = unat (ka_revision a) + length ks \<and> ka_tree_id b = ka_tree_id a \<and>
     map (\<lambda>k. unat (k_revision k)) ks = [Suc (unat (ka_revision a)) ..< Suc (unat (ka_revision a) + length ks)]"
proof (induction ks arbitrary: a)
  case (Cons k ks)
  obtain a' where t: "keyring_transition V a k = Inr a'" and w: "keyring_walk V a' ks = Inr b"
    using Cons.prems by (auto split: sum.splits)
  show ?case using Cons.IH [OF w] transition_anchor [OF t] by (cases ks) (auto simp: upt_conv_Cons)
qed simp

text \<open>The steps of a replica that need no consent out of band; before each of them the store may
  have become anything at all.\<close>

inductive verified_step :: "'s blob_ops \<Rightarrow> keyring_env \<Rightarrow> 's keyring_sync \<Rightarrow> 's keyring_sync \<Rightarrow> bool"
  for ops V where
  pull_step: "sync_pull ops V (c\<lparr>kb_store := s\<rparr>) = (c', r) \<Longrightarrow> verified_step ops V c c'"
| promote_step: "promote ops V (c\<lparr>kb_store := s\<rparr>) i = (c', q) \<Longrightarrow> verified_step ops V c c'"
| propose_step: "propose ops V (c\<lparr>kb_store := s\<rparr>) i b = (c', u) \<Longrightarrow> verified_step ops V c c'"
| countersign_step: "countersign ops V others fuel (c\<lparr>kb_store := s\<rparr>) i b key = (c', v) \<Longrightarrow> verified_step ops V c c'"

lemma pull_anchor:
  assumes "sync_pull ops V c = (c', r)" "kb_anchor c = Some a"
  shows "\<exists>b hops. kb_anchor c' = Some b \<and> keyring_walk V a hops = Inr b"
proof -
  have refl: "keyring_walk V a [] = Inr a" by simp
  show ?thesis using assms refl
    by (auto simp: sync_pull_def simp del: keyring_walk.simps
        split: sum.splits option.splits prod.splits if_splits KeyringError.splits)
qed

lemma promote_anchor:
  assumes "promote ops V c i = (c', r)" "kb_anchor c = Some a"
  shows "\<exists>b hops. kb_anchor c' = Some b \<and> keyring_walk V a hops = Inr b"
proof -
  have "kb_anchor c' = Some a \<or> (\<exists>b k. kb_anchor c' = Some b \<and> keyring_transition V a k = Inr b)"
    using assms
    by (auto simp: promote_def Let_def
        split: sum.splits option.splits prod.splits if_splits KeyringError.splits blob_error.splits)
  moreover have "keyring_walk V a [k] = Inr b" if "keyring_transition V a k = Inr b" for k b
    using that by simp
  ultimately show ?thesis using keyring_walk.simps(1) by blast
qed

lemma draft_steps_anchor:
  "propose ops V c i b = (c', u) \<Longrightarrow> kb_anchor c' = kb_anchor c"
  "countersign ops V others fuel c i b key = (c', v) \<Longrightarrow> kb_anchor c' = kb_anchor c"
  by (auto simp: propose_def countersign_def split: sum.splits prod.splits blob_error.splits)

lemma verified_step_anchor:
  assumes "verified_step ops V c c'" "kb_anchor c = Some a"
  shows "\<exists>b hops. kb_anchor c' = Some b \<and> keyring_walk V a hops = Inr b"
proof -
  have a: "kb_anchor (c\<lparr>kb_store := s\<rparr>) = Some a" for s using assms(2) by simp
  have same: "\<exists>b hops. kb_anchor c' = Some b \<and> keyring_walk V a hops = Inr b" if "kb_anchor c' = Some a"
    using that keyring_walk.simps(1) by blast
  from assms(1) show ?thesis
  proof (cases rule: verified_step.cases)
    case (pull_step s r) then show ?thesis by (intro pull_anchor [OF _ a])
  next
    case (promote_step s i q) then show ?thesis by (intro promote_anchor [OF _ a])
  next
    case (propose_step s i b u) then show ?thesis using draft_steps_anchor(1) a same by metis
  next
    case (countersign_step others fuel s i b key v)
    then show ?thesis using draft_steps_anchor(2) a same by metis
  qed
qed

text \<open>C17: whatever the store serves, and however it changes between two calls, a replica that pulls,
  promotes, proposes and countersigns trusts only what its first anchor reaches by a walk of
  accepted successors: the tree stays the same and the revision never goes back.\<close>

theorem trust_only_walks:
  assumes "(verified_step ops V)\<^sup>*\<^sup>* c c'" "kb_anchor c = Some a"
  shows "\<exists>b hops. kb_anchor c' = Some b \<and> keyring_walk V a hops = Inr b \<and>
    ka_tree_id b = ka_tree_id a \<and> unat (ka_revision b) = unat (ka_revision a) + length hops"
proof -
  have "\<exists>b hops. kb_anchor c' = Some b \<and> keyring_walk V a hops = Inr b"
    using assms(1)
  proof (induction rule: rtranclp_induct)
    case base
    then show ?case using assms(2) by (intro exI [of _ a] exI [of _ "[]"]) simp
  next
    case (step d d')
    then obtain b hops where b: "kb_anchor d = Some b" "keyring_walk V a hops = Inr b" by blast
    obtain b' hops' where "kb_anchor d' = Some b'" "keyring_walk V b hops' = Inr b'"
      using verified_step_anchor [OF step(2) b(1)] by blast
    then show ?case using b(2) by (intro exI [of _ b'] exI [of _ "hops @ hops'"]) (simp add: walk_append)
  qed
  then show ?thesis using walk_anchor by blast
qed

end
