(* ===== verification/Keyring_Demo.thy ===== *)
theory Keyring_Demo
  imports Keyring_Chain
begin

text \<open>
  A small keyring tree of the linear binding, evaluated: a founder's genesis, the revision that
  shares it and one more, at which the theorems of \<open>Keyring_Chain\<close> are applied.
\<close>

subsection \<open>Two revisions of a small keyring\<close>

definition demo_member :: "string \<Rightarrow> int \<Rightarrow> u8 \<Rightarrow> Member" where
  "demo_member i r b =
     \<lparr>m_member_id = i, m_role = r, m_author_public_key = replicate 32 b, m_hpke_public_key = [b]\<rparr>"

definition demo_epoch :: "string Epoch" where
  "demo_epoch =
     \<lparr>ep_key_id = [9], ep_ordinal = 0, ep_commitment = [],
      ep_wraps = [\<lparr>wr_recipient = ''o'', wr_method = RrkHpke [] [], wr_ciphertext = []\<rparr>,
                  \<lparr>wr_recipient = ''e'', wr_method = MemberHpke [] [], wr_ciphertext = []\<rparr>]\<rparr>"

definition demo_keyring :: "u32 \<Rightarrow> u32 \<Rightarrow> bytes \<Rightarrow> Member list \<Rightarrow> Keyring" where
  "demo_keyring n shared prev ms =
     \<lparr>k_tree_id = [7], k_epochs = [9], k_revision = n, k_layout_version = 1,
      k_prev_keyring_hash = prev, k_members = ms,
      k_signatures = [\<lparr>ks_signer_public_key = replicate 32 1, ks_signature = replicate 64 1\<rparr>],
      k_recovery_keys = [], k_governance_kind = 1, k_governance_threshold = 0,
      k_first_shared_revision = shared\<rparr>"

definition demo_first :: Keyring where
  "demo_first = demo_keyring 1 0 [] [demo_member ''o'' 1 1]"

definition demo_second :: Keyring where
  "demo_second = demo_keyring 2 2 (replicate 32 5) [demo_member ''o'' 1 1, demo_member ''e'' 4 2]"

definition demo_third :: Keyring where
  "demo_third = demo_keyring 3 2 (replicate 32 5) [demo_member ''o'' 1 1, demo_member ''e'' 5 2]"

text \<open>The wire of the demonstration: a keyring is named by one byte, a signature starts with its key.\<close>

definition demo_wire :: "(bytes \<Rightarrow> bytes) \<Rightarrow> keyring_env" where
  "demo_wire sha =
     \<lparr>kv_verify = (\<lambda>key msg sig. take 32 sig = key), kv_accepts = (\<lambda>_. True), kv_sha = sha,
      kv_id_bytes = string_bytes,
      kv_role_bytes = (\<lambda>r. if 0 \<le> r then 0 # replicate (nat r) 0 else replicate (nat (- r)) 1),
      kv_decode_epochs = (\<lambda>_. Some [demo_epoch]), kv_decode_wraps = (\<lambda>_. Some []),
      kv_decode = (\<lambda>b. if b = [1] then Some demo_first else if b = [2] then Some demo_second
        else if b = [3] then Some demo_third else None),
      kv_encode = (\<lambda>k. [of_nat (unat (k_revision k))]),
      kv_decode_envelope = (\<lambda>b. Some (envelope_wrap EngineChain b)),
      kv_public = (\<lambda>b. b), kv_sign = (\<lambda>key msg. key @ key)\<rparr>"

lemmas demo_keyrings = demo_first_def demo_second_def demo_third_def demo_keyring_def demo_member_def
  demo_wire_def demo_epoch_def

lemma demo_structure:
  "k \<in> {demo_first, demo_second, demo_third} \<Longrightarrow> keyring_structure (demo_wire sha) k = Inr ()"
  by (auto simp: keyring_structure_def key_material_def wrap_complete_def newest_epoch_def find_owner_def
      missing_def member_covers_def rrk_covers_def key_ok_def role_is_signer_def demo_keyrings Let_def
      KEYRING_LAYOUT_VERSION_def MAX_MEMBERS_def MAX_EPOCHS_def MAX_KEY_MATERIAL_BYTES_def MEMBER_OWNER_def)

abbreviation demo_binding :: keyring_env where
  "demo_binding \<equiv> demo_wire (\<lambda>_. replicate 32 5)"

definition demo_anchor_at :: "u32 \<Rightarrow> u32 \<Rightarrow> KeyringAnchor" where
  "demo_anchor_at n shared =
     \<lparr>ka_tree_id = [7], ka_revision = n, ka_keyring_hash = replicate 32 5,
      ka_trusted_signers = [\<lparr>as_public_key = replicate 32 1, as_member_id = ''o'', as_role = 1\<rparr>],
      ka_governance_kind = 1, ka_governance_threshold = 0, ka_recovery_verifying_key = [],
      ka_first_shared_revision = shared\<rparr>"

lemma demo_doc_of:
  assumes "k \<in> {demo_first, demo_second, demo_third}"
  shows "doc_of demo_binding k =
     \<lparr>d_group = [7], d_revision = k_revision k, d_prev_hash = to_pk32 (k_prev_keyring_hash k), d_layout = 1,
      d_members = map (\<lambda>m. \<lparr>s_id = m_member_id m, s_role = m_role m, s_key = m_author_public_key m\<rparr>) (k_members k),
      d_governance = \<lparr>g_kind = 1, g_threshold = 0\<rparr>, d_recovery = None, d_sigs = [replicate 64 1],
      d_commitment = replicate 32 5, d_structure = Inr ()\<rparr>"
  using demo_structure [OF assms, of "\<lambda>_. replicate 32 5"] assms
  by (auto simp: doc_of_def payload_commit_def reset_rvk_def doc_signatures_def i16_role_def to_pk32_def
      demo_keyrings)

lemma demo_docs:
  "doc_of demo_binding demo_second =
     \<lparr>d_group = [7], d_revision = 2, d_prev_hash = replicate 32 5, d_layout = 1,
      d_members = [\<lparr>s_id = ''o'', s_role = 1, s_key = replicate 32 1\<rparr>, \<lparr>s_id = ''e'', s_role = 4, s_key = replicate 32 2\<rparr>],
      d_governance = \<lparr>g_kind = 1, g_threshold = 0\<rparr>, d_recovery = None, d_sigs = [replicate 64 1],
      d_commitment = replicate 32 5, d_structure = Inr ()\<rparr>"
  "doc_of demo_binding demo_third =
     \<lparr>d_group = [7], d_revision = 3, d_prev_hash = replicate 32 5, d_layout = 1,
      d_members = [\<lparr>s_id = ''o'', s_role = 1, s_key = replicate 32 1\<rparr>, \<lparr>s_id = ''e'', s_role = 5, s_key = replicate 32 2\<rparr>],
      d_governance = \<lparr>g_kind = 1, g_threshold = 0\<rparr>, d_recovery = None, d_sigs = [replicate 64 1],
      d_commitment = replicate 32 5, d_structure = Inr ()\<rparr>"
  by (simp_all add: demo_doc_of) (simp_all add: demo_keyrings to_pk32_def)


lemma demo_linear_anchor:
  "to_linear_anchor (demo_anchor_at n s) =
     \<lparr>an_group = [7], an_revision = n, an_hash = replicate 32 5,
      an_signers = [\<lparr>s_id = ''o'', s_role = 1, s_key = replicate 32 1\<rparr>],
      an_governance = \<lparr>g_kind = 1, g_threshold = 0\<rparr>, an_recovery = None\<rparr>"
  by (simp add: to_linear_anchor_def demo_anchor_at_def i16_role_def to_pk32_def)

lemmas demo_step_eval = keyring_transition_def carry_marker_def from_linear_anchor_def chain_eval
  binding_env_def role_is_founder_def role_is_signer_def MEMBER_OWNER_def

lemma demo_step_second: "keyring_transition demo_binding (demo_anchor_at 1 0) demo_second = Inr (demo_anchor_at 2 2)"
  by (simp add: demo_step_eval demo_linear_anchor demo_docs)
    (simp add: demo_step_eval demo_keyrings demo_anchor_at_def to_pk32_def)

lemma demo_step_third: "keyring_transition demo_binding (demo_anchor_at 2 2) demo_third = Inr (demo_anchor_at 3 2)"
  by (simp add: demo_step_eval demo_linear_anchor demo_docs)
    (simp add: demo_step_eval demo_keyrings demo_anchor_at_def to_pk32_def)

theorem shared_never_regresses_witness:
  "ka_first_shared_revision (demo_anchor_at 3 2) = k_first_shared_revision demo_third \<and>
   k_first_shared_revision demo_third = k_first_shared_revision demo_second"
proof -
  have "keyring_walk demo_binding (demo_anchor_at 1 0) [demo_second, demo_third] = Inr (demo_anchor_at 3 2)"
    by (simp add: demo_step_second demo_step_third)
  moreover have "k_first_shared_revision demo_second \<noteq> 0" by (simp add: demo_second_def demo_keyring_def)
  ultimately show ?thesis using shared_never_regresses by fastforce
qed

text \<open>Two copies of one revision that differ in their signatures, under the identity as the hash.\<close>

theorem keyring_hash_pins_witness:
  "demo_second\<lparr>k_signatures := []\<rparr> = (demo_second\<lparr>k_signatures := []\<rparr>)\<lparr>k_signatures := []\<rparr>"
proof (rule keyring_hash_pins [of "demo_wire (\<lambda>b. b)"])
  let ?V = "demo_wire (\<lambda>b. b)"
  let ?l = "demo_second\<lparr>k_signatures := []\<rparr>"
  show "inj_on (kv_sha ?V) (hashed_of ?V demo_second \<union> hashed_of ?V ?l)" by (simp add: demo_wire_def)
  show "inj (kv_id_bytes ?V)" by (simp add: demo_wire_def inj_def)
  have "0 # replicate n (0 :: u8) \<noteq> replicate m 1" for n m by (cases m) simp_all
  then show "inj (kv_role_bytes ?V)"
    by (auto simp: demo_wire_def inj_def replicate_eq_replicate dest: sym)
  show "keyring_small demo_second" "keyring_small ?l"
    by (simp_all add: keyring_small_def member_small_def tag_ok31_def small_def demo_keyrings string_bytes_def)
  have pay: "payload_bytes ?l = payload_bytes demo_second" by (simp add: payload_bytes_def)
  have struct: "keyring_structure ?V ?l = keyring_structure ?V demo_second"
    by (simp add: keyring_structure_def key_material_def split: option.split)
  have "doc_of ?V ?l = (doc_of ?V demo_second)\<lparr>d_sigs := []\<rparr>"
    using demo_structure [of demo_second "\<lambda>b. b"] pay struct
    by (simp add: doc_of_def payload_commit_def reset_rvk_def doc_signatures_def)
  then show "keyring_hash ?V demo_second = keyring_hash ?V ?l" by (simp add: keyring_hash_def doc_hash_def)
  have "length (payload_bytes demo_second) < 2 ^ 32"
    by (simp add: payload_bytes_def put_bytes_def put_member_def PAYLOAD_TAG_def string_bytes_def demo_keyrings)
  then show "doc_small (binding_env ?V) (doc_of ?V demo_second)" "doc_small (binding_env ?V) (doc_of ?V ?l)"
    using pay
    by (simp_all add: doc_small_def doc_of_def payload_commit_def reset_rvk_def signer_small_def small_def
        binding_env_def demo_keyrings to_pk32_def i16_role_def string_bytes_def)
qed


end
