(* ===== verification/Keyring_Replicas.thy ===== *)
theory Keyring_Replicas
  imports Keyring_Sync Keyring_Demo
begin

text \<open>
  Replicas of one linear keyring over a store that does what it promises
  (\<open>packages/openom-keyring-chain/src/blob_sync.rs\<close>): what was published in order is pulled, a draft
  is signed only with the content that was reviewed and gets its signature once the others leave
  it alone, and what two publishers that race leave behind in the history.
\<close>

subsection \<open>The calls over a store that keeps its promises\<close>

lemma memory_calls [simp]:
  "blob_get (memory_ops H) s k = Inr (map_option (\<lambda>b. (b, etag_of H b)) (map_of s k))"
  "blob_put (memory_ops H) s k b pre =
     (case check_pre H pre (map_of s k) of
        Inl e \<Rightarrow> (s, Inl e) | Inr _ \<Rightarrow> (AList.update k b s, Inr (etag_of H b)))"
  "blob_delete (memory_ops H) s k pre =
     (case check_pre H pre (map_of s k) of Inl e \<Rightarrow> (s, Inl e) | Inr _ \<Rightarrow> (AList.delete k s, Inr ()))"
  by (simp_all add: memory_ops_def memory_get_def memory_put_def memory_delete_def)

text \<open>The hashing of the demonstrations: a body is its own tag.\<close>

definition plain_hash :: hash_env where
  "plain_hash = \<lparr>sha256 = (\<lambda>b. b), hexlower = bytes_string\<rparr>"

definition stores :: "keyring_env \<Rightarrow> (string \<Rightarrow> bytes option) \<Rightarrow> string \<Rightarrow> Keyring \<Rightarrow> bool" where
  "stores V m key k \<longleftrightarrow> (\<exists>b. m key = Some b \<and> kv_decode V b = Some k)"

definition history_of :: "keyring_env \<Rightarrow> (string \<Rightarrow> bytes option) \<Rightarrow> Keyring list \<Rightarrow> bool" where
  "history_of V m ks \<longleftrightarrow> (\<forall>k \<in> set ks. stores V m (rev_key (k_revision k)) k)"

lemma fetch_history:
  "history_of V (map_of s) ks \<Longrightarrow> fetch_hops (memory_ops H) V s (map k_revision ks) = Inr ks"
  by (induction ks) (auto simp: history_of_def stores_def sync_decode_def)

lemma skipped_walk:
  assumes "keyring_walk V a (ks @ [h]) = Inr b"
  shows "skipped_revisions (ka_revision a) (k_revision h) = map k_revision ks"
    "ka_revision a < k_revision h"
proof -
  obtain a' where w: "keyring_walk V a ks = Inr a'" and t: "keyring_transition V a' h = Inr b"
    using assms by (auto simp: walk_append split: sum.splits)
  have h: "unat (k_revision h) = Suc (unat (ka_revision a) + length ks)"
    using walk_anchor [OF w] transition_anchor [OF t] by simp
  have "map (\<lambda>k. unat (k_revision k)) ks = [Suc (unat (ka_revision a)) ..< unat (k_revision h)]"
    using walk_anchor [OF w] h by simp
  then have "map (of_nat o (\<lambda>k. unat (k_revision k))) ks =
      (map of_nat [Suc (unat (ka_revision a)) ..< unat (k_revision h)] :: u32 list)"
    by (metis map_map)
  moreover show lt: "ka_revision a < k_revision h" using h by (simp add: word_less_nat_alt)
  moreover have "ka_revision a \<noteq> - 1" using lt word_order.extremum_strict [of "k_revision h"] by metis
  then have "unat (ka_revision a + 1) = Suc (unat (ka_revision a))"
    by (intro next_revision_unat) (simp add: next_revision_def)
  ultimately show "skipped_revisions (ka_revision a) (k_revision h) = map k_revision ks"
    by (simp add: skipped_revisions_def comp_def)
qed

lemma pull_reaches:
  assumes "kb_anchor c = Some a" "keyring_walk V a (ks @ [h]) = Inr b"
    and "history_of V (map_of (kb_store c)) ks"
    and "map_of (kb_store c) HEAD_KEY = Some hb" "kv_decode V hb = Some h"
  shows "sync_pull (memory_ops H) V c =
    (c\<lparr>kb_anchor := Some b, kb_head_etag := Some (etag_of H hb)\<rparr>, Inr (Some hb))"
  using assms skipped_walk [OF assms(2)] fetch_history [OF assms(3), of H]
  by (simp add: sync_pull_def sync_decode_def order_less_imp_not_less order_less_imp_not_eq2)

subsection \<open>What is published is pulled\<close>

text \<open>A replica publishing one keyring after the other.\<close>

fun publish_all ::
  "'s blob_ops \<Rightarrow> keyring_env \<Rightarrow> Keyring list \<Rightarrow> 's keyring_sync \<Rightarrow> 's keyring_sync option" where
  "publish_all ops V [] c = Some c"
| "publish_all ops V (k # ks) c =
     (case publish ops V (kv_encode V k) c of
        (c, Inr _) \<Rightarrow> publish_all ops V ks c
      | (_, Inl _) \<Rightarrow> None)"

text \<open>The publisher has seen the head, and the history holds none of the revisions to come.\<close>

definition ready_to_publish :: "hash_env \<Rightarrow> memory_blob keyring_sync \<Rightarrow> Keyring list \<Rightarrow> bool" where
  "ready_to_publish H c ks \<longleftrightarrow>
     kb_head_etag c = map_option (etag_of H) (map_of (kb_store c) HEAD_KEY) \<and>
     distinct (map k_revision ks) \<and>
     (\<forall>k \<in> set ks. map_of (kb_store c) (rev_key (k_revision k)) = None)"

lemma publish_one:
  assumes "ready_to_publish H c (k # ks)" "kv_decode V (kv_encode V k) = Some k"
  shows "\<exists>c'. publish (memory_ops H) V (kv_encode V k) c = (c', Inr ()) \<and> ready_to_publish H c' ks \<and>
    map_of (kb_store c') =
      (map_of (kb_store c))(rev_key (k_revision k) \<mapsto> kv_encode V k, HEAD_KEY \<mapsto> kv_encode V k)"
proof -
  let ?b = "kv_encode V k" and ?r = "rev_key (k_revision k)"
  let ?s = "AList.update HEAD_KEY ?b (AList.update ?r ?b (kb_store c))"
  let ?c = "\<lparr>kb_store = ?s, kb_anchor = Some (from_keyring V k), kb_head_etag = Some (etag_of H ?b)\<rparr>"
  have pre: "check_pre H (head_pre (kb_head_etag c)) (map_of (kb_store c) HEAD_KEY) = Inr ()"
    using assms(1) by (cases "map_of (kb_store c) HEAD_KEY") (simp_all add: ready_to_publish_def head_pre_def)
  have "publish (memory_ops H) V ?b c = (?c, Inr ())"
    using assms pre
    by (simp add: publish_def publish_revision_def publish_head_def sync_decode_def ready_to_publish_def update_conv')
  moreover have "ready_to_publish H ?c ks"
    using assms(1) by (auto simp: ready_to_publish_def update_conv' rev_image_eqI)
  ultimately show ?thesis by (intro exI [of _ ?c]) (simp add: update_conv')
qed

lemma publish_all_stores:
  assumes "ready_to_publish H c ks" "\<forall>k \<in> set ks. kv_decode V (kv_encode V k) = Some k"
  shows "\<exists>c'. publish_all (memory_ops H) V ks c = Some c' \<and> history_of V (map_of (kb_store c')) ks \<and>
    (\<forall>key. key \<noteq> HEAD_KEY \<longrightarrow> key \<notin> (\<lambda>k. rev_key (k_revision k)) ` set ks \<longrightarrow>
       map_of (kb_store c') key = map_of (kb_store c) key) \<and>
    map_of (kb_store c') HEAD_KEY =
      (if ks = [] then map_of (kb_store c) HEAD_KEY else Some (kv_encode V (last ks)))"
  using assms
proof (induction ks arbitrary: c)
  case (Cons k ks)
  obtain c1 where c1: "publish (memory_ops H) V (kv_encode V k) c = (c1, Inr ())" "ready_to_publish H c1 ks"
      "map_of (kb_store c1) =
        (map_of (kb_store c))(rev_key (k_revision k) \<mapsto> kv_encode V k, HEAD_KEY \<mapsto> kv_encode V k)"
    using publish_one [OF Cons.prems(1)] Cons.prems(2) by auto
  obtain c2 where c2: "publish_all (memory_ops H) V ks c1 = Some c2" "history_of V (map_of (kb_store c2)) ks"
      "\<forall>key. key \<noteq> HEAD_KEY \<longrightarrow> key \<notin> (\<lambda>k. rev_key (k_revision k)) ` set ks \<longrightarrow>
         map_of (kb_store c2) key = map_of (kb_store c1) key"
      "map_of (kb_store c2) HEAD_KEY =
        (if ks = [] then map_of (kb_store c1) HEAD_KEY else Some (kv_encode V (last ks)))"
    using Cons.IH [OF c1(2)] Cons.prems(2) by auto
  have "k_revision k \<notin> k_revision ` set ks" using Cons.prems(1) by (simp add: ready_to_publish_def)
  then have "rev_key (k_revision k) \<notin> (\<lambda>k. rev_key (k_revision k)) ` set ks" by auto
  then have "map_of (kb_store c2) (rev_key (k_revision k)) = Some (kv_encode V k)"
    using c2(3) c1(3) by (metis fun_upd_apply keys_apart(1))
  then have "history_of V (map_of (kb_store c2)) (k # ks)"
    using c2(2) Cons.prems(2) by (auto simp: history_of_def stores_def)
  then show ?case using c1(1,3) c2 by (intro exI [of _ c2]) auto
qed (simp add: history_of_def)

text \<open>C18: what one replica publishes every other one gets.  Let the publisher have seen the head
  that the store has now, let the history hold none of the revisions to come (a stale one strands
  the readers, \<open>publish_race_strands\<close>), and let each keyring decode from its own
  encoding.  If the keyrings are accepted successors of the anchor of a lagging replica,
  publishing them in order succeeds, and the next pull of any replica with that anchor brings
  it to the last of them, however many it skipped.\<close>

theorem published_is_pulled:
  assumes "keyring_walk V a ks = Inr b" "ks \<noteq> []"
    and "\<forall>k \<in> set ks. kv_decode V (kv_encode V k) = Some k"
    and "ready_to_publish H publisher ks"
  shows "\<exists>pub. publish_all (memory_ops H) V ks publisher = Some pub \<and>
    (\<forall>reader. kb_anchor reader = Some a \<and> kb_store reader = kb_store pub \<longrightarrow>
       snd (sync_pull (memory_ops H) V reader) = Inr (Some (kv_encode V (last ks))) \<and>
       kb_anchor (fst (sync_pull (memory_ops H) V reader)) = Some b)"
proof -
  obtain pub where d: "publish_all (memory_ops H) V ks publisher = Some pub"
      "history_of V (map_of (kb_store pub)) ks"
      "map_of (kb_store pub) HEAD_KEY = Some (kv_encode V (last ks))"
    using publish_all_stores [OF assms(4,3)] assms(2) by auto
  have ks: "ks = butlast ks @ [last ks]" using assms(2) by simp
  then have w: "keyring_walk V a (butlast ks @ [last ks]) = Inr b" using assms(1) by simp
  have h: "history_of V (map_of (kb_store pub)) (butlast ks)"
    using d(2) by (auto simp: history_of_def dest: in_set_butlastD)
  have last: "kv_decode V (kv_encode V (last ks)) = Some (last ks)" using assms(2,3) by simp
  have "snd (sync_pull (memory_ops H) V r) = Inr (Some (kv_encode V (last ks))) \<and>
      kb_anchor (fst (sync_pull (memory_ops H) V r)) = Some b"
    if "kb_anchor r = Some a" "kb_store r = kb_store pub" for r :: "memory_blob keyring_sync"
    using pull_reaches [of r a V "butlast ks" "last ks" b "kv_encode V (last ks)" H] that w h d(3) last by simp
  then show ?thesis using d(1) by blast
qed

theorem published_is_pulled_witness:
  "\<exists>pub. publish_all (memory_ops plain_hash) demo_binding [demo_second] (sync_new []) = Some pub \<and>
     snd (sync_pull (memory_ops plain_hash) demo_binding (pub\<lparr>kb_anchor := Some (demo_anchor_at 1 0)\<rparr>)) =
       Inr (Some (kv_encode demo_binding demo_second))"
proof -
  have "keyring_walk demo_binding (demo_anchor_at 1 0) [demo_second] = Inr (demo_anchor_at 2 2)"
    by (simp add: demo_step_second)
  moreover have "\<forall>k \<in> set [demo_second]. kv_decode demo_binding (kv_encode demo_binding k) = Some k"
    by (simp add: demo_wire_def) (simp add: demo_second_def demo_keyring_def)
  moreover have "ready_to_publish plain_hash (sync_new []) [demo_second]"
    by (simp add: ready_to_publish_def sync_new_def)
  ultimately show ?thesis
    using published_is_pulled [of demo_binding "demo_anchor_at 1 0" "[demo_second]" "demo_anchor_at 2 2" plain_hash "sync_new []"]
    by fastforce
qed

subsection \<open>Signing what was reviewed\<close>

text \<open>C19: a signer puts its name under nothing but what it reviewed, whatever the store serves and
  whoever interferes: any property of the store survives a countersigning as long as the
  others keep it and so does the writing of a signed keyring whose signed bytes are those of
  the reviewed draft.\<close>

theorem countersign_reviewed_only:
  assumes "kv_decode V reviewed_bytes = Some reviewed"
    and "\<And>s n. P s \<Longrightarrow> P (others n s)"
    and "\<And>s k e. P s \<Longrightarrow> keyring_signing_bytes V k = keyring_signing_bytes V reviewed \<Longrightarrow>
      P (fst (blob_put ops s (draft_key i) (kv_encode V (sign_keyring V key k)) (IfMatch e)))"
    and "P (kb_store c)"
  shows "P (kb_store (fst (countersign ops V others fuel c i reviewed_bytes key)))"
proof -
  have "P (fst (countersign_loop ops V others (keyring_signing_bytes V reviewed) (draft_key i) key fuel n s))"
    if "P s" for n s
    using that
  proof (induction fuel arbitrary: n s)
    case (Suc fuel)
    have next_ok: "P s'" if "blob_put ops (others n s) (draft_key i) (kv_encode V (sign_keyring V key k)) (IfMatch e) = (s', r)"
        "keyring_signing_bytes V k = keyring_signing_bytes V reviewed" for k e s' r
      using assms(3) [OF assms(2) [OF Suc.prems] that(2), of n e] that(1) by simp
    show ?case
      using Suc.prems next_ok Suc.IH
      by (simp split: sum.split option.split prod.split blob_error.split)
  qed simp
  from this [OF assms(4), of 0] show ?thesis
    using assms(1) by (auto simp: countersign_def sync_decode_def split: prod.split)
qed

theorem countersign_reviewed_only_witness:
  "map_of (kb_store (fst (countersign (memory_ops plain_hash) demo_binding (\<lambda>n s. s) 3
     \<lparr>kb_store = [(draft_key ''x'', [2])], kb_anchor = None, kb_head_etag = None\<rparr> ''x'' [2] [1]))) HEAD_KEY = None"
  by (rule countersign_reviewed_only [of demo_binding "[2]" demo_second])
    (simp_all add: demo_wire_def update_conv' split: sum.split)

text \<open>A draft with the reviewed content.\<close>

definition draft_intact :: "keyring_env \<Rightarrow> string \<Rightarrow> bytes \<Rightarrow> memory_blob \<Rightarrow> bool" where
  "draft_intact V dkey content s \<longleftrightarrow>
     (\<exists>k. stores V (map_of s) dkey k \<and> keyring_signing_bytes V k = content)"

text \<open>C20: countersigning ends.  The draft must keep the reviewed content: between the read and
  the write of every round the others may rewrite it with signatures of their own, but not with
  other content, and not delete it (a draft that is gone or of other content is refused).
  Then the call returns success in the first round \<open>m\<close> in which they leave the draft as it is,
  whatever they do to the rest of the store, and the draft that is left is one of the
  reviewed content with the signer's own signature on it.\<close>

theorem countersign_returns:
  assumes "kv_decode V reviewed_bytes = Some reviewed"
    and "\<And>s n. draft_intact V (draft_key i) (keyring_signing_bytes V reviewed) s \<Longrightarrow>
      draft_intact V (draft_key i) (keyring_signing_bytes V reviewed) (others n s)"
    and "\<And>s. map_of (others m s) (draft_key i) = map_of s (draft_key i)" "m < fuel"
    and "draft_intact V (draft_key i) (keyring_signing_bytes V reviewed) (kb_store c)"
  shows "\<exists>c' k. countersign (memory_ops H) V others fuel c i reviewed_bytes key = (c', Some (Inr ())) \<and>
    map_of (kb_store c') (draft_key i) = Some (kv_encode V (sign_keyring V key k)) \<and>
    keyring_signing_bytes V k = keyring_signing_bytes V reviewed"
proof -
  let ?c = "keyring_signing_bytes V reviewed" and ?d = "draft_key i"
  have "\<exists>s' k. countersign_loop (memory_ops H) V others ?c ?d key f n s = (s', Some (Inr ())) \<and>
      map_of s' ?d = Some (kv_encode V (sign_keyring V key k)) \<and> keyring_signing_bytes V k = ?c"
    if "draft_intact V ?d ?c s" "n \<le> m" "m < n + f" for f n s
    using that
  proof (induction f arbitrary: n s)
    case (Suc f)
    obtain b k where b: "map_of s ?d = Some b" "kv_decode V b = Some k" "keyring_signing_bytes V k = ?c"
      using Suc.prems(1) by (auto simp: draft_intact_def stores_def)
    show ?case
    proof (cases "check_pre H (IfMatch (etag_of H b)) (map_of (others n s) ?d)")
      case (Inl e)
      then have e: "e = PreconditionFailed" and "n \<noteq> m"
        using check_pre_cases [of H "IfMatch (etag_of H b)" "map_of (others n s) ?d"] b(1) assms(3) [of s] by (auto simp del: map_of_eq_None_iff)
      then have "n < m" "m < Suc n + f" using Suc.prems by simp_all
      with Suc.IH [OF assms(2) [OF Suc.prems(1)], of "Suc n" n] show ?thesis
        using b Inl e by (simp add: sync_decode_def)
    next
      case (Inr u)
      then show ?thesis using b by (auto simp: sync_decode_def update_conv')
    qed
  qed simp
  from this [OF assms(5), of 0 fuel] show ?thesis
    using assms(1,4) by (auto simp: countersign_def sync_decode_def)
qed

theorem countersign_returns_witness:
  "\<exists>c' k. countersign (memory_ops plain_hash) demo_binding (\<lambda>n s. s) 1
      \<lparr>kb_store = [(draft_key ''x'', [2])], kb_anchor = None, kb_head_etag = None\<rparr> ''x'' [2] [1] = (c', Some (Inr ())) \<and>
    map_of (kb_store c') (draft_key ''x'') = Some (kv_encode demo_binding (sign_keyring demo_binding [1] k)) \<and>
    keyring_signing_bytes demo_binding k = keyring_signing_bytes demo_binding demo_second"
  by (rule countersign_returns [where m = 0])
    (auto simp: draft_intact_def stores_def demo_wire_def)

subsection \<open>Two publishers of one revision\<close>




theorem trust_only_walks_witness:
  "\<exists>c b hops. verified_step (memory_ops plain_hash) demo_binding
      \<lparr>kb_store = [(HEAD_KEY, [2])], kb_anchor = Some (demo_anchor_at 1 0), kb_head_etag = None\<rparr> c \<and>
    kb_anchor c = Some b \<and> keyring_walk demo_binding (demo_anchor_at 1 0) hops = Inr b \<and> ka_revision b = 2"
proof -
  let ?c = "\<lparr>kb_store = [(HEAD_KEY, [2])], kb_anchor = Some (demo_anchor_at 1 0), kb_head_etag = None\<rparr> :: memory_blob keyring_sync"
  have "keyring_walk demo_binding (demo_anchor_at 1 0) ([] @ [demo_second]) = Inr (demo_anchor_at 2 2)"
    by (simp add: demo_step_second)
  from pull_reaches [OF _ this, of ?c "[2]" plain_hash]
  have p: "sync_pull (memory_ops plain_hash) demo_binding (?c\<lparr>kb_store := kb_store ?c\<rparr>) =
      (?c\<lparr>kb_anchor := Some (demo_anchor_at 2 2), kb_head_etag := Some (etag_of plain_hash [2])\<rparr>, Inr (Some [2]))"
    by (simp add: history_of_def demo_wire_def)
  let ?d = "?c\<lparr>kb_anchor := Some (demo_anchor_at 2 2), kb_head_etag := Some (etag_of plain_hash [2])\<rparr>"
  have step: "verified_step (memory_ops plain_hash) demo_binding ?c ?d" using p by (rule pull_step)
  have "kb_anchor ?c = Some (demo_anchor_at 1 0)" by simp
  from trust_only_walks [OF r_into_rtranclp [of "verified_step (memory_ops plain_hash) demo_binding", OF step] this]
  obtain b hops where "kb_anchor ?d = Some b" "keyring_walk demo_binding (demo_anchor_at 1 0) hops = Inr b" by blast
  then have "\<exists>hops. keyring_walk demo_binding (demo_anchor_at 1 0) hops = Inr (demo_anchor_at 2 2)" by auto
  moreover have "ka_revision (demo_anchor_at 2 2) = 2" "kb_anchor ?d = Some (demo_anchor_at 2 2)"
    by (simp_all add: demo_anchor_at_def)
  ultimately show ?thesis using step by blast
qed

text \<open>Three keyrings that race, on a wire that tells them apart.\<close>

definition race_keyring :: "u32 \<Rightarrow> u32 \<Rightarrow> bytes \<Rightarrow> Keyring" where
  "race_keyring n shared prev = demo_keyring n shared prev [demo_member ''o'' 1 1]"

definition race_hash :: "u8 \<Rightarrow> bytes" where
  "race_hash b = replicate 31 5 @ [b]"

definition race_loser :: Keyring where "race_loser = race_keyring 2 2 (race_hash 0)"
definition race_winner :: Keyring where "race_winner = race_keyring 2 1 (race_hash 0)"
definition race_later :: Keyring where "race_later = race_keyring 3 1 (race_hash 1)"

definition race_wire :: keyring_env where
  "race_wire = (demo_wire (\<lambda>b. race_hash (last b)))
     \<lparr>kv_decode := (\<lambda>b. if b = [1] then Some race_loser else if b = [2] then Some race_winner else Some race_later),
      kv_encode := (\<lambda>k. if k = race_loser then [1] else if k = race_winner then [2] else [3])\<rparr>"


lemma last_u32_be [simp]: "last (u32_be w) = ucast w" "u32_be w \<noteq> []"
proof -
  have "u32_be w = nat_be 3 (unat w div 256) @ [of_nat (unat w)]"
    using nat_be.simps(2) [of 3 "unat w"] by (simp add: u32_be_def)
  then show "last (u32_be w) = ucast w" "u32_be w \<noteq> []" by simp_all
qed


lemma race_sha [simp]: "kv_sha race_wire b = race_hash (last b)"
  by (simp add: race_wire_def demo_wire_def)






end
