(* ===== verification/Verify_Ingest.thy ===== *)
theory Verify_Ingest
  imports Keyring_Chain Envelope
begin

text \<open>
  The decision to trust a peer's entry (\<open>packages/openom-vault\<close>): the check of an author's signature
  and role (\<open>src/attribution.rs\<close>), who moderates (\<open>src/membership.rs\<close>), and the table that accepts,
  holds, rejects or drops an entry by the membership that governs it, with the resolvers of the two
  keyring engines (\<open>src/verify.rs\<close>).  Ed25519 and SHA-256 are those of the keyring environment; the
  text form of a public key and the resolved state of a DAG anchor are parameters.  The texts of
  construction errors are shortened.
\<close>

subsection \<open>Attribution\<close>

datatype EntryError =
    Unattributed | UnsupportedKind | EpochMismatch | UnknownAuthor | BadAuthorKey | BadSignature
  | InsufficientRole

definition verify_entry ::
  "keyring_env \<Rightarrow> u32 \<Rightarrow> Header \<Rightarrow> bytes \<Rightarrow> MembershipView \<Rightarrow> bytes \<Rightarrow> EntryError + unit" where
  "verify_entry V version header plaintext view newest_key_id =
     (if h_author_signature header = [] then Inl Unattributed
      else case kind_try_from (h_kind header) of
        None \<Rightarrow> Inl UnsupportedKind
      | Some kind \<Rightarrow>
          (case required_role_for_kind kind of
             None \<Rightarrow> Inl UnsupportedKind
           | Some required \<Rightarrow>
               if h_key_id header \<noteq> newest_key_id then Inl EpochMismatch
               else (case find_member (h_author_member_id header) view of
                       None \<Rightarrow> Inl UnknownAuthor
                     | Some member \<Rightarrow>
                         if length (mv_author_public_key member) \<noteq> 32 then Inl BadAuthorKey
                         else if \<not> kv_accepts V (mv_author_public_key member) then Inl BadAuthorKey
                         else if length (h_author_signature header) \<noteq> 64 then Inl BadSignature
                         else if \<not> kv_verify V (mv_author_public_key member)
                                   (author_signing_bytes version header (kv_sha V plaintext))
                                   (h_author_signature header)
                         then Inl BadSignature
                         else if required < mv_role member then Inl InsufficientRole
                         else Inr ())))"

definition keyring_has_been_shared :: "Keyring \<Rightarrow> bool" where
  "keyring_has_been_shared keyring \<longleftrightarrow> k_first_shared_revision keyring \<noteq> 0"

definition epoch_is_attributed :: "keyring_env \<Rightarrow> Keyring \<Rightarrow> bytes \<Rightarrow> bool" where
  "epoch_is_attributed V keyring key_id =
     (let founder = map_option m_member_id (find_owner (k_members keyring))
      in case key_material V keyring of
           None \<Rightarrow> True
         | Some epochs \<Rightarrow>
             let hits = filter (\<lambda>e. ep_key_id e = key_id) epochs
             in if hits = [] then True
                else list_ex (\<lambda>e. list_ex (\<lambda>w. Some (wr_recipient w) \<noteq> founder) (ep_wraps e)) hits)"

subsection \<open>Moderators\<close>

text \<open>The \<open>did:key\<close> of a 32-byte key; other keys have none.\<close>

definition did_of_key :: "(bytes \<Rightarrow> string) \<Rightarrow> bytes \<Rightarrow> string option" where
  "did_of_key did pk = (if length pk = 32 then Some (did pk) else None)"

definition moderators :: "(bytes \<Rightarrow> string) \<Rightarrow> MembershipView \<Rightarrow> string btset" where
  "moderators did view =
     bs_of_list (List.map_filter (\<lambda>m. did_of_key did (mv_author_public_key m))
       (filter (\<lambda>m. API_ROLE_OWNER \<le> mv_role m \<and> mv_role m \<le> API_ROLE_MAINTAINER) (vw_members view)))"

definition view_author_did :: "(bytes \<Rightarrow> string) \<Rightarrow> MembershipView \<Rightarrow> string \<Rightarrow> string option" where
  "view_author_did did view member_id =
     (case find_member member_id view of
        None \<Rightarrow> None
      | Some m \<Rightarrow> did_of_key did (mv_author_public_key m))"

definition view_is_moderator :: "(bytes \<Rightarrow> string) \<Rightarrow> MembershipView \<Rightarrow> string \<Rightarrow> bool" where
  "view_is_moderator did view author_did \<longleftrightarrow> author_did \<in> set (moderators did view)"

subsection \<open>The seam over the engines\<close>

datatype Governing =
    GUnattributed
  | GResolved MembershipView bytes bool "MembershipView option"
  | GNotYetRetained
  | GIllegitimate

record Resolver =
  rs_shared :: bool
  rs_resolve :: "bytes \<Rightarrow> bytes \<Rightarrow> Governing"
  rs_ever_member_info :: "string \<Rightarrow> EverMemberInfo option"
  rs_current_member :: "string \<Rightarrow> bool"
  rs_author_did :: "string \<Rightarrow> string option"
  rs_is_moderator :: "string \<Rightarrow> bool"

datatype Disposition = DAccept | DHold | DReject | DDrop

definition head_disposition :: "Header \<Rightarrow> MembershipView \<Rightarrow> MembershipView option \<Rightarrow> Disposition" where
  "head_disposition header governing head_view =
     (case head_view of
        None \<Rightarrow> DAccept
      | Some head \<Rightarrow>
          (case kind_try_from (h_kind header) of
             None \<Rightarrow> DReject
           | Some kind \<Rightarrow>
               (case required_role_for_kind kind of
                  None \<Rightarrow> DReject
                | Some required \<Rightarrow>
                    let governing_key = map_option mv_author_public_key
                          (find_member (h_author_member_id header) governing)
                    in case find_member (h_author_member_id header) head of
                         Some hm \<Rightarrow>
                           if mv_role hm \<le> required \<and> Some (mv_author_public_key hm) = governing_key
                           then DAccept else DDrop
                       | None \<Rightarrow> DDrop)))"

definition verify_or_reject ::
  "keyring_env \<Rightarrow> u32 \<Rightarrow> Header \<Rightarrow> MembershipView \<Rightarrow> bytes \<Rightarrow> bytes option \<Rightarrow> Disposition" where
  "verify_or_reject V version header view expected_key_id opened =
     (case opened of
        None \<Rightarrow> DReject
      | Some plaintext \<Rightarrow>
          (case verify_entry V version header plaintext view expected_key_id of
             Inr _ \<Rightarrow> DAccept
           | Inl _ \<Rightarrow> DReject))"

definition verify_ingest ::
  "keyring_env \<Rightarrow> u32 \<Rightarrow> Resolver \<Rightarrow> Header \<Rightarrow> bytes \<Rightarrow> bytes \<Rightarrow> bytes option \<Rightarrow> Disposition" where
  "verify_ingest V version membership header gref key_id opened =
     (case (rs_shared membership, rs_resolve membership gref key_id) of
        (True, GUnattributed) \<Rightarrow> DReject
      | (True, GIllegitimate) \<Rightarrow> DReject
      | (True, GNotYetRetained) \<Rightarrow> DHold
      | (True, GResolved view expected_key_id _ head_view) \<Rightarrow>
          (case verify_or_reject V version header view expected_key_id opened of
             DAccept \<Rightarrow> head_disposition header view head_view
           | d \<Rightarrow> d)
      | (False, GUnattributed) \<Rightarrow> DAccept
      | (False, GIllegitimate) \<Rightarrow> DReject
      | (False, GNotYetRetained) \<Rightarrow> DHold
      | (False, GResolved view expected_key_id epoch_attributed _) \<Rightarrow>
          if \<not> epoch_attributed then DAccept
          else verify_or_reject V version header view expected_key_id opened)"

definition verify_covered_entry ::
  "keyring_env \<Rightarrow> u32 \<Rightarrow> Header \<Rightarrow> bytes \<Rightarrow> string \<Rightarrow> bytes \<Rightarrow> int \<Rightarrow> bool" where
  "verify_covered_entry V version header plaintext author_member_id author_public_key author_role =
     (let view = view_new [\<lparr>mv_member_id = author_member_id, mv_role = author_role,
                            mv_author_public_key = author_public_key, mv_hpke_public_key = []\<rparr>] False
      in verify_entry V version header plaintext view (h_key_id header) = Inr ())"

subsection \<open>The resolver of the chain\<close>

definition HEAD_LOOKAHEAD :: u32 where "HEAD_LOOKAHEAD = 16"

definition saturating_add32 :: "u32 \<Rightarrow> u32 \<Rightarrow> u32" where
  "saturating_add32 a b = (if a + b < a then - 1 else a + b)"

record ChainMembershipResolver =
  cr_head :: Keyring
  cr_head_revision :: u32
  cr_retained :: "(u32, Keyring) btmap"

fun chain_retain ::
  "keyring_env \<Rightarrow> Keyring \<Rightarrow> (u32, Keyring) btmap \<Rightarrow> (u32 \<times> bytes) list \<Rightarrow> string + (u32, Keyring) btmap" where
  "chain_retain V head m [] = Inr m"
| "chain_retain V head m ((n, b) # rest) =
     (case kv_decode V b of
        None \<Rightarrow> Inl ''bad keyring''
      | Some kr \<Rightarrow>
          if k_revision kr \<noteq> n then Inl ''retained keyring declares another revision''
          else if k_tree_id kr \<noteq> k_tree_id head then Inl ''retained keyring is for a different tree''
          else chain_retain V head (bt_insert n kr m) rest)"

definition chain_resolver_new ::
  "keyring_env \<Rightarrow> bytes \<Rightarrow> (u32 \<times> bytes) list \<Rightarrow> string + ChainMembershipResolver" where
  "chain_resolver_new V head_bytes retained =
     (case kv_decode V head_bytes of
        None \<Rightarrow> Inl ''bad head keyring''
      | Some head \<Rightarrow>
          (case chain_retain V head [] retained of
             Inl e \<Rightarrow> Inl e
           | Inr m \<Rightarrow> Inr \<lparr>cr_head = head, cr_head_revision = k_revision head, cr_retained = m\<rparr>))"

definition newest_key_id :: "keyring_env \<Rightarrow> Keyring \<Rightarrow> bytes" where
  "newest_key_id V kr =
     (case key_material V kr of
        None \<Rightarrow> []
      | Some epochs \<Rightarrow> (case newest_epoch epochs of None \<Rightarrow> [] | Some e \<Rightarrow> ep_key_id e))"

definition chain_resolve :: "keyring_env \<Rightarrow> ChainMembershipResolver \<Rightarrow> bytes \<Rightarrow> bytes \<Rightarrow> Governing" where
  "chain_resolve V c gref key_id =
     (let n = (case decode_governing_ref gref of None \<Rightarrow> 0 | Some n \<Rightarrow> n)
      in if n = 0 then GUnattributed
         else case bt_get (cr_retained c) n of
                Some kr \<Rightarrow>
                  GResolved (membership_view kr) (newest_key_id V kr) (epoch_is_attributed V kr key_id)
                    (Some (membership_view (cr_head c)))
              | None \<Rightarrow>
                  if saturating_add32 (cr_head_revision c) HEAD_LOOKAHEAD < n then GIllegitimate
                  else GNotYetRetained)"

text \<open>The trait's defaults stand for what the chain does not answer.\<close>

definition chain_resolver :: "keyring_env \<Rightarrow> (bytes \<Rightarrow> string) \<Rightarrow> ChainMembershipResolver \<Rightarrow> Resolver" where
  "chain_resolver V did c =
     \<lparr>rs_shared = keyring_has_been_shared (cr_head c), rs_resolve = chain_resolve V c,
      rs_ever_member_info = (\<lambda>_. None), rs_current_member = (\<lambda>_. True),
      rs_author_did = view_author_did did (membership_view (cr_head c)),
      rs_is_moderator = view_is_moderator did (membership_view (cr_head c))\<rparr>"

subsection \<open>The resolver of the DAG\<close>

text \<open>What \<open>verify_inputs\<close> reads off a floor-checked anchor.\<close>

record DagMembershipResolver =
  dr_view :: MembershipView
  dr_has_been_shared :: bool
  dr_retained_epochs :: "bytes list"
  dr_ever_members :: "(string, EverMemberInfo) btmap"

definition dag_resolve :: "DagMembershipResolver \<Rightarrow> bytes \<Rightarrow> bytes \<Rightarrow> Governing" where
  "dag_resolve d gref key_id =
     (if gref = [] then GUnattributed
      else if key_id \<notin> set (dr_retained_epochs d) then GNotYetRetained
      else GResolved (dr_view d) key_id True None)"

definition dag_resolver :: "(bytes \<Rightarrow> string) \<Rightarrow> DagMembershipResolver \<Rightarrow> Resolver" where
  "dag_resolver did d =
     \<lparr>rs_shared = dr_has_been_shared d, rs_resolve = dag_resolve d,
      rs_ever_member_info = bt_get (dr_ever_members d),
      rs_current_member = (\<lambda>i. list_ex (\<lambda>m. mv_member_id m = i) (vw_members (dr_view d))),
      rs_author_did = view_author_did did (dr_view d),
      rs_is_moderator = view_is_moderator did (dr_view d)\<rparr>"

definition resolver_from ::
  "keyring_env \<Rightarrow> (bytes \<Rightarrow> string) \<Rightarrow> (bytes \<Rightarrow> string + DagMembershipResolver) \<Rightarrow> EngineKind \<Rightarrow> bytes \<Rightarrow>
     (u32 \<times> bytes) list \<Rightarrow> string + Resolver" where
  "resolver_from V did verify_inputs engine head retained =
     (case engine of
        EngineChain \<Rightarrow>
          (case chain_resolver_new V head retained of Inl e \<Rightarrow> Inl e | Inr c \<Rightarrow> Inr (chain_resolver V did c))
      | EngineDag \<Rightarrow>
          (case verify_inputs head of Inl e \<Rightarrow> Inl e | Inr d \<Rightarrow> Inr (dag_resolver did d)))"

subsection \<open>What an accepted signature shows\<close>

text \<open>The author of the header signed this header and this text with a key of 32 bytes.\<close>

definition authored_by :: "keyring_env \<Rightarrow> u32 \<Rightarrow> Header \<Rightarrow> bytes \<Rightarrow> bytes \<Rightarrow> bool" where
  "authored_by V version h plaintext key \<longleftrightarrow>
     length key = 32 \<and> kv_accepts V key \<and>
     kv_verify V key (author_signing_bytes version h (kv_sha V plaintext)) (h_author_signature h)"

definition may_write :: "Header \<Rightarrow> int \<Rightarrow> bool" where
  "may_write h role \<longleftrightarrow>
     (\<exists>kind required. kind_try_from (h_kind h) = Some kind \<and> required_role_for_kind kind = Some required \<and>
        role \<le> required)"

lemma verify_entry_ok:
  "verify_entry V version h plaintext view newest = Inr u \<longleftrightarrow>
     h_key_id h = newest \<and> length (h_author_signature h) = 64 \<and>
     (\<exists>m. find_member (h_author_member_id h) view = Some m \<and> may_write h (mv_role m) \<and>
        authored_by V version h plaintext (mv_author_public_key m))"
  by (auto simp: verify_entry_def may_write_def authored_by_def not_less split: option.splits)

lemma find_member_id: "find_member i view = Some m \<Longrightarrow> mv_member_id m = i \<and> m \<in> set (vw_members view)"
  by (auto simp: find_member_def find_Some_iff)

lemma find_member_single [simp]:
  "find_member i (view_new [m] b) = (if mv_member_id m = i then Some m else None)"
  by (simp add: find_member_def view_new_def)

lemma verify_or_reject_accept:
  "verify_or_reject V version h view key_id opened = DAccept \<longleftrightarrow>
     (\<exists>pt. opened = Some pt \<and> verify_entry V version h pt view key_id = Inr ())"
  by (auto simp: verify_or_reject_def split: option.split sum.split)

lemma verify_or_reject_range: "verify_or_reject V version h view key_id opened \<in> {DAccept, DReject}"
  by (simp add: verify_or_reject_def split: option.split sum.split)

lemma covered_entry_ok:
  "verify_covered_entry V version h pt i key role \<longleftrightarrow>
     length (h_author_signature h) = 64 \<and> h_author_member_id h = i \<and> may_write h role \<and>
     authored_by V version h pt key"
  by (auto simp: verify_covered_entry_def verify_entry_ok Let_def)

text \<open>On a shared tree an entry is accepted only if it resolves, verifies and passes the head.\<close>

lemma ingest_shared_accept:
  assumes "rs_shared r" "verify_ingest V version r h gref key_id opened = DAccept"
  obtains view expected a hv pt where "rs_resolve r gref key_id = GResolved view expected a hv"
    "opened = Some pt" "verify_entry V version h pt view expected = Inr ()"
    "head_disposition h view hv = DAccept"
proof (cases "rs_resolve r gref key_id")
  case (GResolved view expected a hv)
  then have "verify_or_reject V version h view expected opened = DAccept" "head_disposition h view hv = DAccept"
    using assms verify_or_reject_range [of V version h view expected opened]
    by (auto simp: verify_ingest_def split: Disposition.splits)
  then show ?thesis using that GResolved by (auto simp: verify_or_reject_accept)
qed (use assms in \<open>simp_all add: verify_ingest_def\<close>)

lemma head_accept:
  assumes "head_disposition h view (Some head) = DAccept" "find_member (h_author_member_id h) view = Some m"
  shows "\<exists>hm. find_member (h_author_member_id h) head = Some hm \<and> may_write h (mv_role hm) \<and>
    mv_author_public_key hm = mv_author_public_key m"
  using assms
  by (auto simp: head_disposition_def may_write_def Let_def split: option.splits if_splits)

text \<open>The seam's promise: the membership a resolver judges by is its head, directly or as the second
  look, and the committer it names is the head's.\<close>

locale head_authority =
  fixes r :: Resolver
    and head :: MembershipView
    and did :: "bytes \<Rightarrow> string"
  assumes looks_at_head:
      "rs_resolve r gref key_id = GResolved view expected a hv \<Longrightarrow> hv = Some head \<or> (hv = None \<and> view = head)"
    and did_at_head: "rs_author_did r i = view_author_did did head i"
    and moderates_at_head: "rs_is_moderator r d = view_is_moderator did head d"
begin

lemma accepted_at_head:
  assumes "rs_shared r" "verify_ingest V version r h gref key_id opened = DAccept"
  shows "\<exists>pt m. opened = Some pt \<and> length (h_author_signature h) = 64 \<and>
    find_member (h_author_member_id h) head = Some m \<and> may_write h (mv_role m) \<and>
    authored_by V version h pt (mv_author_public_key m)"
proof -
  obtain view expected a hv pt where g: "rs_resolve r gref key_id = GResolved view expected a hv"
      "opened = Some pt" "verify_entry V version h pt view expected = Inr ()" "head_disposition h view hv = DAccept"
    using ingest_shared_accept [OF assms] by blast
  obtain m where m: "find_member (h_author_member_id h) view = Some m" "may_write h (mv_role m)"
      "authored_by V version h pt (mv_author_public_key m)" "length (h_author_signature h) = 64"
    using g(3) by (auto simp: verify_entry_ok)
  from looks_at_head [OF g(1)] show ?thesis
  proof
    assume "hv = Some head"
    then show ?thesis using head_accept [of h view head m] g(2,4) m by auto
  qed (use g(2) m in auto)
qed

lemma unsigned_not_accepted:
  assumes "rs_shared r" "h_author_signature h = []"
  shows "verify_ingest V version r h gref key_id opened \<noteq> DAccept"
  using accepted_at_head [OF assms(1)] assms(2) by fastforce

text \<open>The committer of an entry intersects the moderators exactly as the member's role says.\<close>

lemma committer_moderates:
  assumes "find_member i head = Some m" "rs_author_did r i = Some d"
    and "API_ROLE_OWNER \<le> mv_role m" "mv_role m \<le> API_ROLE_MAINTAINER"
  shows "rs_is_moderator r d"
proof -
  have "did_of_key did (mv_author_public_key m) = Some d" "m \<in> set (vw_members head)"
    using assms(1,2) find_member_id by (auto simp: did_at_head view_author_did_def)
  then show ?thesis
    using assms(3,4)
    by (force simp: moderates_at_head view_is_moderator_def moderators_def List.map_filter_def)
qed

end

interpretation chain_head: head_authority "chain_resolver V did c" "membership_view (cr_head c)" did for V did c
  by unfold_locales
    (auto simp: chain_resolver_def chain_resolve_def Let_def split: option.splits if_splits)

interpretation dag_head: head_authority "dag_resolver did d" "dr_view d" did for did d
  by unfold_locales (auto simp: dag_resolver_def dag_resolve_def split: if_splits)

end
