(* ===== verification/App_Gate.thy ===== *)
theory App_Gate
  imports Verify_Ingest Docsync Keyring_Demo
begin

text \<open>
  The gate of the application core (\<open>packages/openom-app-core/src/lib.rs\<close>) in front of the sync
  client: which peer delta, snapshot or cover is let in, with the rescue of a removed member's entry
  that a cover blesses.  The gate is what \<open>pull_verified\<close> of \<open>Docsync\<close> is called with; its state is
  what the two closures share.  The decoders of the envelope and of the body of a cover are
  parameters.
\<close>

record gate_env =
  ge_keyring :: keyring_env
  ge_decode :: "bytes \<Rightarrow> Envelope option"
  ge_decode_cover :: "bytes \<Rightarrow> (bytes \<times> string) list option"

type_synonym covered_map = "(bytes, string) btmap"

fun disposition_to_verdict :: "Disposition \<Rightarrow> verdict" where
  "disposition_to_verdict DAccept = Accept"
| "disposition_to_verdict DHold = Hold"
| "disposition_to_verdict DReject = Reject"
| "disposition_to_verdict DDrop = Drop"

definition ingest_envelope :: "gate_env \<Rightarrow> Resolver \<Rightarrow> Envelope \<Rightarrow> Header \<Rightarrow> bytes \<Rightarrow> Disposition" where
  "ingest_envelope G membership envelope header plaintext =
     verify_ingest (ge_keyring G) (en_version envelope) membership header
       (h_governing_ref header) (h_key_id header) (Some plaintext)"

definition classify_entry ::
  "gate_env \<Rightarrow> Resolver option \<Rightarrow> covered_map \<Rightarrow> bytes \<Rightarrow> bytes \<Rightarrow> string \<Rightarrow> verdict \<times> string" where
  "classify_entry G membership covered env plaintext own_did =
     (case membership of
        None \<Rightarrow> (Accept, own_did)
      | Some r \<Rightarrow>
          (case ge_decode G env of
             None \<Rightarrow> (Reject, [])
           | Some envelope \<Rightarrow>
               (case en_header envelope of
                  None \<Rightarrow> (Reject, [])
                | Some header \<Rightarrow>
                    let committer = (case rs_author_did r (h_author_member_id header) of None \<Rightarrow> [] | Some d \<Rightarrow> d);
                        verdict = ingest_envelope G r envelope header plaintext;
                        rescued = verdict = DReject \<and>
                          (case bt_get covered (kv_sha (ge_keyring G) (en_ciphertext envelope)) of
                             None \<Rightarrow> False
                           | Some member_id \<Rightarrow>
                               (case rs_ever_member_info r member_id of
                                  None \<Rightarrow> False
                                | Some info \<Rightarrow>
                                    list_ex (\<lambda>key. verify_covered_entry (ge_keyring G) (en_version envelope) header
                                      plaintext member_id key (ev_strongest_role info)) (ev_keys_ever_held info)))
                    in if rescued then (Accept, committer) else (disposition_to_verdict verdict, committer))))"

definition classify_snapshot_entry :: "gate_env \<Rightarrow> Resolver option \<Rightarrow> bytes \<Rightarrow> bytes \<Rightarrow> verdict" where
  "classify_snapshot_entry G membership env body =
     (case membership of
        None \<Rightarrow> Accept
      | Some r \<Rightarrow>
          (case ge_decode G env of
             None \<Rightarrow> Reject
           | Some envelope \<Rightarrow>
               (case en_header envelope of
                  None \<Rightarrow> Reject
                | Some header \<Rightarrow> disposition_to_verdict (ingest_envelope G r envelope header body))))"

fun insert_covered :: "(bytes \<times> string) list \<Rightarrow> covered_map \<Rightarrow> covered_map" where
  "insert_covered [] covered = covered"
| "insert_covered ((hash, member_id) # es) covered =
     insert_covered es (if hash \<noteq> [] \<and> member_id \<noteq> [] then bt_insert hash member_id covered else covered)"

definition fold_cover_entry ::
  "gate_env \<Rightarrow> Resolver option \<Rightarrow> covered_map \<Rightarrow> bytes \<Rightarrow> bytes \<Rightarrow> covered_map \<times> bool" where
  "fold_cover_entry G membership covered env body_plaintext =
     (case membership of
        None \<Rightarrow> (covered, False)
      | Some r \<Rightarrow>
          (case ge_decode G env of
             None \<Rightarrow> (covered, False)
           | Some envelope \<Rightarrow>
               (case en_header envelope of
                  None \<Rightarrow> (covered, False)
                | Some header \<Rightarrow>
                    if ingest_envelope G r envelope header body_plaintext \<noteq> DAccept then (covered, False)
                    else case ge_decode_cover G body_plaintext of
                           None \<Rightarrow> (covered, False)
                         | Some es \<Rightarrow> (insert_covered es covered, True))))"

text \<open>The closures of \<open>verify_gated\<close> over the state they share.\<close>

record gate_state =
  gs_covered :: covered_map
  gs_cover_envelopes :: "bytes list"
  gs_rejected :: nat

definition verify_gated :: "gate_env \<Rightarrow> Resolver option \<Rightarrow> string \<Rightarrow> gate_state gate_ops" where
  "verify_gated G membership own_did =
     \<lparr>classify = (\<lambda>g env pt r c.
        let (v, committer) = classify_entry G membership (gs_covered g) env pt own_did
        in (if v = Reject then g\<lparr>gs_rejected := Suc (gs_rejected g)\<rparr> else g, (v, committer))),
      fold_cover = (\<lambda>g env body r c.
        case fold_cover_entry G membership (gs_covered g) env body of
          (covered, True) \<Rightarrow>
            g\<lparr>gs_covered := covered, gs_cover_envelopes := gs_cover_envelopes g @ [env]\<rparr>
        | (covered, False) \<Rightarrow> g\<lparr>gs_covered := covered, gs_rejected := Suc (gs_rejected g)\<rparr>)\<rparr>"

text \<open>\<open>rebuild_covered\<close>: the covers kept, judged again; \<open>open_cover\<close> is the client's kind-strict open.\<close>

definition rebuild_covered ::
  "gate_env \<Rightarrow> Resolver option \<Rightarrow> (bytes \<Rightarrow> bytes option) \<Rightarrow> gate_state \<Rightarrow> gate_state" where
  "rebuild_covered G membership open_cover g =
     g\<lparr>gs_covered := foldl (\<lambda>covered env. case open_cover env of
          None \<Rightarrow> covered
        | Some body \<Rightarrow> fst (fold_cover_entry G membership covered env body)) [] (gs_cover_envelopes g)\<rparr>"

subsection \<open>The core over the sync client\<close>

datatype core_error = CoreSync sync_error | CoreStore blob_error

record ('e, 'k, 's) app_core =
  ac_client :: "('e, 'k, 's) client"
  ac_membership :: "Resolver option"
  ac_gate :: gate_state

definition core_gate :: "gate_env \<Rightarrow> ('e, 'x, 'k, 's) deps \<Rightarrow> ('e, 'k, 's) app_core \<Rightarrow> gate_state gate_ops" where
  "core_gate G D a = verify_gated G (ac_membership a) (en_author (en D) (c_engine (ac_client a)))"

definition core_result ::
  "('e, 'k, 's) app_core \<Rightarrow> (sync_error + nat) \<times> ('e, 'k, 's) client \<times> gate_state \<Rightarrow>
     (core_error + nat) \<times> ('e, 'k, 's) app_core" where
  "core_result a out =
     (case out of
        (r, c, g) \<Rightarrow> ((case r of Inl e \<Rightarrow> Inl (CoreSync e) | Inr n \<Rightarrow> Inr n), a\<lparr>ac_client := c, ac_gate := g\<rparr>))"

definition core_fold ::
  "gate_env \<Rightarrow> ('e, 'x, 'k, 's) deps \<Rightarrow> ('e, 'k, 's) app_core \<Rightarrow>
     (core_error + nat) \<times> ('e, 'k, 's) app_core" where
  "core_fold G D a = core_result a (pull_verified D (core_gate G D a) (ac_client a) (ac_gate a))"

definition core_retry_stalled ::
  "gate_env \<Rightarrow> ('e, 'x, 'k, 's) deps \<Rightarrow> ('e, 'k, 's) app_core \<Rightarrow>
     (core_error + nat) \<times> ('e, 'k, 's) app_core" where
  "core_retry_stalled G D a = core_result a (Docsync.retry_stalled D (core_gate G D a) (ac_client a) (ac_gate a))"

definition set_membership ::
  "gate_env \<Rightarrow> ('e, 'x, 'k, 's) deps \<Rightarrow> Resolver \<Rightarrow> ('e, 'k, 's) app_core \<Rightarrow>
     (core_error + nat) \<times> ('e, 'k, 's) app_core" where
  "set_membership G D membership a =
     (let a = a\<lparr>ac_membership := Some membership\<rparr>;
          open_cover = (\<lambda>env. case try_open_cover D (ac_client a) env of Inl _ \<Rightarrow> None | Inr b \<Rightarrow> Some b);
          a = a\<lparr>ac_gate := rebuild_covered G (ac_membership a) open_cover (ac_gate a)\<rparr>
      in case core_fold G D a of
           (Inl e, a) \<Rightarrow> (Inl e, a)
         | (Inr released, a) \<Rightarrow>
             (case core_retry_stalled G D a of
                (Inl e, a) \<Rightarrow> (Inl e, a)
              | (Inr unstalled, a) \<Rightarrow> (Inr (released + unstalled), a)))"

text \<open>One object of the sweep: the entry a cover should bless, if the reader would accept it so.\<close>

definition cover_candidate ::
  "gate_env \<Rightarrow> Resolver \<Rightarrow> covered_map \<Rightarrow> (bytes \<Rightarrow> bytes option) \<Rightarrow> bytes \<Rightarrow> (bytes \<times> string) option" where
  "cover_candidate G r covered open_delta env =
     (case ge_decode G env of
        None \<Rightarrow> None
      | Some envelope \<Rightarrow>
          (case en_header envelope of
             None \<Rightarrow> None
           | Some header \<Rightarrow>
               if h_kind header \<noteq> kind_value KDelta \<or> rs_current_member r (h_author_member_id header) then None
               else case rs_ever_member_info r (h_author_member_id header) of
                      None \<Rightarrow> None
                    | Some info \<Rightarrow>
                        let hash = kv_sha (ge_keyring G) (en_ciphertext envelope)
                        in if bt_get covered hash \<noteq> None then None
                           else case open_delta env of
                                  None \<Rightarrow> None
                                | Some plaintext \<Rightarrow>
                                    if list_ex (\<lambda>k. verify_covered_entry (ge_keyring G) (en_version envelope) header
                                         plaintext (h_author_member_id header) k (ev_strongest_role info))
                                       (ev_keys_ever_held info)
                                    then Some (hash, h_author_member_id header) else None))"

fun cover_sweep ::
  "gate_env \<Rightarrow> ('e, 'x, 'k, 's) deps \<Rightarrow> ('e, 'k, 's) client \<Rightarrow> Resolver \<Rightarrow> covered_map \<Rightarrow>
     (string \<times> etag) list \<Rightarrow> blob_error + (bytes \<times> string) list" where
  "cover_sweep G D c r covered [] = Inr []"
| "cover_sweep G D c r covered ((key, _) # keys) =
     (case blob_get (st D) (c_store c) key of
        Inl e \<Rightarrow> Inl e
      | Inr None \<Rightarrow> cover_sweep G D c r covered keys
      | Inr (Some (env, _)) \<Rightarrow>
          (case cover_sweep G D c r covered keys of
             Inl e \<Rightarrow> Inl e
           | Inr es \<Rightarrow>
               Inr ((case cover_candidate G r covered
                        (\<lambda>env. case try_open_delta D c env of Inl _ \<Rightarrow> None | Inr p \<Rightarrow> Some p) env of
                       None \<Rightarrow> [] | Some e \<Rightarrow> [e]) @ es)))"

definition author_cover ::
  "gate_env \<Rightarrow> ('e, 'x, 'k, 's) deps \<Rightarrow> ((bytes \<times> string) list \<Rightarrow> bytes) \<Rightarrow> ('e, 'k, 's) app_core \<Rightarrow>
     (core_error + bool) \<times> ('e, 'k, 's) app_core" where
  "author_cover G D encode_cover a =
     (case ac_membership a of
        None \<Rightarrow> (Inr False, a)
      | Some r \<Rightarrow>
          (case blob_list (st D) (c_store (ac_client a)) (c_doc (ac_client a) @ ''/log/'') of
             Inl e \<Rightarrow> (Inl (CoreStore e), a)
           | Inr keys \<Rightarrow>
               (case cover_sweep G D (ac_client a) r (gs_covered (ac_gate a)) keys of
                  Inl e \<Rightarrow> (Inl (CoreStore e), a)
                | Inr [] \<Rightarrow> (Inr False, a)
                | Inr es \<Rightarrow>
                    let covered = foldl (\<lambda>m (h, i). bt_insert h i m) (gs_covered (ac_gate a)) es;
                        a = a\<lparr>ac_gate := (ac_gate a)\<lparr>gs_covered := covered\<rparr>\<rparr>
                    in case push_cover D (ac_client a) (encode_cover es) of
                         (Inl e, c) \<Rightarrow> (Inl (CoreSync e), a\<lparr>ac_client := c\<rparr>)
                       | (Inr _, c) \<Rightarrow> (Inr True, a\<lparr>ac_client := c\<rparr>))))"

end
