(* ===== verification/Gate_Safety.thy ===== *)
theory Gate_Safety
  imports App_Gate Docsync_Safety
begin

text \<open>
  What the gate of \<open>App_Gate\<close> lets in: only what a member signed who could write it then and still
  can, or what a cover blesses of a removed member; a tree once shared never takes an unsigned entry
  again; and what a failed publication of a cover leaves behind.
\<close>

lemma gate_accepts:
  assumes "classify_entry G (Some r) covered env pt own = (Accept, committer)"
  shows "\<exists>envelope h. ge_decode G env = Some envelope \<and> en_header envelope = Some h \<and>
    (ingest_envelope G r envelope h pt = DAccept \<or>
     (\<exists>i info key. bt_get covered (kv_sha (ge_keyring G) (en_ciphertext envelope)) = Some i \<and>
        rs_ever_member_info r i = Some info \<and> key \<in> set (ev_keys_ever_held info) \<and>
        verify_covered_entry (ge_keyring G) (en_version envelope) h pt i key (ev_strongest_role info)))"
proof -
  obtain envelope where e: "ge_decode G env = Some envelope"
    using assms by (auto simp: classify_entry_def split: option.splits)
  then obtain h where h: "en_header envelope = Some h"
    using assms by (auto simp: classify_entry_def split: option.splits)
  let ?v = "ingest_envelope G r envelope h pt"
  show ?thesis
  proof (cases "?v = DAccept")
    case False
    then have "?v = DReject"
      using assms e h by (cases ?v) (auto simp: classify_entry_def Let_def split: if_splits)
    then show ?thesis
      using assms e h
      by (auto simp: classify_entry_def Let_def list_ex_iff split: if_splits option.splits)
  qed (use e h in blast)
qed

text \<open>C12: on a shared tree of the chain engine the gate lets in a peer's entry only if its author was
  a member at a retained revision that its header names, with the role that its kind requires, signed
  this header and this text with that member's key, sealed it under the newest key of that
  revision, and is at the verified head still a member with that key and a sufficient role.\<close>

theorem gate_chain_authentic:
  assumes "classify_entry G (Some (chain_resolver (ge_keyring G) did c)) covered env pt own = (Accept, committer)"
    and "keyring_has_been_shared (cr_head c)"
  shows "\<exists>envelope h n kr m hm. ge_decode G env = Some envelope \<and> en_header envelope = Some h \<and>
    decode_governing_ref (h_governing_ref h) = Some n \<and> n \<noteq> 0 \<and> bt_get (cr_retained c) n = Some kr \<and>
    h_key_id h = newest_key_id (ge_keyring G) kr \<and>
    find_member (h_author_member_id h) (membership_view kr) = Some m \<and> may_write h (mv_role m) \<and>
    authored_by (ge_keyring G) (en_version envelope) h pt (mv_author_public_key m) \<and>
    find_member (h_author_member_id h) (membership_view (cr_head c)) = Some hm \<and> may_write h (mv_role hm) \<and>
    mv_author_public_key hm = mv_author_public_key m"
proof -
  let ?V = "ge_keyring G" and ?r = "chain_resolver (ge_keyring G) did c"
  obtain envelope h where e: "ge_decode G env = Some envelope" "en_header envelope = Some h"
      "ingest_envelope G ?r envelope h pt = DAccept"
    using gate_accepts [OF assms(1)] by (auto simp: chain_resolver_def)
  have "rs_shared ?r" using assms(2) by (simp add: chain_resolver_def)
  then obtain view expected a hv where g: "rs_resolve ?r (h_governing_ref h) (h_key_id h) = GResolved view expected a hv"
      "verify_entry ?V (en_version envelope) h pt view expected = Inr ()" "head_disposition h view hv = DAccept"
    using e(3) unfolding ingest_envelope_def by (blast elim: ingest_shared_accept)
  obtain n kr where n: "decode_governing_ref (h_governing_ref h) = Some n" "n \<noteq> 0" "bt_get (cr_retained c) n = Some kr"
      "view = membership_view kr" "expected = newest_key_id ?V kr" "hv = Some (membership_view (cr_head c))"
    using g(1) by (auto simp: chain_resolver_def chain_resolve_def Let_def split: option.splits if_splits)
  obtain m where m: "find_member (h_author_member_id h) (membership_view kr) = Some m" "may_write h (mv_role m)"
      "authored_by ?V (en_version envelope) h pt (mv_author_public_key m)" "h_key_id h = newest_key_id ?V kr"
    using g(2) n(4,5) by (auto simp: verify_entry_ok)
  obtain hm where "find_member (h_author_member_id h) (membership_view (cr_head c)) = Some hm"
      "may_write h (mv_role hm)" "mv_author_public_key hm = mv_author_public_key m"
    using head_accept [of h "membership_view kr" "membership_view (cr_head c)" m] g(3) n(4,6) m(1) by auto
  then show ?thesis using e(1,2) n(1,2,3) m by blast
qed

text \<open>C14: on a shared tree of the DAG engine an entry is let in only with a valid signature over it: of a
  current member whose role suffices, or, for an entry whose ciphertext a cover blesses, with a key
  that the blessed author held at some time and a kind that the author's strongest role allowed;
  key and role come from the replica's own membership, whatever the cover says.\<close>

theorem gate_dag_authentic:
  assumes "classify_entry G (Some (dag_resolver did d)) covered env pt own = (Accept, committer)"
    and "dr_has_been_shared d"
  shows "\<exists>envelope h key role. ge_decode G env = Some envelope \<and> en_header envelope = Some h \<and>
    may_write h role \<and> authored_by (ge_keyring G) (en_version envelope) h pt key \<and>
    ((\<exists>m. find_member (h_author_member_id h) (dr_view d) = Some m \<and> key = mv_author_public_key m \<and> role = mv_role m) \<or>
     (\<exists>info. bt_get covered (kv_sha (ge_keyring G) (en_ciphertext envelope)) = Some (h_author_member_id h) \<and>
        bt_get (dr_ever_members d) (h_author_member_id h) = Some info \<and>
        key \<in> set (ev_keys_ever_held info) \<and> role = ev_strongest_role info))"
proof -
  obtain envelope h where e: "ge_decode G env = Some envelope" "en_header envelope = Some h"
    and cases: "ingest_envelope G (dag_resolver did d) envelope h pt = DAccept \<or>
     (\<exists>i info key. bt_get covered (kv_sha (ge_keyring G) (en_ciphertext envelope)) = Some i \<and>
        rs_ever_member_info (dag_resolver did d) i = Some info \<and> key \<in> set (ev_keys_ever_held info) \<and>
        verify_covered_entry (ge_keyring G) (en_version envelope) h pt i key (ev_strongest_role info))"
    using gate_accepts [OF assms(1)] by blast
  have shared: "rs_shared (dag_resolver did d)" using assms(2) by (simp add: dag_resolver_def)
  from cases show ?thesis
  proof
    assume "ingest_envelope G (dag_resolver did d) envelope h pt = DAccept"
    then show ?thesis using dag_head.accepted_at_head [OF shared] e unfolding ingest_envelope_def by blast
  next
    assume "\<exists>i info key. bt_get covered (kv_sha (ge_keyring G) (en_ciphertext envelope)) = Some i \<and>
        rs_ever_member_info (dag_resolver did d) i = Some info \<and> key \<in> set (ev_keys_ever_held info) \<and>
        verify_covered_entry (ge_keyring G) (en_version envelope) h pt i key (ev_strongest_role info)"
    then show ?thesis using e by (auto simp: covered_entry_ok dag_resolver_def)
  qed
qed

text \<open>The marker along a walk.\<close>

lemma walk_marker:
  assumes "keyring_walk V a hops = Inr b" "ka_first_shared_revision a \<noteq> 0" "k \<in> set hops"
  shows "k_first_shared_revision k = ka_first_shared_revision a"
  using assms
proof (induction hops arbitrary: a)
  case (Cons l hops)
  obtain a' where t: "keyring_transition V a l = Inr a'" and w: "keyring_walk V a' hops = Inr b"
    using Cons.prems(1) by (auto split: sum.splits)
  note f = keyring_transition_facts [OF t]
  show ?case using Cons.IH [OF w] Cons.prems(2,3) f(2,3) by auto
qed simp

text \<open>C13: a chain tree that has been shared takes no unsigned entry along its chain, as a delta or as a
  snapshot.  From an anchor whose sharing marker is set, whatever accepted successors the members
  sign, a resolver built from the head that the walk reached, with any retained revisions and any
  covers, refuses such an entry: no removal, no re-keying and no other accepted successor switches
  the requirement off.  The statement is about heads reached by the transition check.  A recovery
  reset starts a new chain, and a head that a caller installs with \<open>set_membership\<close> without having
  walked to it is taken as it is; neither is covered.\<close>

theorem no_downgrade:
  assumes "keyring_walk (ge_keyring G) a hops = Inr b" "ka_first_shared_revision a \<noteq> 0" "hops \<noteq> []"
    and "kv_decode (ge_keyring G) head_bytes = Some (last hops)"
    and "chain_resolver_new (ge_keyring G) head_bytes retained = Inr c"
    and "ge_decode G env = Some envelope" "en_header envelope = Some h" "h_author_signature h = []"
  shows "fst (classify_entry G (Some (chain_resolver (ge_keyring G) did c)) covered env pt own) \<noteq> Accept \<and>
    classify_snapshot_entry G (Some (chain_resolver (ge_keyring G) did c)) env pt \<noteq> Accept"
proof -
  let ?r = "chain_resolver (ge_keyring G) did c"
  have "cr_head c = last hops"
    using assms(4,5) by (auto simp: chain_resolver_new_def split: sum.splits)
  then have shared: "rs_shared ?r"
    using walk_marker [OF assms(1,2), of "last hops"] assms(2,3) by (simp add: chain_resolver_def keyring_has_been_shared_def)
  have no: "ingest_envelope G ?r envelope h pt \<noteq> DAccept"
    unfolding ingest_envelope_def by (rule chain_head.unsigned_not_accepted [OF shared assms(8)])
  have "fst (classify_entry G (Some ?r) covered env pt own) \<noteq> Accept"
  proof
    assume "fst (classify_entry G (Some ?r) covered env pt own) = Accept"
    then obtain committer where "classify_entry G (Some ?r) covered env pt own = (Accept, committer)"
      by (metis prod.collapse)
    from gate_accepts [OF this] show False
      using no assms(6,7) by (auto simp: chain_resolver_def)
  qed
  moreover have "classify_snapshot_entry G (Some ?r) env pt \<noteq> Accept"
    using no assms(6,7) by (cases "ingest_envelope G ?r envelope h pt") (simp_all add: classify_snapshot_entry_def)
  ultimately show ?thesis ..
qed

text \<open>The role check reads strength off the number alone: a member whose role is not one of the five,
  but a smaller number, may write anything that has a required role at all, though such a member
  is not among the moderators.\<close>

theorem unspecified_role_writes:
  assumes "view = view_new [m] False" "mv_role m \<le> 0" "mv_member_id m = h_author_member_id h"
    and "kind_try_from (h_kind h) = Some KDelta" "length (h_author_signature h) = 64"
    and "authored_by V version h pt (mv_author_public_key m)"
  shows "verify_entry V version h pt view (h_key_id h) = Inr () \<and> moderators did view = []"
  using assms
  by (auto simp: verify_entry_ok may_write_def role_values moderators_def view_new_def api_roles find_member_def
      List.map_filter_def bs_of_list_def)

subsection \<open>A delta, a cover and a head\<close>

definition demo_entry_header :: "string \<Rightarrow> bytes \<Rightarrow> Header" where
  "demo_entry_header author sig =
     \<lparr>h_kind = kind_value KDelta, h_format = 0, h_aead = 2, h_compression = 0, h_key_id = [9], h_nonce = [],
      h_tree_id = [7], h_replica_id = [1], h_replica_counter = 0, h_ciphertext_hash = [],
      h_prev_ciphertext_hash = [], h_covers_through_seq = 0, h_replaces_ciphertext_hash = [],
      h_author_signature = sig, h_author_member_id = author, h_governing_ref = encode_governing_ref 2,
      h_blob_id = []\<rparr>"

definition demo_gate :: gate_env where
  "demo_gate =
     \<lparr>ge_keyring = demo_binding,
      ge_decode = (\<lambda>b. Some \<lparr>en_version = 1,
        en_header = Some (if b = [0] then demo_entry_header ''o'' [] else demo_entry_header ''o'' (replicate 64 1)),
        en_ciphertext = b\<rparr>),
      ge_decode_cover = (\<lambda>b. Some [(b, ''o'')])\<rparr>"

definition demo_chain_resolver :: ChainMembershipResolver where
  "demo_chain_resolver =
     \<lparr>cr_head = demo_third, cr_head_revision = 3, cr_retained = [(2, demo_second), (3, demo_third)]\<rparr>"

lemma demo_newest:
  "k \<in> {demo_second, demo_third} \<Longrightarrow> newest_key_id demo_binding k = [9]"
  by (auto simp: newest_key_id_def key_material_def newest_epoch_def demo_keyrings MAX_KEY_MATERIAL_BYTES_def)

lemma demo_owner:
  "k \<in> {demo_second, demo_third} \<Longrightarrow> find_member ''o'' (membership_view k) =
     Some \<lparr>mv_member_id = ''o'', mv_role = 1, mv_author_public_key = replicate 32 1, mv_hpke_public_key = [1]\<rparr>"
  by (auto simp: find_member_def membership_view_def chain_view_of_def view_new_def member_view_def i16_role_def
      demo_keyrings)

lemma demo_signed:
  "may_write (demo_entry_header i s) r \<longleftrightarrow> r \<le> 3"
  "authored_by demo_binding version (demo_entry_header i (replicate 64 1)) pt (replicate 32 1)"
  by (simp_all add: may_write_def demo_entry_header_def kind_try_from_def role_values authored_by_def demo_wire_def)

lemma demo_ingest:
  "ingest_envelope demo_gate (chain_resolver demo_binding did demo_chain_resolver)
     \<lparr>en_version = 1, en_header = Some (demo_entry_header ''o'' (replicate 64 1)), en_ciphertext = b\<rparr>
     (demo_entry_header ''o'' (replicate 64 1)) pt = DAccept"
proof -
  let ?h = "demo_entry_header ''o'' (replicate 64 1)"
  have h: "h_governing_ref ?h = encode_governing_ref 2" "h_key_id ?h = [9]" "h_author_member_id ?h = ''o''"
      "h_author_signature ?h = replicate 64 1" by (simp_all add: demo_entry_header_def)
  have res: "chain_resolve demo_binding demo_chain_resolver (encode_governing_ref 2) [9] =
      GResolved (membership_view demo_second) [9] (epoch_is_attributed demo_binding demo_second [9])
        (Some (membership_view demo_third))"
    by (simp add: chain_resolve_def demo_chain_resolver_def demo_newest)
  have "verify_entry demo_binding 1 ?h pt (membership_view demo_second) [9] = Inr ()"
    by (simp add: verify_entry_ok h demo_owner demo_signed)
  moreover have "head_disposition ?h (membership_view demo_second) (Some (membership_view demo_third)) = DAccept"
    by (simp add: head_disposition_def h demo_owner)
      (simp add: demo_entry_header_def kind_try_from_def role_values demo_owner)
  moreover have "keyring_has_been_shared (cr_head demo_chain_resolver)"
    by (simp add: keyring_has_been_shared_def demo_chain_resolver_def demo_third_def demo_keyring_def)
  ultimately show ?thesis
    by (simp add: ingest_envelope_def verify_ingest_def chain_resolver_def res h verify_or_reject_def demo_gate_def)
qed

lemma demo_classified:
  "classify_entry demo_gate (Some (chain_resolver demo_binding (\<lambda>k. ''did'') demo_chain_resolver)) [] [5] [8] [] =
     (Accept, ''did'')"
proof -
  have "view_author_did (\<lambda>k. ''did'') (membership_view (cr_head demo_chain_resolver)) ''o'' = Some ''did''"
    by (simp add: view_author_did_def demo_chain_resolver_def demo_owner did_of_key_def)
  then show ?thesis
    using demo_ingest [of "\<lambda>k. ''did''" "[5]" "[8]"]
    by (simp add: classify_entry_def Let_def demo_gate_def)
      (simp add: chain_resolver_def demo_entry_header_def)
qed

theorem gate_chain_authentic_witness:
  "\<exists>envelope h n kr. ge_decode demo_gate [5] = Some envelope \<and> en_header envelope = Some h \<and>
     decode_governing_ref (h_governing_ref h) = Some n \<and> bt_get (cr_retained demo_chain_resolver) n = Some kr \<and>
     h_key_id h = newest_key_id demo_binding kr"
proof -
  have shared: "keyring_has_been_shared (cr_head demo_chain_resolver)"
    by (simp add: keyring_has_been_shared_def demo_chain_resolver_def demo_third_def demo_keyring_def)
  have V: "ge_keyring demo_gate = demo_binding" by (simp add: demo_gate_def)
  from gate_chain_authentic [of demo_gate "\<lambda>k. ''did''" demo_chain_resolver "[]" "[5]" "[8]" "[]", unfolded V,
      OF demo_classified shared]
  show ?thesis by blast
qed

definition demo_dag :: DagMembershipResolver where
  "demo_dag =
     \<lparr>dr_view = view_new [] False, dr_has_been_shared = True, dr_retained_epochs = [[9]],
      dr_ever_members = [(''o'', \<lparr>ev_keys_ever_held = [replicate 32 1], ev_strongest_role = 3\<rparr>)]\<rparr>"

theorem gate_dag_authentic_witness:
  "\<exists>envelope h info. ge_decode demo_gate [5] = Some envelope \<and> en_header envelope = Some h \<and>
     bt_get (dr_ever_members demo_dag) (h_author_member_id h) = Some info \<and> may_write h (ev_strongest_role info)"
proof -
  let ?r = "dag_resolver (\<lambda>k. ''did'') demo_dag"
  let ?h = "demo_entry_header ''o'' (replicate 64 1)"
  have absent: "find_member i (dr_view demo_dag) = None" for i
    by (simp add: demo_dag_def find_member_def view_new_def)
  have h: "h_governing_ref ?h \<noteq> []" "h_key_id ?h = [9]" "h_author_member_id ?h = ''o''" "h_author_signature ?h = replicate 64 1"
    by (simp_all add: demo_entry_header_def encode_governing_ref_def) (metis length_u32_be list.size(3) zero_neq_numeral)
  have "verify_entry demo_binding 1 ?h [8] (dr_view demo_dag) [9] \<noteq> Inr ()"
    using absent by (auto simp: verify_entry_ok)
  then have "ingest_envelope demo_gate ?r \<lparr>en_version = 1, en_header = Some ?h, en_ciphertext = [5]\<rparr> ?h [8] = DReject"
    using h by (auto simp: ingest_envelope_def verify_ingest_def verify_or_reject_def dag_resolver_def dag_resolve_def
        demo_gate_def demo_dag_def split: sum.split)
  moreover have "verify_covered_entry demo_binding 1 ?h [8] ''o'' (replicate 32 1) 3"
    by (simp add: covered_entry_ok h demo_signed)
  ultimately have "\<exists>cm. classify_entry demo_gate (Some ?r) [(replicate 32 5, ''o'')] [5] [8] [] = (Accept, cm)"
    by (simp add: classify_entry_def Let_def demo_gate_def)
      (simp add: dag_resolver_def demo_dag_def demo_wire_def)
  then obtain cm where "classify_entry demo_gate (Some ?r) [(replicate 32 5, ''o'')] [5] [8] [] = (Accept, cm)" ..
  moreover have "dr_has_been_shared demo_dag" by (simp add: demo_dag_def)
  ultimately have "\<exists>envelope h key role. ge_decode demo_gate [5] = Some envelope \<and> en_header envelope = Some h \<and>
    may_write h role \<and> authored_by (ge_keyring demo_gate) (en_version envelope) h [8] key \<and>
    ((\<exists>m. find_member (h_author_member_id h) (dr_view demo_dag) = Some m \<and> key = mv_author_public_key m \<and> role = mv_role m) \<or>
     (\<exists>info. bt_get [(replicate 32 5, ''o'')] (kv_sha (ge_keyring demo_gate) (en_ciphertext envelope)) = Some (h_author_member_id h) \<and>
        bt_get (dr_ever_members demo_dag) (h_author_member_id h) = Some info \<and>
        key \<in> set (ev_keys_ever_held info) \<and> role = ev_strongest_role info))"
    by (rule gate_dag_authentic)
  then show ?thesis using absent by auto
qed

theorem no_downgrade_witness:
  "fst (classify_entry demo_gate (Some (chain_resolver demo_binding (\<lambda>k. ''did'')
     \<lparr>cr_head = demo_third, cr_head_revision = 3, cr_retained = []\<rparr>)) [] [0] [8] []) \<noteq> Accept"
proof -
  let ?c = "\<lparr>cr_head = demo_third, cr_head_revision = 3, cr_retained = []\<rparr>"
  have V: "ge_keyring demo_gate = demo_binding" by (simp add: demo_gate_def)
  have walk: "keyring_walk demo_binding (demo_anchor_at 2 2) [demo_third] = Inr (demo_anchor_at 3 2)"
    by (simp add: demo_step_third)
  have dec: "kv_decode demo_binding [3] = Some (last [demo_third])" by (simp add: demo_wire_def)
  have new: "chain_resolver_new demo_binding [3] [] = Inr ?c"
    using dec by (simp add: chain_resolver_new_def) (simp add: demo_third_def demo_keyring_def)
  have env: "ge_decode demo_gate [0] = Some \<lparr>en_version = 1, en_header = Some (demo_entry_header ''o'' []), en_ciphertext = [0]\<rparr>"
    by (simp add: demo_gate_def)
  have sig: "h_author_signature (demo_entry_header ''o'' []) = []" by (simp add: demo_entry_header_def)
  from no_downgrade [of demo_gate "demo_anchor_at 2 2" "[demo_third]" "demo_anchor_at 3 2" "[3]" "[]" ?c "[0]",
      unfolded V, OF walk _ _ dec new env _ sig]
  show ?thesis by (simp add: demo_anchor_at_def)
qed

subsection \<open>A cover that is not published\<close>

lemma fold_covered_get:
  "bt_get (foldl (\<lambda>m (h, i). bt_insert h i m) m es) k \<noteq> None \<longleftrightarrow> k \<in> fst ` set es \<or> bt_get m k \<noteq> None"
  by (induction es arbitrary: m) (auto split: if_splits)

lemma cover_sweep_uncovered:
  "cover_sweep G D c r covered keys = Inr es \<Longrightarrow> x \<in> set es \<Longrightarrow> bt_get covered (fst x) = None"
proof (induction keys arbitrary: es)
  case (Cons k keys)
  obtain key t where k: "k = (key, t)" by (cases k)
  have hit: "bt_get covered (fst y) = None" if "cover_candidate G r covered opn env = Some y" for y opn env
    using that by (auto simp: cover_candidate_def Let_def split: option.splits if_splits)
  show ?case
    using Cons.prems Cons.IH hit unfolding k by (fastforce split: sum.splits option.splits)
qed simp

text \<open>What the two closures of a gate keep, every run of the client behind them keeps, also one that
  fails half way.\<close>

locale gate_invariant =
  fixes G :: "'g gate_ops" and P :: "'g \<Rightarrow> bool"
  assumes classify_keeps: "P g \<Longrightarrow> P (fst (classify G g env pt r n))"
    and fold_cover_keeps: "P g \<Longrightarrow> P (fold_cover G g env body r n)"
begin

lemma classified: "P g \<Longrightarrow> classify G g env pt r n = (g1, v) \<Longrightarrow> P g1"
  using classify_keeps [of g env pt r n] by simp

lemma drain_held_keeps: "P g \<Longrightarrow> drain_held D G ds m c g = (res, c', g') \<Longrightarrow> P g'"
proof (induction ds arbitrary: m c g)
  case (Cons d ds)
  have one: "P g1" if "drain_one D G d m c g = (res1, c1, g1)" for res1 c1 g1
    using that Cons.prems(1)
    by (auto simp: drain_one_def Let_def intro: classified
        split: sum.splits option.splits prod.splits verdict.splits)
  obtain res1 c1 g1 where d: "drain_one D G d m c g = (res1, c1, g1)" by (metis prod_cases3)
  show ?case using Cons.IH [OF one [OF d]] one [OF d] Cons.prems(2) d by (cases res1) auto
qed simp

lemma scan_gap_keeps: "P g \<Longrightarrow> scan_gap D G r head n ds c g = (res, c', g') \<Longrightarrow> P g'"
proof (induction "unat head - unat n" arbitrary: n ds c g rule: less_induct)
  case less
  show ?case
  proof (cases "n < head \<and> (\<exists>env tag. read_log D c r n = Inr (Some (env, tag)))")
    case True
    then obtain env tag where step: "n < head" "read_log D c r n = Inr (Some (env, tag))" by blast
    obtain new c1 g1 where one: "scan_one D G r n env c g = (new, c1, g1)" by (metis prod_cases3)
    have "P g1" using one less.prems(1) fold_cover_keeps by (auto simp: scan_one_def split: sum.splits)
    moreover have "scan_gap D G r head (n + 1) (ds @ new) c1 g1 = (res, c', g')"
      using less.prems(2) step one by (simp add: scan_gap.simps [of D G r head n])
    moreover have "unat head - unat (n + 1) < unat head - unat n"
      using step(1) by (simp add: unat_diff_Suc_less)
    ultimately show ?thesis using less.hyps by blast
  next
    case False
    then show ?thesis
      using less.prems by (auto simp: scan_gap.simps [of D G r head n] split: if_splits sum.splits option.splits)
  qed
qed

lemma scan_replicas_keeps: "P g \<Longrightarrow> scan_replicas D G rs ds c g = (res, c', g') \<Longrightarrow> P g'"
proof (induction rs arbitrary: ds c g)
  case (Cons r rs)
  show ?case
    using Cons.prems Cons.IH scan_gap_keeps
    by (auto split: sum.splits option.splits prod.splits) blast+
qed simp

lemma classify_all_keeps: "P g \<Longrightarrow> classify_all D G bs m c g = (k, c', g') \<Longrightarrow> P g'"
proof (induction bs arbitrary: m c g)
  case (Cons b bs)
  obtain k1 c1 g1 where b: "classify_one D G b m c g = (k1, c1, g1)" by (metis prod_cases3)
  have "P g1"
    using b Cons.prems(1)
    by (auto simp: classify_one_def Let_def intro: classified split: prod.splits verdict.splits)
  then show ?case using Cons.IH Cons.prems(2) b by simp
qed simp

lemma pull_verified_keeps:
  assumes "P g" "pull_verified D G c g = (res, c', g')"
  shows "P g'"
proof -
  obtain d c1 g1 where dr: "drain_held D G (held c) 0 c g = (d, c1, g1)" by (metis prod_cases3)
  have g1: "P g1" using drain_held_keeps [OF assms(1) dr] .
  show ?thesis
  proof (cases "\<exists>m rs. d = Inr m \<and> list_replicas D c1 = Inr rs")
    case True
    then obtain m rs where ok: "d = Inr m" "list_replicas D c1 = Inr rs" by blast
    obtain q c2 g2 where sc: "scan_replicas D G rs [] c1 g1 = (q, c2, g2)" by (metis prod_cases3)
    have g2: "P g2" using scan_replicas_keeps [OF g1 sc] .
    obtain k c3 g3 where cl: "classify_all D G (projr q) m c2 g2 = (k, c3, g3)" by (metis prod_cases3)
    have "P g3" using classify_all_keeps [OF g2 cl] .
    with g2 show ?thesis using assms(2) dr ok sc cl by (cases q) (simp_all add: pull_verified_def)
  next
    case False
    then have "g' = g1"
      using assms(2) dr by (cases d; cases "list_replicas D c1") (auto simp: pull_verified_def)
    with g1 show ?thesis by simp
  qed
qed

lemma bootstrap_verified_keeps: "P g \<Longrightarrow> bootstrap_verified D G cs c g = (res, c', g') \<Longrightarrow> P g'"
  by (auto simp: bootstrap_verified_def split: prod.splits sum.splits dest: pull_verified_keeps)

lemma retry_stalled_keeps: "P g \<Longrightarrow> Docsync.retry_stalled D G c g = (res, c', g') \<Longrightarrow> P g'"
proof -
  have "P g \<Longrightarrow> retry_all D G ds k c g = (res, c', g') \<Longrightarrow> P g'" for ds k
  proof (induction ds arbitrary: k c g)
    case (Cons d ds)
    have one: "P g1" if "retry_one D G d k c g = (res1, c1, g1)" for res1 c1 g1
      using that Cons.prems(1)
      by (auto simp: retry_one_def intro: classified fold_cover_keeps
          split: sum.splits option.splits prod.splits verdict.splits)
    obtain res1 c1 g1 where d: "retry_one D G d k c g = (res1, c1, g1)" by (metis prod_cases3)
    show ?case using Cons.IH [OF one [OF d]] one [OF d] Cons.prems(2) d by (cases res1) auto
  qed simp
  then show "P g \<Longrightarrow> Docsync.retry_stalled D G c g = (res, c', g') \<Longrightarrow> P g'" by (simp add: retry_stalled_def)
qed

end

text \<open>The gate of the core never takes a mark back.\<close>

lemma insert_covered_get: "bt_get covered h \<noteq> None \<Longrightarrow> bt_get (insert_covered es covered) h \<noteq> None"
  by (induction es covered rule: insert_covered.induct) auto

definition marked :: "bytes set \<Rightarrow> gate_state \<Rightarrow> bool" where
  "marked hs g \<longleftrightarrow> (\<forall>h \<in> hs. bt_get (gs_covered g) h \<noteq> None)"

interpretation marks: gate_invariant "verify_gated G membership own" "marked hs"
  for G membership own hs
proof
  show "marked hs g \<Longrightarrow> marked hs (fst (classify (verify_gated G membership own) g env pt r n))" for g env pt r n
    by (auto simp: marked_def verify_gated_def split: prod.splits)
  show "marked hs g \<Longrightarrow> marked hs (fold_cover (verify_gated G membership own) g env body r n)" for g env body r n
    by (cases "fold_cover_entry G membership (gs_covered g) env body")
      (auto simp: marked_def verify_gated_def fold_cover_entry_def Let_def insert_covered_get
        simp del: not_None_eq split: bool.splits option.splits if_splits)
qed

text \<open>What may happen to a core while its membership stays: folds, retries, bootstraps and sweeps, that
  succeed or fail, over any store and crypto of \<open>Ds\<close>; anything else the client does and anything
  peers write (\<open>c\<close> is arbitrary); and a reset of the anomaly counter.\<close>

inductive membership_kept ::
  "gate_env \<Rightarrow> ('e, 'x, 'k, 's) deps set \<Rightarrow> ('e, 'k, 's) app_core \<Rightarrow> ('e, 'k, 's) app_core \<Rightarrow> bool"
  for G Ds a
where
  start: "membership_kept G Ds a a"
| client: "membership_kept G Ds a b \<Longrightarrow> membership_kept G Ds a (b\<lparr>ac_client := c\<rparr>)"
| counter: "membership_kept G Ds a b \<Longrightarrow>
    membership_kept G Ds a (b\<lparr>ac_gate := (ac_gate b)\<lparr>gs_rejected := n\<rparr>\<rparr>)"
| fold: "membership_kept G Ds a b \<Longrightarrow> D \<in> Ds \<Longrightarrow> core_fold G D b = (res, b') \<Longrightarrow> membership_kept G Ds a b'"
| retry: "membership_kept G Ds a b \<Longrightarrow> D \<in> Ds \<Longrightarrow> core_retry_stalled G D b = (res, b') \<Longrightarrow>
    membership_kept G Ds a b'"
| boot: "membership_kept G Ds a b \<Longrightarrow> D \<in> Ds \<Longrightarrow>
    bootstrap_verified D (core_gate G D b) cs (ac_client b) (ac_gate b) = (res', c', g') \<Longrightarrow>
    membership_kept G Ds a (b\<lparr>ac_client := c', ac_gate := g'\<rparr>)"
| sweep: "membership_kept G Ds a b \<Longrightarrow> D \<in> Ds \<Longrightarrow> author_cover G D encode_cover b = (res'', b') \<Longrightarrow>
    membership_kept G Ds a b'"

lemma marked_fold:
  "marked hs g \<Longrightarrow> marked hs (g\<lparr>gs_covered := foldl (\<lambda>m (h, i). bt_insert h i m) (gs_covered g) es\<rparr>)"
  by (simp add: marked_def fold_covered_get del: not_None_eq)

lemma author_cover_marked:
  assumes "marked hs (ac_gate b)" "author_cover G D encode_cover b = (res, b')"
  shows "marked hs (ac_gate b')"
proof -
  have "ac_gate b' = ac_gate b \<or>
    (\<exists>es. ac_gate b' = (ac_gate b)\<lparr>gs_covered := foldl (\<lambda>m (h, i). bt_insert h i m) (gs_covered (ac_gate b)) es\<rparr>)"
    using assms(2) unfolding author_cover_def Let_def
    by (auto simp del: foldl_Cons split: option.splits sum.splits prod.splits list.splits)
  then show ?thesis using assms(1) marked_fold by auto
qed

lemma core_result_gate:
  "core_result b out = (res, b') \<Longrightarrow> ac_gate b' = snd (snd out)"
  by (auto simp: core_result_def split: prod.splits)

lemma membership_kept_marked:
  "membership_kept G Ds a b \<Longrightarrow> marked hs (ac_gate a) \<Longrightarrow> marked hs (ac_gate b)"
proof (induction rule: membership_kept.induct)
  case (fold b D res b')
  obtain q c' g' where p: "pull_verified D (core_gate G D b) (ac_client b) (ac_gate b) = (q, c', g')"
    by (metis prod_cases3)
  have "marked hs g'" using marks.pull_verified_keeps [OF _ p [unfolded core_gate_def]] fold by blast
  then show ?case using core_result_gate [OF fold(3) [unfolded core_fold_def]] p by simp
next
  case (retry b D res b')
  obtain q c' g' where p: "Docsync.retry_stalled D (core_gate G D b) (ac_client b) (ac_gate b) = (q, c', g')"
    by (metis prod_cases3)
  have "marked hs g'" using marks.retry_stalled_keeps [OF _ p [unfolded core_gate_def]] retry by blast
  then show ?case using core_result_gate [OF retry(3) [unfolded core_retry_stalled_def]] p by simp
next
  case (boot b D cs res' c' g')
  then show ?case using marks.bootstrap_verified_keeps [OF _ boot(3) [unfolded core_gate_def]] by simp
next
  case (sweep b D encode_cover res'' b')
  then show ?case using author_cover_marked by blast
qed (simp_all add: marked_def)

text \<open>C15: a cover whose push failed is not made again.  The sweep marks its entries as covered before it
  seals and writes the cover, so when that fails (the sweep had found entries \<open>es\<close> to cover) no
  sweep of any later state names any of them again, whatever was folded, retried, published or
  received since and whatever the log then holds, until a change of the membership rebuilds the
  covered set.\<close>

theorem failed_cover_forgotten:
  assumes "author_cover G (D :: ('e, 'x, 'k, 's) deps) encode_cover a = (Inl (CoreSync e), failed)"
    and "membership_kept G Ds failed later"
  shows "\<exists>r keys es. ac_membership a = Some r \<and>
    blob_list (st D) (c_store (ac_client a)) (c_doc (ac_client a) @ ''/log/'') = Inr keys \<and>
    cover_sweep G D (ac_client a) r (gs_covered (ac_gate a)) keys = Inr es \<and> es \<noteq> [] \<and>
    (\<forall>(D' :: ('e, 'x, 'k, 's) deps) r' keys' es'. cover_sweep G D' (ac_client later) r' (gs_covered (ac_gate later)) keys' = Inr es' \<longrightarrow>
       fst ` set es' \<inter> fst ` set es = {})"
proof -
  obtain r where r: "ac_membership a = Some r" using assms(1) by (auto simp: author_cover_def split: option.splits)
  obtain keys where keys: "blob_list (st D) (c_store (ac_client a)) (c_doc (ac_client a) @ ''/log/'') = Inr keys"
    using assms(1) r by (auto simp: author_cover_def split: sum.splits)
  obtain es where es: "cover_sweep G D (ac_client a) r (gs_covered (ac_gate a)) keys = Inr es"
    using assms(1) r keys by (auto simp: author_cover_def split: sum.splits)
  have ne: "es \<noteq> []" using assms(1) r keys es by (auto simp: author_cover_def)
  then have "gs_covered (ac_gate failed) = foldl (\<lambda>m (h, i). bt_insert h i m) (gs_covered (ac_gate a)) es"
    using assms(1) r keys es
    by (auto simp: author_cover_def Let_def neq_Nil_conv split: prod.splits sum.splits)
  then have "marked (fst ` set es) (ac_gate failed)"
    by (simp add: marked_def fold_covered_get del: not_None_eq)
  then have m: "marked (fst ` set es) (ac_gate later)" using membership_kept_marked [OF assms(2)] by blast
  have "fst ` set es' \<inter> fst ` set es = {}"
    if "cover_sweep G D' (ac_client later) r' (gs_covered (ac_gate later)) keys' = Inr es'"
    for D' :: "('e, 'x, 'k, 's) deps" and r' keys' es'
    using cover_sweep_uncovered [OF that] m by (fastforce simp: marked_def)
  then show ?thesis using r keys es ne by blast
qed

definition offline_deps :: "(bytes list, bytes, unit, memory_blob) deps" where
  "offline_deps =
     demo_deps\<lparr>st := (memory_ops demo_hash)\<lparr>blob_put := (\<lambda>s k b p. (s, Inl (Backend ''offline'')))\<rparr>\<rparr>"

definition demo_core :: "covered_map \<Rightarrow> (bytes list, unit, memory_blob) app_core" where
  "demo_core covered =
     \<lparr>ac_client = demo_client, ac_membership = Some (dag_resolver (\<lambda>k. ''did'') demo_dag),
      ac_gate = \<lparr>gs_covered = covered, gs_cover_envelopes = [], gs_rejected = 0\<rparr>\<rparr>"

lemma demo_candidate:
  assumes "opn (env_of EDelta [7]) = Some [7]"
  shows "cover_candidate demo_gate (dag_resolver (\<lambda>k. ''did'') demo_dag) [] opn (env_of EDelta [7]) =
     Some (replicate 32 5, ''o'')"
proof -
  have "verify_covered_entry demo_binding 1 (demo_entry_header ''o'' (replicate 64 1)) [7] ''o'' (replicate 32 1) 3"
    by (simp add: covered_entry_ok demo_signed) (simp add: demo_entry_header_def)
  moreover have "env_of EDelta [7] \<noteq> [0]" by (simp add: env_of_def)
  ultimately show ?thesis
    using assms
    by (simp add: cover_candidate_def demo_gate_def dag_resolver_def demo_dag_def view_new_def Let_def)
      (simp add: demo_entry_header_def demo_wire_def)
qed

lemma demo_sweep:
  "cover_sweep demo_gate offline_deps demo_client (dag_resolver (\<lambda>k. ''did'') demo_dag) []
     [(''d/log/a/0'', t)] = Inr [(replicate 32 5, ''o'')]"
proof -
  have get: "blob_get (st offline_deps) (c_store demo_client) ''d/log/a/0'' =
      Inr (Some (env_of EDelta [7], etag_of demo_hash (env_of EDelta [7])))"
    by (simp add: offline_deps_def demo_deps_def demo_client_def client_new_def demo_store_def memory_ops_def memory_get_def)
  have opn: "try_open_delta offline_deps demo_client (env_of EDelta [7]) = Inr [7]"
    by (simp add: try_open_delta_def offline_deps_def demo_defs nth_append)
  show ?thesis
    using get opn by (simp add: demo_candidate)
qed

text \<open>The store is offline during the sweep and back afterwards.\<close>

lemma demo_log_keys:
  "blob_list (st offline_deps) (c_store demo_client) (c_doc demo_client @ ''/log/'') =
    Inr [(''d/log/a/0'', etag_of demo_hash (env_of EDelta [7]))]"
  by (simp add: offline_deps_def demo_deps_def demo_client_def client_new_def demo_store_def memory_ops_def memory_list_def)

lemma demo_failed_cover:
  "author_cover demo_gate offline_deps (\<lambda>_. []) (demo_core []) =
      (Inl (CoreSync (Blob (Backend ''offline''))), demo_core [(replicate 32 5, ''o'')])"
proof -
  have push: "push_cover offline_deps demo_client [] = (Inl (Blob (Backend ''offline'')), demo_client)"
    by (simp add: push_cover_def append_entry_def offline_deps_def demo_deps_def passthrough_ops_def passthrough_seal_def Let_def
        demo_client_def client_new_def)
  show ?thesis using demo_log_keys push demo_sweep by (simp add: author_cover_def demo_core_def)
qed

theorem failed_cover_forgotten_witness:
  "cover_sweep demo_gate demo_deps demo_client (dag_resolver (\<lambda>k. ''did'') demo_dag)
     [(replicate 32 5, ''o'')] [(''d/log/a/0'', ''t'')] \<noteq> Inr [(replicate 32 5, ''o'')]"
proof -
  let ?late = "demo_core [(replicate 32 5, ''o'')]"
  have "membership_kept demo_gate {demo_deps} ?late ?late" by (rule membership_kept.start)
  from failed_cover_forgotten [OF demo_failed_cover this] obtain r keys es where
    r: "ac_membership (demo_core []) = Some r"
    and keys: "blob_list (st offline_deps) (c_store (ac_client (demo_core [])))
      (c_doc (ac_client (demo_core [])) @ ''/log/'') = Inr keys"
    and es: "cover_sweep demo_gate offline_deps (ac_client (demo_core [])) r (gs_covered (ac_gate (demo_core []))) keys = Inr es"
    and later: "\<And>(D' :: (bytes list, bytes, unit, memory_blob) deps) r' keys' es'.
      cover_sweep demo_gate D' (ac_client ?late) r' (gs_covered (ac_gate ?late)) keys' = Inr es' \<Longrightarrow>
      fst ` set es' \<inter> fst ` set es = {}"
    by blast
  have "es = [(replicate 32 5, ''o'')]"
    using r keys es demo_sweep [of "etag_of demo_hash (env_of EDelta [7])"]
    by (simp add: demo_core_def demo_log_keys [unfolded demo_core_def] del: cover_sweep.simps)
  then show ?thesis using later [of demo_deps "dag_resolver (\<lambda>k. ''did'') demo_dag" "[(''d/log/a/0'', ''t'')]"]
    by (auto simp: demo_core_def)
qed

end
