(* ===== verification/Spec2Isabelle.thy ===== *)
theory Spec2Isabelle
  imports Roles Docsync_Publish Data_Tree Chain Dag_Canonical Dag_Passes Dag_Divergence Proj_Demo Sealer_Seam Keyring_Replicas Gate_Safety
begin

text \<open>
  A verification model of openom: a local-first, end-to-end encrypted genealogy system whose Rust
  packages live under \<open>src/packages\<close>.  The model covers the packages that decide something:
  what is stored and synchronised, who may change it, and what the reader sees.

  \<^bold>\<open>How the parts fit together.\<close>  Data is a set of immutable records (claims, attestations, anchors)
  stamped by a hybrid logical clock and merged as a state-based CRDT.  A document's ops travel as
  sealed log objects in a plain blob store; every replica publishes its own log and pulls the
  others', bounded by frontiers of dots.  Snapshots compact the log.  Who may write is decided by a
  keyring document: either a linear chain of signed documents or a causal DAG of signed membership
  ops with a strong-remove resolver.  A projection turns the merged records into people, names,
  events and relationships.  The model follows that order.

  \<^bold>\<open>Theories and the code they model.\<close>  Paths are under \<open>src/packages\<close>.

  \<^item> \<open>Prelude\<close>: bytes, 64-bit arithmetic as the code uses it (saturating, checked), UTF-8, decimal
    text, the \<open>BTreeMap\<close> and \<open>BTreeSet\<close> of the standard library as sorted association lists.
  \<^item> \<open>Roles\<close>: \<open>openom-roles\<close>, and \<open>authorize\<close> of \<open>openom/src/authz.rs\<close>.
  \<^item> \<open>Blob_Store\<close>: the \<open>BlobStore\<close> trait of \<open>store-blob\<close> as a record of functions over an
    explicit store, its contract as the locale \<open>blob_store\<close>, and the memory store as the instance.
  \<^item> \<open>Docsync_Wire\<close>, \<open>Docsync\<close>, \<open>Docsync_Mirror\<close>: \<open>docsync/src/lib.rs\<close>: keys, heads, snapshots, the
    covered frontier on the wire, \<open>BlobSyncClient\<close> with every operation, \<open>mirror\<close>.  The merge
    engine and the sealer are traits there and records of functions here.
    \<open>Docsync_Coverage\<close>, \<open>Docsync_Safety\<close> and \<open>Docsync_Publish\<close> hold what is proved of them.
  \<^item> \<open>Hlc\<close>: \<open>openom-data-model/src/time.rs\<close> and the clock of \<open>openom-data-tree\<close>.  \<open>Data_Crdt\<close>:
    \<open>envelope.rs\<close>, content ids and \<open>openom-data-crdt\<close>.  \<open>Data_Tree\<close>: the \<open>Tree\<close> of \<open>openom-data-tree\<close> and
    its binding to docsync in \<open>openom-docsync/src/sync.rs\<close>.
  \<^item> \<open>Keyeo_Core\<close>: \<open>keyeo-core\<close> (requirements, retention, the signature seam).
  \<^item> \<open>Chain_Signing\<close>, \<open>Chain\<close>: \<open>keyeo-chain\<close>: canonical signing bytes, quorums, the transition check,
    the walk, bootstrap, reset and compaction.
  \<^item> \<open>Key_Material\<close>: the epochs, wraps and coverage of \<open>keyeo-crypto\<close>.  \<open>Envelope\<close>: the associated data
    and the sealed envelope of \<open>openom-crypto\<close>.  \<open>Sealer\<close>: \<open>openom-sealer\<close>; \<open>Sealer_Seam\<close>: its adapter to
    docsync in \<open>openom-docsync\<close>, with a demonstration cipher.
  \<^item> \<open>Keyring_Api\<close>: \<open>openom-keyring-api\<close>.  \<open>Keyring_Chain\<close>: \<open>openom-keyring-chain\<close> without
    \<open>blob_sync.rs\<close>, which is \<open>Keyring_Sync\<close>.  \<open>Keyring_Demo\<close> and \<open>Keyring_Replicas\<close> hold a small
    keyring and what is proved of replicas over a store that keeps its promises.
  \<^item> \<open>Verify_Ingest\<close>: \<open>attribution.rs\<close>, \<open>membership.rs\<close> and \<open>verify.rs\<close> of \<open>openom-vault\<close>.  \<open>App_Gate\<close>: the
    gate of \<open>openom-app-core/src/lib.rs\<close> in front of the sync client, the change of membership and the
    sweep for covers; \<open>Gate_Safety\<close> holds what is proved of them.
  \<^item> \<open>Dag_Types\<close>, \<open>Dag_Canonical\<close>, \<open>Dag_Graph\<close>, \<open>Dag_Order\<close>, \<open>Dag_Resolver\<close>, \<open>Dag_Topo\<close>, \<open>Dag_Engine\<close>,
    \<open>Dag_Compaction\<close>: \<open>keyeo-dag\<close>, file by file: the fold of one action, signed bytes and content ids,
    the hash-pointer graph, depths and authorization, strong remove, Kahn's order, admission with its
    pending buffer, quorum commits, checkpoints and garbage collection.  \<open>Dag_Passes\<close>,
    \<open>Dag_Convergence\<close>, \<open>Dag_Admission\<close> and \<open>Dag_Divergence\<close> hold theorems and witnesses.
  \<^item> \<open>Json\<close>: \<open>format-jcs\<close>.  \<open>Edtf\<close>: \<open>format-edtf\<close>.
  \<^item> \<open>Proj_Cluster\<close>, \<open>Proj_Collect\<close>, \<open>Projection\<close>: \<open>openom-data-projection\<close>: union-find with
    constraint repair, the collection of claims under attestation scores, the assembly of the read
    model.  \<open>Proj_People\<close> and \<open>Proj_Demo\<close> hold theorems and witnesses.

  \<^bold>\<open>Conventions.\<close>  A struct is a \<open>record\<close>, an enum a \<open>datatype\<close>; \<open>u64\<close> and bytes are words, and where
  only the order of a counter matters a \<open>nat\<close> under its bound; the \<open>i64\<close> milliseconds of the clock are
  integers with the wrap-around written out; \<open>Result\<close> is a sum with the error on the
  left; a method that mutates \<open>self\<close> returns the new state, also on its error path where the code
  leaves the state half changed.  A \<open>HashMap\<close> is a list in its iteration order, so that a result
  which depends on that order shows it.  Cryptography (signatures, hashes, AEAD) and the JSON parser
  are fields of an environment record; a property that needs collision freedom or the like names it
  as a hypothesis and has a witness with a concrete function.

  \<^bold>\<open>Interfaces.\<close>  The locale \<open>blob_store\<close> (what a store promises; interpreted by the memory store),
  \<open>merge_engine\<close> (what absorbing a delta promises the sync client; interpreted by the tree) and
  \<open>kind_strict_sealer\<close> (a sealer opens what it sealed under the same kind and no other; interpreted
  by the session of \<open>Sealer\<close> behind its adapter) carry the lemmas about their clients;
  \<open>reaped_store\<close> (a store whose collector answers \<open>Gone\<close>; interpreted by the memory store behind a
  set of reaped keys) and \<open>gate_invariant\<close> (what the closures of a gate keep; interpreted by the gate
  of the core with its covered set) those about mirrors and gated runs; \<open>head_authority\<close> (a resolver
  judges by its verified head; interpreted by the resolvers of both engines) and \<open>keyring_verifier\<close>
  (what admission promises the server; interpreted by the chain's verifier) those about ingestion and
  about a run of admissions.

  \<^bold>\<open>What is shown.\<close>  Sync: a client's subsumed frontier, which licenses deletion, spans only absorbed,
  cover or dropped dots, in every state reachable by pulls, verified pulls that succeed, retries and
  compactions (not across a verified pull that fails half way, which loses a delta, nor an adopted
  snapshot); a compaction never lowers the coverage it reads, where a snapshot the gate rejected
  counts as none; a mirror announces only what is in the target or reaped at the source.  Data: the
  merged state does not depend on order or multiplicity while an id names one item; an unauthorised
  op does no more than assert the record it brings; timestamps round-trip and grow while the
  milliseconds stay in their range.  Chain: successors are endorsed by the prior signers where the
  prior rule asks for anybody, heads pin the history, pruning is safe.
  Gate: an entry is let in only with a signature of a member whose role sufficed when it was written
  and suffices now, or under a cover, and along the accepted successors of a shared anchor a tree never
  takes unsigned entries again.
  Keyring binding: the keyless verifier admits no rollback and no fork, successors keep the sharing marker, and
  the hash pins every field; a replica trusts only walks whatever the store serves, what is published
  in order by a replica that is up to date is pulled, and a countersigner signs only what it reviewed
  and gets done once the others leave a draft of that content alone.  Sealing: what was sealed
  opens under every later set of epochs and as no other kind, and signed byte strings never coincide
  across their uses.
  DAG: every reachable engine state is acyclic and parent-closed; the resolver's ignore set is a
  fixpoint that enforces its rules, within a bounded number of passes, independent of iteration order
  except for the tie that a counterexample exhibits; membership converges while no presence is tied and
  no proposal id is reused; compaction orphans
  nothing.  Formats: canonical bytes are injective, dates are calendar days.  Read model: projection
  always returns, union-find refines the greedy merging of equivalence classes, people partition the
  person anchors.  Theorems that exhibit a defect of the code are stated as such in their text.

  \<^bold>\<open>Loops.\<close>  The recursions of \<open>find_root\<close> and \<open>compress_path\<close> are option-valued partial functions, as a
  cyclic parent map would make the code spin; \<open>project_returns\<close> shows that they return on every
  input.  The retry loop of \<open>countersign\<close> takes a number of rounds and what the others do in each;
  \<open>countersign_returns\<close> shows that one round in which the draft is left alone is enough.  Everything else terminates by a measure.  The resolver's loops carry a counter against a
  bound in the code; \<open>passes_bounded\<close> shows that it is never reached.  Ancestry queries of the graph
  library are a parameter fixed to reachability, with an executable instance whose fuel is the number
  of nodes.

  \<^bold>\<open>Not modelled.\<close>  Ciphers, key derivation and signatures (third-party primitives under
  \<open>keyeo-crypto\<close>, \<open>openom-crypto\<close>, \<open>edsign\<close>; parameters here) and \<open>keyeo-wrap\<close>; the binding of the
  DAG engine (\<open>openom-keyring-dag\<close>), the key custody of the vault and its host, of the application core
  accounts, media, proposals, persistence and bindings, its host,
  the HTTP server with its database and object store, media storage, the SQL schema, \<open>did\<close>, and the
  Tauri and JavaScript applications.  Of the DAG's graph the bubble queries, of the file store the
  file I/O, and of \<open>openom-docsync\<close> the forwarding client methods are left out.
\<close>

end
